(* ===== verification/Net_Prelude.thy ===== *)
theory Net_Prelude
  imports Main "HOL-Library.Word"
begin

text \<open>
  Shared ground of the development: the failures a C++ operation can end in, the result
  type that carries them, the arithmetic of \<open>size_t\<close>, the raw memory accesses of
  \<open>std::memcpy\<close> and \<open>std::memmove\<close> on the storage of a \<open>std::vector\<close>, and the generic
  list facts the components use.
\<close>

named_theorems cpp_simps
named_theorems wf_intros

section \<open>Failures and results\<close>

text \<open>
  \<open>AssertionFailed\<close> is an \<open>assert\<close> of the source that does not hold (the development follows
  the build with assertions enabled); \<open>OutOfBounds\<close>, \<open>UseAfterFree\<close>, \<open>NullDeref\<close> and
  \<open>SignedOverflow\<close> are accesses or arithmetic with undefined behaviour; \<open>LengthError\<close> is the
  exception of \<open>std::vector::resize\<close>; \<open>Terminated\<close> is \<open>std::terminate\<close>; \<open>NoReturn\<close>
  is a call that never returns.
\<close>

datatype cpp_error =
    AssertionFailed
  | OutOfBounds
  | UseAfterFree
  | NullDeref
  | SignedOverflow
  | LengthError
  | Terminated
  | NoReturn

type_synonym 'a res = "cpp_error + 'a"

text \<open>Sequencing: the first failure ends the operation.\<close>

definition rbind :: "'a res \<Rightarrow> ('a \<Rightarrow> 'b res) \<Rightarrow> 'b res" where
  "rbind r f = (case r of Inl e \<Rightarrow> Inl e | Inr a \<Rightarrow> f a)"

definition rmap :: "('a \<Rightarrow> 'b) \<Rightarrow> 'a res \<Rightarrow> 'b res" where
  "rmap f r = rbind r (\<lambda>a. Inr (f a))"

definition cpp_assert :: "bool \<Rightarrow> 'a res \<Rightarrow> 'a res" where
  "cpp_assert P k = (if P then k else Inl AssertionFailed)"

lemma rbind_Inl [simp]: "rbind (Inl e) f = Inl e"
  by (simp add: rbind_def)

lemma rbind_Inr [simp]: "rbind (Inr a) f = f a"
  by (simp add: rbind_def)

lemma rbind_eq_Inr_iff: "rbind r f = Inr b \<longleftrightarrow> (\<exists>a. r = Inr a \<and> f a = Inr b)"
  by (cases r) auto

lemma rbind_eq_InrE:
  assumes "rbind r f = Inr b"
  obtains a where "r = Inr a" and "f a = Inr b"
  using assms by (auto simp: rbind_eq_Inr_iff)

lemma rmap_simps [simp]: "rmap f (Inl e) = Inl e" "rmap f (Inr a) = Inr (f a)"
  by (simp_all add: rmap_def)

lemma rmap_eq_Inr_iff: "rmap f r = Inr b \<longleftrightarrow> (\<exists>a. r = Inr a \<and> b = f a)"
  by (cases r) auto

lemma cpp_assert_simps [simp]:
  "P \<Longrightarrow> cpp_assert P k = k"
  "\<not> P \<Longrightarrow> cpp_assert P k = Inl AssertionFailed"
  by (simp_all add: cpp_assert_def)

lemma cpp_assert_eq_Inr_iff: "cpp_assert P k = Inr a \<longleftrightarrow> P \<and> k = Inr a"
  by (simp add: cpp_assert_def)

section \<open>The arithmetic of size\_t\<close>

text \<open>
  A \<open>size_t\<close> is a \<open>nat\<close> below \<open>2 ^ 64\<close>; addition and subtraction wrap around.
\<close>

type_synonym size_t = nat

definition sz_add :: "size_t \<Rightarrow> size_t \<Rightarrow> size_t" where
  "sz_add a b = (a + b) mod 2 ^ 64"

definition sz_sub :: "size_t \<Rightarrow> size_t \<Rightarrow> size_t" where
  "sz_sub a b = nat ((int a - int b) mod 2 ^ 64)"

lemma sz_add_bound: "sz_add a b < 2 ^ 64"
  by (simp add: sz_add_def)

lemma sz_sub_bound: "sz_sub a b < 2 ^ 64"
proof -
  have "(int a - int b) mod 2 ^ 64 < 2 ^ 64" by (rule pos_mod_bound) simp
  then show ?thesis by (simp add: sz_sub_def nat_less_iff)
qed

lemma sz_add_eq: "a + b < 2 ^ 64 \<Longrightarrow> sz_add a b = a + b"
  by (simp add: sz_add_def)

lemma sz_sub_eq: "b \<le> a \<Longrightarrow> a < 2 ^ 64 \<Longrightarrow> sz_sub a b = a - b"
  by (simp add: sz_sub_def nat_minus_as_int mod_pos_pos_trivial)

lemma sz_sub_wrap: "a < b \<Longrightarrow> b \<le> 2 ^ 64 \<Longrightarrow> sz_sub a b = a + 2 ^ 64 - b"
proof -
  assume "a < b" and "b \<le> 2 ^ 64"
  then have "(int a - int b + 2 ^ 64) mod 2 ^ 64 = int a - int b + 2 ^ 64"
    by (intro mod_pos_pos_trivial) simp_all
  then have "(int a - int b) mod 2 ^ 64 = int a - int b + 2 ^ 64"
    by (simp only: mod_add_self2)
  then show ?thesis using \<open>b \<le> 2 ^ 64\<close> by (simp add: sz_sub_def)
qed

text \<open>The largest size a \<open>std::vector<std::byte>\<close> accepts: \<open>PTRDIFF_MAX\<close>.\<close>

definition vec_max :: nat where
  "vec_max = 2 ^ 63 - 1"

lemma vec_max_less: "a \<le> vec_max \<Longrightarrow> a < 2 ^ 63"
  by (simp add: vec_max_def)

section \<open>Raw memory\<close>

type_synonym byte = "8 word"

text \<open>\<open>mem_write d off bs\<close> stores \<open>bs\<close> at offset \<open>off\<close> of the storage \<open>d\<close>; \<open>mem_read d off n\<close>
  reads \<open>n\<close> bytes from there. Both fail when they touch a byte outside the storage.\<close>

definition mem_write :: "'b list \<Rightarrow> nat \<Rightarrow> 'b list \<Rightarrow> 'b list res" where
  "mem_write d off bs =
     (if off + length bs \<le> length d
      then Inr (take off d @ bs @ drop (off + length bs) d)
      else Inl OutOfBounds)"

definition mem_read :: "'b list \<Rightarrow> nat \<Rightarrow> nat \<Rightarrow> 'b list res" where
  "mem_read d off n =
     (if off + n \<le> length d then Inr (take n (drop off d)) else Inl OutOfBounds)"

text \<open>\<open>std::memmove\<close> inside one storage: the source is read before the target is written.\<close>

definition mem_move :: "'b list \<Rightarrow> nat \<Rightarrow> nat \<Rightarrow> nat \<Rightarrow> 'b list res" where
  "mem_move d dst src n = rbind (mem_read d src n) (\<lambda>bs. mem_write d dst bs)"

text \<open>\<open>std::vector::resize\<close>: truncates or extends with zero bytes.\<close>

definition vec_resize :: "byte list \<Rightarrow> nat \<Rightarrow> byte list res" where
  "vec_resize d n =
     (if n \<le> vec_max then Inr (take n d @ replicate (n - length d) 0) else Inl LengthError)"

lemma mem_write_Inr [simp]:
  "off + length bs \<le> length d \<Longrightarrow>
   mem_write d off bs = Inr (take off d @ bs @ drop (off + length bs) d)"
  by (simp add: mem_write_def)

lemma mem_read_Inr [simp]:
  "off + n \<le> length d \<Longrightarrow> mem_read d off n = Inr (take n (drop off d))"
  by (simp add: mem_read_def)

lemma mem_move_Inr [simp]:
  assumes "src + n \<le> length d" and "dst + n \<le> length d"
  shows "mem_move d dst src n = Inr (take dst d @ take n (drop src d) @ drop (dst + n) d)"
  using assms by (simp add: mem_move_def)

lemma mem_move_out_of_bounds:
  "length d < dst + n \<Longrightarrow> src + n \<le> length d \<Longrightarrow> mem_move d dst src n = Inl OutOfBounds"
  by (simp add: mem_move_def mem_write_def)

lemma vec_resize_Inr [simp]:
  "n \<le> vec_max \<Longrightarrow> vec_resize d n = Inr (take n d @ replicate (n - length d) 0)"
  by (simp add: vec_resize_def)

section \<open>Sequences of steps\<close>

text \<open>\<open>ev_path step q es q'\<close>: the steps labelled \<open>es\<close>, in this order, lead from \<open>q\<close> to \<open>q'\<close>.\<close>

inductive ev_path :: "('q \<Rightarrow> 'e \<Rightarrow> 'q \<Rightarrow> bool) \<Rightarrow> 'q \<Rightarrow> 'e list \<Rightarrow> 'q \<Rightarrow> bool" for step where
  ev_nil: "ev_path step q [] q"
| ev_snoc: "ev_path step q es q' \<Longrightarrow> step q' e q'' \<Longrightarrow> ev_path step q (es @ [e]) q''"

lemma ev_path_invariant:
  assumes "ev_path step q es q'" and "P q" and "\<And>a e b. P a \<Longrightarrow> step a e b \<Longrightarrow> P b"
  shows "P q'"
  using assms by (induction rule: ev_path.induct) auto

lemma ev_path_append:
  assumes "ev_path step q' es' q''" and "ev_path step q es q'"
  shows "ev_path step q (es @ es') q''"
  using assms by (induction rule: ev_path.induct) (auto simp flip: append_assoc intro: ev_path.intros)

lemma ev_path_single: "step q e q' \<Longrightarrow> ev_path step q [e] q'"
  using ev_snoc [OF ev_nil, of step q e q'] by simp

lemma ev_path_Cons: "step q e q' \<Longrightarrow> ev_path step q' es q'' \<Longrightarrow> ev_path step q (e # es) q''"
  using ev_path_append [OF _ ev_path_single] by fastforce

section \<open>List facts\<close>

lemma take_drop_prefix: "a + n \<le> k \<Longrightarrow> take n (drop a (take k xs)) = take n (drop a xs)"
  by (simp add: drop_take min_def)

end
