(* ===== verification/Byte_Order.thy ===== *)
theory Byte_Order
  imports Net_Prelude
begin

text \<open>
  Byte order of the integers a \<open>Buffer\<close> carries (the anonymous-namespace templates of
  \<open>src/solar_net/base/buffer.cpp\<close>). A value of a fixed-width integer type is a word; its
  object representation is the list of its bytes in memory order, which depends on
  \<open>std::endian::native\<close>, a parameter of the model.
\<close>

datatype endian = Little | Big

section \<open>Object representations\<close>

primrec le_bytes :: "nat \<Rightarrow> nat \<Rightarrow> byte list" where
  "le_bytes 0 x = []"
| "le_bytes (Suc n) x = word_of_nat (x mod 256) # le_bytes n (x div 256)"

primrec le_value :: "byte list \<Rightarrow> nat" where
  "le_value [] = 0"
| "le_value (b # bs) = unat b + 256 * le_value bs"

definition sizeof_word :: "'a::len word \<Rightarrow> nat" where
  "sizeof_word w = LENGTH('a) div 8"

definition obj_bytes :: "endian \<Rightarrow> 'a::len word \<Rightarrow> byte list" where
  "obj_bytes e w =
     (let bs = le_bytes (sizeof_word w) (unat w) in case e of Little \<Rightarrow> bs | Big \<Rightarrow> rev bs)"

definition obj_value :: "endian \<Rightarrow> byte list \<Rightarrow> 'a::len word" where
  "obj_value e bs = word_of_nat (le_value (case e of Little \<Rightarrow> bs | Big \<Rightarrow> rev bs))"

section \<open>ByteSwap, ToNetwork, FromNetwork\<close>

text \<open>The copy loop of \<open>ByteSwap\<close>: \<open>dst\<close> starts at the last byte and moves down while \<open>src\<close>
  moves up.\<close>

definition byte_swap_loop :: "byte list \<Rightarrow> byte list" where
  "byte_swap_loop src =
     (let n = length src
      in fold (\<lambda>i result. result[n - 1 - i := src ! i]) [0..<n] (replicate n 0))"

definition ByteSwap :: "endian \<Rightarrow> 'a::len word \<Rightarrow> 'a word" where
  "ByteSwap e v = obj_value e (byte_swap_loop (obj_bytes e v))"

definition ToNetwork :: "endian \<Rightarrow> 'a::len word \<Rightarrow> 'a word" where
  "ToNetwork e v = (if e = Big then v else ByteSwap e v)"

definition FromNetwork :: "endian \<Rightarrow> 'a::len word \<Rightarrow> 'a word" where
  "FromNetwork e v = (if e = Big then v else ByteSwap e v)"

section \<open>Facts\<close>

text \<open>The wire format: most significant byte first.\<close>

definition be_bytes :: "'a::len word \<Rightarrow> byte list" where
  "be_bytes w = rev (le_bytes (sizeof_word w) (unat w))"

lemma length_le_bytes [simp]: "length (le_bytes n x) = n"
  by (induction n arbitrary: x) simp_all

lemma length_obj_bytes [simp]: "length (obj_bytes e w) = sizeof_word w"
  by (cases e) (simp_all add: obj_bytes_def Let_def)

lemma length_be_bytes [simp]: "length (be_bytes w) = sizeof_word w"
  by (simp add: be_bytes_def)

lemma le_bytes_1 [simp]: "le_bytes (Suc 0) x = [word_of_nat (x mod 256)]"
  by simp

lemma le_bytes_numeral:
  "le_bytes (numeral k) x = word_of_nat (x mod 256) # le_bytes (pred_numeral k) (x div 256)"
  by (simp only: numeral_eq_Suc [of k] le_bytes.simps)

lemma le_value_le_bytes: "le_value (le_bytes n x) = x mod 256 ^ n"
proof (induction n arbitrary: x)
  case 0
  show ?case by simp
next
  case (Suc n)
  have "le_value (le_bytes (Suc n) x) = x mod 256 + 256 * (x div 256 mod 256 ^ n)"
    by (simp add: Suc.IH unat_of_nat)
  then show ?case
    by (simp add: mod_mult2_eq)
qed

lemma le_bytes_le_value: "le_bytes (length bs) (le_value bs) = bs"
proof (induction bs)
  case Nil
  show ?case by simp
next
  case (Cons b bs)
  have "unat b < 256" using unsigned_less [of b] by simp
  then show ?case using Cons.IH by simp
qed

lemma le_value_bound: "le_value bs < 256 ^ length bs"
proof (induction bs)
  case Nil
  show ?case by simp
next
  case (Cons b bs)
  have "unat b < 256" using unsigned_less [of b] by simp
  with Cons.IH show ?case by simp
qed

text \<open>The integer types of the source have a whole number of bytes.\<close>

lemma pow_256_sizeof:
  "8 dvd LENGTH('a::len) \<Longrightarrow> (256::nat) ^ sizeof_word (w :: 'a word) = 2 ^ LENGTH('a)"
proof -
  assume "8 dvd LENGTH('a)"
  then obtain k where "LENGTH('a) = 8 * k" by (elim dvdE)
  then show ?thesis by (simp add: sizeof_word_def power_mult)
qed

lemma sizeof_word_simps [simp]:
  "sizeof_word (v8 :: 8 word) = 1" "sizeof_word (v16 :: 16 word) = 2"
  "sizeof_word (v32 :: 32 word) = 4" "sizeof_word (v64 :: 64 word) = 8"
  by (simp_all add: sizeof_word_def)

lemma obj_value_obj_bytes:
  assumes "8 dvd LENGTH('a::len)"
  shows "obj_value e (obj_bytes e w) = (w :: 'a word)"
proof -
  have "le_value (le_bytes (sizeof_word w) (unat w)) = unat w"
    using unsigned_less [of w] by (simp add: le_value_le_bytes pow_256_sizeof [OF assms])
  then show ?thesis by (cases e) (simp_all add: obj_value_def obj_bytes_def Let_def)
qed

lemma obj_bytes_obj_value:
  assumes "8 dvd LENGTH('a::len)" and "length bs = LENGTH('a) div 8"
  shows "obj_bytes e (obj_value e bs :: 'a word) = bs"
proof -
  have len: "length cs = LENGTH('a) div 8 \<Longrightarrow>
      le_bytes (LENGTH('a) div 8) (unat (word_of_nat (le_value cs) :: 'a word)) = cs" for cs
  proof -
    assume l: "length cs = LENGTH('a) div 8"
    have "le_value cs < 2 ^ LENGTH('a)"
      using le_value_bound [of cs] pow_256_sizeof [OF assms(1)] l
      by (simp add: sizeof_word_def)
    then have "unat (word_of_nat (le_value cs) :: 'a word) = le_value cs"
      by (simp add: unat_of_nat)
    then show ?thesis using le_bytes_le_value [of cs] l by simp
  qed
  show ?thesis
    using assms(2) len [of bs] len [of "rev bs"]
    by (cases e) (simp_all add: obj_bytes_def obj_value_def Let_def sizeof_word_def)
qed

text \<open>The loop reverses the representation: after \<open>k\<close> rounds the last \<open>k\<close> bytes are in place.\<close>

lemma byte_swap_loop_prefix:
  fixes src :: "byte list"
  assumes "k \<le> length src"
  shows "fold (\<lambda>i result. result[length src - 1 - i := src ! i]) [0..<k] (replicate (length src) 0)
    = replicate (length src - k) 0 @ rev (take k src)"
  using assms
proof (induction k)
  case 0
  show ?case by simp
next
  case (Suc k)
  then have k: "k < length src" by simp
  then have "length src - k = Suc (length src - 1 - k)" by simp
  then have "replicate (length src - k) (0::byte) = replicate (length src - 1 - k) 0 @ [0]"
    by (simp add: replicate_append_same)
  then have "(replicate (length src - k) (0::byte) @ rev (take k src))[length src - 1 - k := src ! k]
      = replicate (length src - 1 - k) 0 @ src ! k # rev (take k src)"
    by (simp add: list_update_append)
  with Suc k show ?case
    by (simp add: take_Suc_conv_app_nth)
qed

lemma byte_swap_loop_rev: "byte_swap_loop src = rev src"
  using byte_swap_loop_prefix [of "length src" src] by (simp add: byte_swap_loop_def Let_def)

lemma obj_bytes_rev: "obj_bytes Big w = rev (obj_bytes Little w)"
  by (simp add: obj_bytes_def Let_def)

lemma obj_bytes_ToNetwork:
  assumes "8 dvd LENGTH('a::len)"
  shows "obj_bytes e (ToNetwork e (w :: 'a word)) = be_bytes w"
proof (cases e)
  case Little
  have "obj_bytes Little (obj_value Little (rev (obj_bytes Little w)) :: 'a word)
      = rev (obj_bytes Little w)"
    by (rule obj_bytes_obj_value [OF assms]) (simp add: sizeof_word_def)
  then show ?thesis
    using Little
    by (simp add: ToNetwork_def ByteSwap_def byte_swap_loop_rev be_bytes_def obj_bytes_def Let_def)
next
  case Big
  then show ?thesis by (simp add: ToNetwork_def be_bytes_def obj_bytes_def Let_def)
qed

lemma FromNetwork_ToNetwork:
  assumes "8 dvd LENGTH('a::len)"
  shows "FromNetwork e (ToNetwork e (w :: 'a word)) = w"
proof (cases e)
  case Little
  have "obj_bytes Little (ByteSwap Little w) = rev (obj_bytes Little w)"
    using obj_bytes_ToNetwork [OF assms, of Little w]
    by (simp add: ToNetwork_def be_bytes_def obj_bytes_def Let_def)
  then show ?thesis
    using Little obj_value_obj_bytes [OF assms, of Little w]
    by (simp add: FromNetwork_def ToNetwork_def ByteSwap_def [of _ "ByteSwap _ _"]
        byte_swap_loop_rev)
next
  case Big
  then show ?thesis by (simp add: FromNetwork_def ToNetwork_def)
qed

lemma FromNetwork_be_bytes:
  assumes "8 dvd LENGTH('a::len)"
  shows "FromNetwork e (obj_value e (be_bytes w)) = (w :: 'a word)"
proof -
  have "obj_value e (be_bytes w) = ToNetwork e w"
    using obj_value_obj_bytes [OF assms, of e "ToNetwork e w"]
    by (simp add: obj_bytes_ToNetwork [OF assms])
  then show ?thesis by (simp add: FromNetwork_ToNetwork [OF assms])
qed

end
