(* ===== verification/Byte_Queue.thy ===== *)
theory Byte_Queue
  imports Net_Prelude
begin

text \<open>
  The contract of a byte queue as its clients (the connections) use it: bytes are appended at
  the back and retrieved from the front. \<open>used\<close> bounds the storage in use, so that a client can
  tell that its appends succeed. The clients' facts about whole operation sequences are proved
  here once; \<open>Buffer\<close> provides the contract.
\<close>

datatype queue_op = Put "byte list" | Take nat

text \<open>A run of queue operations, for any implementation of the two operations.\<close>

fun run_ops :: "('q \<Rightarrow> byte list \<Rightarrow> 'q res) \<Rightarrow> ('q \<Rightarrow> nat \<Rightarrow> 'q) \<Rightarrow> queue_op list \<Rightarrow> 'q \<Rightarrow> 'q res" where
  "run_ops app ret [] q = Inr q"
| "run_ops app ret (Put bs # ops) q = rbind (app q bs) (run_ops app ret ops)"
| "run_ops app ret (Take n # ops) q = run_ops app ret ops (ret q n)"

text \<open>The same run on plain lists of bytes.\<close>

fun spec_ops :: "queue_op list \<Rightarrow> byte list \<Rightarrow> byte list" where
  "spec_ops [] xs = xs"
| "spec_ops (Put bs # ops) xs = spec_ops ops (xs @ bs)"
| "spec_ops (Take n # ops) xs = spec_ops ops (drop n xs)"

fun put_bytes :: "queue_op list \<Rightarrow> nat" where
  "put_bytes [] = 0"
| "put_bytes (Put bs # ops) = length bs + put_bytes ops"
| "put_bytes (Take n # ops) = put_bytes ops"

locale byte_queue =
  fixes inv :: "'q \<Rightarrow> bool"
    and content :: "'q \<Rightarrow> byte list"
    and used :: "'q \<Rightarrow> nat"
    and app :: "'q \<Rightarrow> byte list \<Rightarrow> 'q res"
    and ret :: "'q \<Rightarrow> nat \<Rightarrow> 'q"
    and clear :: "'q \<Rightarrow> 'q"
  assumes app_total: "inv q \<Longrightarrow> used q + length bs \<le> vec_max \<Longrightarrow> \<exists>q'. app q bs = Inr q'"
    and app_inv: "inv q \<Longrightarrow> app q bs = Inr q' \<Longrightarrow> used q + length bs \<le> vec_max \<Longrightarrow> inv q'"
    and app_content:
      "inv q \<Longrightarrow> app q bs = Inr q' \<Longrightarrow> used q + length bs \<le> vec_max \<Longrightarrow> content q' = content q @ bs"
    and app_used:
      "inv q \<Longrightarrow> app q bs = Inr q' \<Longrightarrow> used q + length bs \<le> vec_max \<Longrightarrow> used q' \<le> used q + length bs"
    and ret_inv: "inv q \<Longrightarrow> inv (ret q n)"
    and ret_content: "inv q \<Longrightarrow> content (ret q n) = drop n (content q)"
    and ret_used: "inv q \<Longrightarrow> used (ret q n) \<le> used q"
    and clear_inv: "inv q \<Longrightarrow> inv (clear q)"
    and clear_content: "inv q \<Longrightarrow> content (clear q) = []"
begin

lemma app_ok:
  assumes "inv q" and "used q + length bs \<le> vec_max"
  obtains q' where "app q bs = Inr q'" and "inv q'" and "content q' = content q @ bs"
    and "used q' \<le> used q + length bs"
  using app_total [OF assms] app_inv app_content app_used assms by blast

lemma run_ops_refines:
  assumes "inv q" and "used q + put_bytes ops \<le> vec_max"
  shows "\<exists>q'. run_ops app ret ops q = Inr q' \<and> inv q' \<and> content q' = spec_ops ops (content q)"
  using assms
proof (induction ops arbitrary: q)
  case Nil
  then show ?case by simp
next
  case (Cons x ops)
  show ?case
  proof (cases x)
    case (Put bs)
    with Cons.prems obtain q' where q': "app q bs = Inr q'" "inv q'" "content q' = content q @ bs"
      "used q' \<le> used q + length bs"
      by (auto intro: app_ok [of q bs])
    with Cons.prems Put have "used q' + put_bytes ops \<le> vec_max" by simp
    from Cons.IH [OF q'(2) this] show ?thesis using q' Put by simp
  next
    case (Take n)
    with Cons.prems ret_used [of q n] have "used (ret q n) + put_bytes ops \<le> vec_max" by simp
    from Cons.IH [OF ret_inv [OF Cons.prems(1)] this] show ?thesis
      using Take Cons.prems(1) by (simp add: ret_content)
  qed
qed

lemma app_then_ret:
  assumes "inv q" and "used q + length bs \<le> vec_max" and "content q = []"
    and "app q bs = Inr q'"
  shows "content (ret q' (length bs)) = []"
  using assms by (simp add: app_inv app_content ret_content)

end

end
