(* ===== verification/Buffer.thy ===== *)
theory Buffer
  imports Byte_Order Byte_Queue
begin

text \<open>
  The class \<open>Buffer\<close> of \<open>src/solar_net/base/buffer.h\<close> and \<open>buffer.cpp\<close>: the storage, the two
  indices and every operation, each with its raw memory accesses. A pointer into the storage
  is its offset from \<open>Begin()\<close>. An operation that could touch memory outside the storage
  returns \<open>Inl OutOfBounds\<close> where it does.
\<close>

section \<open>State and accessors\<close>

record buffer =
  m_data :: "byte list"
  m_reader_index :: size_t
  m_writer_index :: size_t

definition kInitialPrepend :: size_t where
  "kInitialPrepend = 8"

definition kInitialSize :: size_t where
  "kInitialSize = 1024"

definition kCR :: byte where
  "kCR = 13"

definition kLF :: byte where
  "kLF = 10"

definition Buffer_ctor :: "size_t \<Rightarrow> buffer res" where
  "Buffer_ctor initial_size =
     rmap (\<lambda>d. \<lparr>m_data = d, m_reader_index = kInitialPrepend, m_writer_index = kInitialPrepend\<rparr>)
       (vec_resize [] (sz_add kInitialPrepend initial_size))"

definition Buffer_default :: "buffer res" where
  "Buffer_default = Buffer_ctor kInitialSize"

definition ReadableBytes :: "buffer \<Rightarrow> size_t" where
  "ReadableBytes b = sz_sub (m_writer_index b) (m_reader_index b)"

definition WritableBytes :: "buffer \<Rightarrow> size_t" where
  "WritableBytes b = sz_sub (length (m_data b)) (m_writer_index b)"

definition PrependableBytes :: "buffer \<Rightarrow> size_t" where
  "PrependableBytes b = m_reader_index b"

definition Buffer_Capacity :: "buffer \<Rightarrow> size_t" where
  "Buffer_Capacity b = length (m_data b)"

definition ReaderBegin :: "buffer \<Rightarrow> nat" where
  "ReaderBegin b = m_reader_index b"

definition WriterBegin :: "buffer \<Rightarrow> nat" where
  "WriterBegin b = m_writer_index b"

definition Buffer_Peek :: "buffer \<Rightarrow> nat" where
  "Buffer_Peek b = ReaderBegin b"

text \<open>The bytes a view of the readable region shows.\<close>

definition ReadableSpan :: "buffer \<Rightarrow> byte list res" where
  "ReadableSpan b = mem_read (m_data b) (ReaderBegin b) (ReadableBytes b)"

definition ToStringView :: "buffer \<Rightarrow> byte list res" where
  "ToStringView b = mem_read (m_data b) (ReaderBegin b) (ReadableBytes b)"

section \<open>Making space and appending\<close>

text \<open>The readable bytes move to the standard prepend boundary.\<close>

definition shift_to_front :: "buffer \<Rightarrow> buffer res" where
  "shift_to_front b =
     (let readable = ReadableBytes b
      in rmap (\<lambda>d. b\<lparr>m_data := d, m_reader_index := kInitialPrepend,
                     m_writer_index := sz_add kInitialPrepend readable\<rparr>)
           (mem_move (m_data b) kInitialPrepend (ReaderBegin b) readable))"

definition MakeSpace :: "buffer \<Rightarrow> size_t \<Rightarrow> buffer res" where
  "MakeSpace b len =
     (if sz_add (WritableBytes b) (PrependableBytes b) < sz_add len kInitialPrepend
      then rmap (\<lambda>d. b\<lparr>m_data := d\<rparr>) (vec_resize (m_data b) (sz_add (m_writer_index b) len))
      else shift_to_front b)"

definition EnsureWritableBytes :: "buffer \<Rightarrow> size_t \<Rightarrow> buffer res" where
  "EnsureWritableBytes b len = (if WritableBytes b < len then MakeSpace b len else Inr b)"

definition Buffer_Shrink :: "buffer \<Rightarrow> size_t \<Rightarrow> buffer" where
  "Buffer_Shrink b reserve = b"

definition Buffer_Reserve :: "buffer \<Rightarrow> size_t \<Rightarrow> buffer res" where
  "Buffer_Reserve b len = EnsureWritableBytes b len"

definition Buffer_Swap :: "buffer \<Rightarrow> buffer \<Rightarrow> buffer \<times> buffer" where
  "Buffer_Swap b rhs =
     (\<lparr>m_data = m_data rhs, m_reader_index = m_reader_index rhs, m_writer_index = m_writer_index rhs\<rparr>,
      \<lparr>m_data = m_data b, m_reader_index = m_reader_index b, m_writer_index = m_writer_index b\<rparr>)"

definition Buffer_Append :: "buffer \<Rightarrow> byte list \<Rightarrow> buffer res" where
  "Buffer_Append b data =
     rbind (EnsureWritableBytes b (length data)) (\<lambda>b1.
     rmap (\<lambda>d. b1\<lparr>m_data := d, m_writer_index := sz_add (m_writer_index b1) (length data)\<rparr>)
       (mem_write (m_data b1) (WriterBegin b1) data))"

text \<open>A \<open>std::string_view\<close> is its bytes.\<close>

definition Buffer_Append_string :: "buffer \<Rightarrow> byte list \<Rightarrow> buffer res" where
  "Buffer_Append_string b data = Buffer_Append b data"

text \<open>The raw-pointer overload: \<open>len\<close> bytes of the caller's memory \<open>src\<close>.\<close>

definition Buffer_Append_raw :: "buffer \<Rightarrow> byte list \<Rightarrow> size_t \<Rightarrow> buffer res" where
  "Buffer_Append_raw b src len = rbind (mem_read src 0 len) (\<lambda>data. Buffer_Append b data)"

definition AppendInt8 :: "endian \<Rightarrow> buffer \<Rightarrow> 8 word \<Rightarrow> buffer res" where
  "AppendInt8 e b v = Buffer_Append b (obj_bytes e v)"

definition AppendInt16 :: "endian \<Rightarrow> buffer \<Rightarrow> 16 word \<Rightarrow> buffer res" where
  "AppendInt16 e b v = (let network = ToNetwork e v in Buffer_Append b (obj_bytes e network))"

definition AppendInt32 :: "endian \<Rightarrow> buffer \<Rightarrow> 32 word \<Rightarrow> buffer res" where
  "AppendInt32 e b v = (let network = ToNetwork e v in Buffer_Append b (obj_bytes e network))"

definition AppendInt64 :: "endian \<Rightarrow> buffer \<Rightarrow> 64 word \<Rightarrow> buffer res" where
  "AppendInt64 e b v = (let network = ToNetwork e v in Buffer_Append b (obj_bytes e network))"

section \<open>Retrieving\<close>

definition RetrieveAll :: "buffer \<Rightarrow> buffer" where
  "RetrieveAll b = b\<lparr>m_reader_index := kInitialPrepend, m_writer_index := kInitialPrepend\<rparr>"

definition Retrieve :: "buffer \<Rightarrow> size_t \<Rightarrow> buffer" where
  "Retrieve b len =
     (if len < ReadableBytes b
      then b\<lparr>m_reader_index := sz_add (m_reader_index b) len\<rparr>
      else RetrieveAll b)"

definition RetrieveUntil_ptr :: "buffer \<Rightarrow> nat \<Rightarrow> buffer" where
  "RetrieveUntil_ptr b end_ptr = Retrieve b (sz_sub end_ptr (ReaderBegin b))"

text \<open>\<open>std::string_view::find\<close>: the first position at which \<open>needle\<close> occurs.\<close>

fun sv_find :: "'a list \<Rightarrow> 'a list \<Rightarrow> nat option" where
  "sv_find [] needle = (if needle = [] then Some 0 else None)"
| "sv_find (x # xs) needle =
     (if take (length needle) (x # xs) = needle then Some 0
      else map_option Suc (sv_find xs needle))"

definition RetrieveUntil_delim :: "buffer \<Rightarrow> byte list \<Rightarrow> buffer res" where
  "RetrieveUntil_delim b delimiter =
     rbind (ToStringView b) (\<lambda>view.
       case sv_find view delimiter of
         None \<Rightarrow> Inr b
       | Some pos \<Rightarrow> Inr (Retrieve b (sz_add pos (length delimiter))))"

definition RetrieveAsString :: "buffer \<Rightarrow> size_t \<Rightarrow> (byte list \<times> buffer) res" where
  "RetrieveAsString b len = rbind (ToStringView b) (\<lambda>view. Inr (take len view, Retrieve b len))"

definition RetrieveAllAsString :: "buffer \<Rightarrow> (byte list \<times> buffer) res" where
  "RetrieveAllAsString b = rbind (ToStringView b) (\<lambda>view. Inr (view, RetrieveAll b))"

section \<open>Peeking and reading integers\<close>

definition PeekByte :: "buffer \<Rightarrow> byte res" where
  "PeekByte b =
     (if ReadableBytes b < 1 then Inr 0
      else rmap (\<lambda>bs. bs ! 0) (mem_read (m_data b) (ReaderBegin b) 1))"

definition PeekInt8 :: "endian \<Rightarrow> buffer \<Rightarrow> 8 word res" where
  "PeekInt8 e b =
     (if ReadableBytes b < 1 then Inr 0
      else rmap (obj_value e) (mem_read (m_data b) (ReaderBegin b) 1))"

definition PeekInt16 :: "endian \<Rightarrow> buffer \<Rightarrow> 16 word res" where
  "PeekInt16 e b =
     (if ReadableBytes b < 2 then Inr 0
      else rmap (\<lambda>bs. FromNetwork e (obj_value e bs)) (mem_read (m_data b) (ReaderBegin b) 2))"

definition PeekInt32 :: "endian \<Rightarrow> buffer \<Rightarrow> 32 word res" where
  "PeekInt32 e b =
     (if ReadableBytes b < 4 then Inr 0
      else rmap (\<lambda>bs. FromNetwork e (obj_value e bs)) (mem_read (m_data b) (ReaderBegin b) 4))"

definition PeekInt64 :: "endian \<Rightarrow> buffer \<Rightarrow> 64 word res" where
  "PeekInt64 e b =
     (if ReadableBytes b < 8 then Inr 0
      else rmap (\<lambda>bs. FromNetwork e (obj_value e bs)) (mem_read (m_data b) (ReaderBegin b) 8))"

definition ReadInt8 :: "endian \<Rightarrow> buffer \<Rightarrow> (8 word \<times> buffer) res" where
  "ReadInt8 e b = rbind (PeekInt8 e b) (\<lambda>v. Inr (v, Retrieve b 1))"

definition ReadInt16 :: "endian \<Rightarrow> buffer \<Rightarrow> (16 word \<times> buffer) res" where
  "ReadInt16 e b = rbind (PeekInt16 e b) (\<lambda>v. Inr (v, Retrieve b 2))"

definition ReadInt32 :: "endian \<Rightarrow> buffer \<Rightarrow> (32 word \<times> buffer) res" where
  "ReadInt32 e b = rbind (PeekInt32 e b) (\<lambda>v. Inr (v, Retrieve b 4))"

definition ReadInt64 :: "endian \<Rightarrow> buffer \<Rightarrow> (64 word \<times> buffer) res" where
  "ReadInt64 e b = rbind (PeekInt64 e b) (\<lambda>v. Inr (v, Retrieve b 8))"

definition ReadString :: "buffer \<Rightarrow> size_t \<Rightarrow> (byte list \<times> buffer) res" where
  "ReadString b len = RetrieveAsString b len"

section \<open>Searching line ends\<close>

text \<open>\<open>std::find\<close> on the range \<open>[start, end)\<close> of the storage; the range itself must lie in the
  storage.\<close>

definition std_find :: "byte list \<Rightarrow> nat \<Rightarrow> nat \<Rightarrow> byte \<Rightarrow> nat res" where
  "std_find d start end_ptr x =
     rmap (\<lambda>bs. start + length (takeWhile (\<lambda>y. y \<noteq> x) bs)) (mem_read d start (end_ptr - start))"

definition FindCRLF_range :: "byte list \<Rightarrow> nat \<Rightarrow> nat \<Rightarrow> nat res" where
  "FindCRLF_range d start end_ptr =
     rbind (std_find d start end_ptr kLF) (\<lambda>pos.
       if pos = end_ptr then Inr end_ptr
       else if start < pos \<and> d ! (pos - 1) = kCR then Inr (pos - 1)
       else Inr end_ptr)"

definition FindLF_range :: "byte list \<Rightarrow> nat \<Rightarrow> nat \<Rightarrow> nat res" where
  "FindLF_range d start end_ptr = std_find d start end_ptr kLF"

definition FindCRLF :: "buffer \<Rightarrow> nat res" where
  "FindCRLF b = FindCRLF_range (m_data b) (ReaderBegin b) (ReaderBegin b + ReadableBytes b)"

definition FindLF :: "buffer \<Rightarrow> nat res" where
  "FindLF b = FindLF_range (m_data b) (ReaderBegin b) (ReaderBegin b + ReadableBytes b)"

definition FindEOL :: "buffer \<Rightarrow> nat res" where
  "FindEOL b = FindLF b"

section \<open>Descriptors\<close>

text \<open>
  The system calls are parameters: \<open>readv\<close> maps the lengths of the two I/O vectors to an
  error number (\<open>Inl\<close>) or to the bytes it delivered, \<open>write\<close> maps the bytes offered to an
  error number or to the count it took.
\<close>

type_synonym errno = nat
type_synonym readv_fun = "nat list \<Rightarrow> errno + byte list"
type_synonym write_fun = "byte list \<Rightarrow> errno + nat"

definition extrabuf_size :: nat where
  "extrabuf_size = 65536"

definition ReadFd :: "readv_fun \<Rightarrow> buffer \<Rightarrow> errno \<Rightarrow> (int \<times> errno \<times> buffer) res" where
  "ReadFd readv b saved_errno =
     (let writable = WritableBytes b;
          vec = (if writable < extrabuf_size then [writable, extrabuf_size] else [writable])
      in case readv vec of
           Inl err \<Rightarrow> Inr (-1, err, b)
         | Inr bs \<Rightarrow>
             rbind (mem_write (m_data b) (WriterBegin b) (take writable bs)) (\<lambda>d.
               let n = length bs; b1 = b\<lparr>m_data := d\<rparr>; extrabuf = drop writable bs
               in if n \<le> writable
                  then Inr (int n, saved_errno,
                            b1\<lparr>m_writer_index := sz_add (m_writer_index b1) n\<rparr>)
                  else rbind (Buffer_Append_raw (b1\<lparr>m_writer_index := length (m_data b1)\<rparr>)
                                extrabuf (sz_sub n writable))
                         (\<lambda>b2. Inr (int n, saved_errno, b2))))"

definition WriteFd :: "write_fun \<Rightarrow> buffer \<Rightarrow> errno \<Rightarrow> (int \<times> errno \<times> buffer) res" where
  "WriteFd write b saved_errno =
     rbind (mem_read (m_data b) (ReaderBegin b) (ReadableBytes b)) (\<lambda>view.
       case write view of
         Inl err \<Rightarrow> Inr (-1, err, b)
       | Inr n \<Rightarrow> Inr (int n, saved_errno, Retrieve b n))"

section \<open>Prepending and printing\<close>

definition Buffer_Prepend :: "buffer \<Rightarrow> byte list \<Rightarrow> buffer res" where
  "Buffer_Prepend b data =
     rbind (if PrependableBytes b < length data then shift_to_front b else Inr b) (\<lambda>b1.
       if PrependableBytes b1 < length data then Inr b1
       else let r = sz_sub (m_reader_index b1) (length data)
            in rmap (\<lambda>d. b1\<lparr>m_data := d, m_reader_index := r\<rparr>) (mem_write (m_data b1) r data))"

definition PrependInt32 :: "endian \<Rightarrow> buffer \<Rightarrow> 32 word \<Rightarrow> buffer res" where
  "PrependInt32 e b v = (let network = ToNetwork e v in Buffer_Prepend b (obj_bytes e network))"

text \<open>\<open>std::hex\<close> output of a byte, padded to two columns with zeros.\<close>

definition hex_digit :: "nat \<Rightarrow> char" where
  "hex_digit n = ''0123456789abcdef'' ! n"

definition hex_out :: "nat \<Rightarrow> string" where
  "hex_out n = (if n < 16 then [hex_digit n] else [hex_digit (n div 16), hex_digit (n mod 16)])"

definition setw2_fill0 :: "string \<Rightarrow> string" where
  "setw2_fill0 s = replicate (2 - length s) (CHR ''0'') @ s"

definition ToHexString :: "buffer \<Rightarrow> string res" where
  "ToHexString b = rmap (\<lambda>bs. concat (map (\<lambda>x. setw2_fill0 (hex_out (unat x))) bs)) (ReadableSpan b)"

section \<open>The invariant and the abstraction\<close>

text \<open>The three regions are in order inside a storage of legal size; the writer never stands
  before the standard prepend boundary.\<close>

definition buf_wf :: "buffer \<Rightarrow> bool" where
  "buf_wf b \<longleftrightarrow> m_reader_index b \<le> m_writer_index b \<and> 8 \<le> m_writer_index b \<and>
     m_writer_index b \<le> length (m_data b) \<and> length (m_data b) \<le> vec_max"

text \<open>What the buffer means to its client: the readable bytes.\<close>

definition content :: "buffer \<Rightarrow> byte list" where
  "content b = take (m_writer_index b - m_reader_index b) (drop (m_reader_index b) (m_data b))"

lemma buf_wfD:
  assumes "buf_wf b"
  shows "m_reader_index b \<le> m_writer_index b" "8 \<le> m_writer_index b"
    "m_writer_index b \<le> length (m_data b)" "length (m_data b) \<le> vec_max"
    "length (m_data b) < 2 ^ 63"
  using assms by (simp_all add: buf_wf_def vec_max_def)

lemma ReadableBytes_wf [simp]:
  "buf_wf b \<Longrightarrow> ReadableBytes b = m_writer_index b - m_reader_index b"
  using buf_wfD [of b] by (simp add: ReadableBytes_def sz_sub_eq)

lemma WritableBytes_wf [simp]:
  "buf_wf b \<Longrightarrow> WritableBytes b = length (m_data b) - m_writer_index b"
  using buf_wfD [of b] by (simp add: WritableBytes_def sz_sub_eq)

lemma length_content [simp]:
  "buf_wf b \<Longrightarrow> length (content b) = m_writer_index b - m_reader_index b"
  using buf_wfD [of b] by (simp add: content_def)

lemma ReadableBytes_content: "buf_wf b \<Longrightarrow> ReadableBytes b = length (content b)"
  by simp

lemma ToStringView_wf [simp]: "buf_wf b \<Longrightarrow> ToStringView b = Inr (content b)"
  using buf_wfD [of b] by (simp add: ToStringView_def content_def ReaderBegin_def)

lemma ReadableSpan_wf [simp]: "buf_wf b \<Longrightarrow> ReadableSpan b = Inr (content b)"
  using buf_wfD [of b] by (simp add: ReadableSpan_def content_def ReaderBegin_def)

lemma Buffer_ctor_wf:
  assumes "n + 8 \<le> vec_max"
  obtains b where "Buffer_ctor n = Inr b" and "buf_wf b" and "content b = []"
    and "m_writer_index b = 8" and "m_reader_index b = 8" and "length (m_data b) = n + 8"
proof -
  from assms have "sz_add kInitialPrepend n = n + 8"
    by (simp add: sz_add_eq kInitialPrepend_def vec_max_def)
  then show thesis
    using assms
    by (intro that) (auto simp: Buffer_ctor_def buf_wf_def content_def kInitialPrepend_def)
qed

section \<open>Making space\<close>

lemma shift_to_front_ok:
  assumes wf: "buf_wf b" and fits: "8 + length (content b) \<le> length (m_data b)"
  shows "\<exists>d. shift_to_front b = Inr (b\<lparr>m_data := d, m_reader_index := 8,
            m_writer_index := 8 + length (content b)\<rparr>) \<and> length d = length (m_data b) \<and>
            take (length (content b)) (drop 8 d) = content b"
proof -
  note w = buf_wfD [OF wf]
  let ?n = "m_writer_index b - m_reader_index b"
  let ?d = "take 8 (m_data b) @ take ?n (drop (m_reader_index b) (m_data b)) @ drop (8 + ?n) (m_data b)"
  have "8 + ?n \<le> length (m_data b)" using wf fits by simp
  then have mv: "mem_move (m_data b) 8 (m_reader_index b) ?n = Inr ?d"
    using w by (intro mem_move_Inr) simp_all
  have "sz_add 8 ?n = 8 + ?n" using w fits by (intro sz_add_eq) simp
  then have "shift_to_front b = Inr (b\<lparr>m_data := ?d, m_reader_index := 8, m_writer_index := 8 + ?n\<rparr>)"
    using wf mv by (simp add: shift_to_front_def Let_def kInitialPrepend_def ReaderBegin_def)
  moreover have "length ?d = length (m_data b)" using w fits wf by simp
  moreover have "take ?n (drop 8 ?d) = content b"
    using w by (simp add: content_def min_def)
  ultimately show ?thesis using wf by (intro exI [of _ ?d]) simp
qed

lemma shift_to_front_overflow:
  assumes wf: "buf_wf b" and "length (m_data b) < 8 + length (content b)"
  shows "shift_to_front b = Inl OutOfBounds"
  using buf_wfD [OF wf] assms
  by (simp add: shift_to_front_def Let_def kInitialPrepend_def ReaderBegin_def mem_move_out_of_bounds)

lemma MakeSpace_ok:
  assumes wf: "buf_wf b" and len: "m_writer_index b + len \<le> vec_max"
    and short: "length (m_data b) - m_writer_index b < len"
  shows "\<exists>b'. MakeSpace b len = Inr b' \<and> buf_wf b' \<and> content b' = content b \<and>
    m_writer_index b' + len \<le> length (m_data b') \<and> m_writer_index b' \<le> m_writer_index b \<and>
    (8 \<le> m_reader_index b \<longrightarrow> 8 \<le> m_reader_index b')"
proof -
  note w = buf_wfD [OF wf]
  have l63: "m_writer_index b + len < 2 ^ 63" using len by (rule vec_max_less)
  have s1: "sz_add (WritableBytes b) (PrependableBytes b)
      = length (m_data b) - m_writer_index b + m_reader_index b"
    using wf w by (simp add: PrependableBytes_def sz_add_eq)
  have s2: "sz_add len kInitialPrepend = len + 8"
    using l63 by (simp add: kInitialPrepend_def sz_add_eq)
  have s3: "sz_add (m_writer_index b) len = m_writer_index b + len"
    using l63 by (simp add: sz_add_eq)
  show ?thesis
  proof (cases "length (m_data b) - m_writer_index b + m_reader_index b < len + 8")
    case True
    then show ?thesis
      using s1 s2 s3 len w short
      by (auto simp: MakeSpace_def buf_wf_def content_def intro!: exI)
  next
    case False
    then have "8 + length (content b) + len \<le> length (m_data b)" using wf w short by simp
    then obtain d where d: "shift_to_front b = Inr (b\<lparr>m_data := d, m_reader_index := 8,
            m_writer_index := 8 + length (content b)\<rparr>)" "length d = length (m_data b)"
      "take (length (content b)) (drop 8 d) = content b"
      using shift_to_front_ok [OF wf] by auto
    have "MakeSpace b len = shift_to_front b" using False s1 s2 by (simp add: MakeSpace_def)
    with d False w short \<open>8 + length (content b) + len \<le> length (m_data b)\<close> wf show ?thesis
      by (auto simp: buf_wf_def content_def)
  qed
qed

lemma EnsureWritableBytes_ok:
  assumes wf: "buf_wf b" and len: "m_writer_index b + len \<le> vec_max"
  shows "\<exists>b'. EnsureWritableBytes b len = Inr b' \<and> buf_wf b' \<and> content b' = content b \<and>
    m_writer_index b' + len \<le> length (m_data b') \<and> m_writer_index b' \<le> m_writer_index b \<and>
    (8 \<le> m_reader_index b \<longrightarrow> 8 \<le> m_reader_index b')"
proof (cases "WritableBytes b < len")
  case True
  then show ?thesis using MakeSpace_ok [OF wf len] wf by (simp add: EnsureWritableBytes_def)
next
  case False
  then show ?thesis using wf buf_wfD [OF wf] by (auto simp: EnsureWritableBytes_def)
qed

section \<open>Append and Retrieve implement a byte queue\<close>

lemma Buffer_Append_ok:
  assumes wf: "buf_wf b" and len: "m_writer_index b + length bs \<le> vec_max"
  shows "\<exists>b'. Buffer_Append b bs = Inr b' \<and> buf_wf b' \<and> content b' = content b @ bs \<and>
    m_writer_index b' \<le> m_writer_index b + length bs \<and>
    (8 \<le> m_reader_index b \<longrightarrow> 8 \<le> m_reader_index b')"
proof -
  obtain b1 where b1: "EnsureWritableBytes b (length bs) = Inr b1" "buf_wf b1" "content b1 = content b"
    "m_writer_index b1 + length bs \<le> length (m_data b1)" "m_writer_index b1 \<le> m_writer_index b"
    "8 \<le> m_reader_index b \<longrightarrow> 8 \<le> m_reader_index b1"
    using EnsureWritableBytes_ok [OF assms] by blast
  note w = buf_wfD [OF b1(2)]
  let ?r = "m_reader_index b1" and ?w = "m_writer_index b1" and ?D = "m_data b1"
  let ?d = "take ?w ?D @ bs @ drop (?w + length bs) ?D"
  let ?b' = "b1\<lparr>m_data := ?d, m_writer_index := ?w + length bs\<rparr>"
  have "sz_add ?w (length bs) = ?w + length bs" using b1(4) w by (intro sz_add_eq) simp
  then have "Buffer_Append b bs = Inr ?b'"
    using b1(1,4) by (simp add: Buffer_Append_def WriterBegin_def)
  moreover have "buf_wf ?b'" using b1(4) w by (simp add: buf_wf_def)
  moreover have "content ?b' = content b1 @ bs"
    using w b1(4) by (simp add: content_def take_drop_prefix drop_take)
  ultimately show ?thesis using b1 by (intro exI [of _ ?b']) simp
qed

lemma RetrieveAll_wf [wf_intros]: "buf_wf b \<Longrightarrow> buf_wf (RetrieveAll b)"
  by (simp add: RetrieveAll_def buf_wf_def kInitialPrepend_def)

lemma Retrieve_wf [wf_intros]:
  assumes "buf_wf b"
  shows "buf_wf (Retrieve b n)"
proof (cases "n < m_writer_index b - m_reader_index b")
  case True
  note w = buf_wfD [OF assms]
  from True w have "sz_add (m_reader_index b) n = m_reader_index b + n" by (simp add: sz_add_eq)
  then show ?thesis using True assms w by (simp add: Retrieve_def buf_wf_def)
next
  case False
  then show ?thesis using assms by (simp add: Retrieve_def RetrieveAll_wf)
qed

lemma content_RetrieveAll [simp]: "content (RetrieveAll b) = []"
  by (simp add: RetrieveAll_def content_def)

lemma content_Retrieve [simp]: "buf_wf b \<Longrightarrow> content (Retrieve b n) = drop n (content b)"
proof -
  assume wf: "buf_wf b"
  note w = buf_wfD [OF wf]
  show ?thesis
  proof (cases "n < m_writer_index b - m_reader_index b")
    case True
    then have "sz_add (m_reader_index b) n = m_reader_index b + n" using w by (simp add: sz_add_eq)
    then show ?thesis using True wf by (simp add: Retrieve_def content_def drop_take add.commute)
  next
    case False
    then show ?thesis using wf by (simp add: Retrieve_def)
  qed
qed

lemma m_writer_index_Retrieve: "buf_wf b \<Longrightarrow> m_writer_index (Retrieve b n) \<le> m_writer_index b"
  by (simp add: Retrieve_def RetrieveAll_def kInitialPrepend_def buf_wfD)

interpretation bufq: byte_queue buf_wf content m_writer_index Buffer_Append Retrieve RetrieveAll
proof unfold_locales
  fix q bs q' n
  show "buf_wf q \<Longrightarrow> m_writer_index q + length bs \<le> vec_max \<Longrightarrow> \<exists>q'. Buffer_Append q bs = Inr q'"
    using Buffer_Append_ok by blast
  show "buf_wf q \<Longrightarrow> Buffer_Append q bs = Inr q' \<Longrightarrow> m_writer_index q + length bs \<le> vec_max \<Longrightarrow> buf_wf q'"
    using Buffer_Append_ok [of q bs] by auto
  show "buf_wf q \<Longrightarrow> Buffer_Append q bs = Inr q' \<Longrightarrow> m_writer_index q + length bs \<le> vec_max \<Longrightarrow>
      content q' = content q @ bs"
    using Buffer_Append_ok [of q bs] by auto
  show "buf_wf q \<Longrightarrow> Buffer_Append q bs = Inr q' \<Longrightarrow> m_writer_index q + length bs \<le> vec_max \<Longrightarrow>
      m_writer_index q' \<le> m_writer_index q + length bs"
    using Buffer_Append_ok [of q bs] by auto
qed (simp_all add: wf_intros m_writer_index_Retrieve)

text \<open>
  C1. Any sequence of \<open>Append\<close> and \<open>Retrieve\<close> calls on a well-formed buffer behaves as on a plain
  list of bytes: as long as the bytes appended fit the vector's maximal size, the run ends without
  touching memory outside the storage and without an exception, keeps the invariant, and the
  readable region holds exactly the bytes appended and not yet retrieved, in order.
\<close>

theorem buffer_is_byte_queue:
  assumes "buf_wf b" and "m_writer_index b + put_bytes ops \<le> vec_max"
  shows "\<exists>b'. run_ops Buffer_Append Retrieve ops b = Inr b' \<and> buf_wf b' \<and>
    content b' = spec_ops ops (content b)"
  using assms by (rule bufq.run_ops_refines)

text \<open>The witness: an empty ten-byte buffer, two appends around a retrieve.\<close>

definition buf10 :: buffer where
  "buf10 = \<lparr>m_data = replicate 10 0, m_reader_index = 8, m_writer_index = 8\<rparr>"

lemma buf10_facts: "buf_wf buf10" "content buf10 = []" "m_writer_index buf10 = 8"
  by (simp_all add: buf10_def buf_wf_def content_def vec_max_def)

theorem buffer_is_byte_queue_witness:
  "\<exists>b'. run_ops Buffer_Append Retrieve [Put [1, 2, 3], Take 2, Put [4, 5]] buf10 = Inr b' \<and>
     buf_wf b' \<and> content b' = [3, 4, 5]"
  using buffer_is_byte_queue [of buf10 "[Put [1, 2, 3], Take 2, Put [4, 5]]"]
  by (simp add: buf10_facts vec_max_def)

section \<open>Descriptors\<close>

text \<open>What the buffer relies on from the kernel: \<open>readv\<close> delivers at most what the vectors hold,
  \<open>write\<close> takes at most what it is offered.\<close>

definition readv_contract :: "readv_fun \<Rightarrow> bool" where
  "readv_contract readv \<longleftrightarrow> (\<forall>lens bs. readv lens = Inr bs \<longrightarrow> length bs \<le> sum_list lens)"

definition write_contract :: "write_fun \<Rightarrow> bool" where
  "write_contract write \<longleftrightarrow> (\<forall>bs n. write bs = Inr n \<longrightarrow> n \<le> length bs)"

text \<open>The vectors \<open>ReadFd\<close> passes.\<close>

definition read_vec :: "buffer \<Rightarrow> nat list" where
  "read_vec b = (if WritableBytes b < extrabuf_size then [WritableBytes b, extrabuf_size]
                 else [WritableBytes b])"

lemma ReadFd_read_vec:
  "ReadFd readv b saved =
     (case readv (read_vec b) of
        Inl err \<Rightarrow> Inr (-1, err, b)
      | Inr bs \<Rightarrow>
          rbind (mem_write (m_data b) (m_writer_index b) (take (WritableBytes b) bs)) (\<lambda>d.
            if length bs \<le> WritableBytes b
            then Inr (int (length bs), saved,
                      b\<lparr>m_data := d, m_writer_index := sz_add (m_writer_index b) (length bs)\<rparr>)
            else rbind (Buffer_Append_raw (b\<lparr>m_data := d, m_writer_index := length d\<rparr>)
                          (drop (WritableBytes b) bs) (sz_sub (length bs) (WritableBytes b)))
                   (\<lambda>b2. Inr (int (length bs), saved, b2))))"
  by (simp add: ReadFd_def read_vec_def Let_def WriterBegin_def cong: if_cong sum.case_cong)

lemma ReadFd_error:
  "readv (read_vec b) = Inl err \<Longrightarrow> ReadFd readv b saved = Inr (-1, err, b)"
  by (simp add: ReadFd_read_vec)

text \<open>The direct part: bytes that fit the writable region are stored in place.\<close>

lemma store_writable:
  assumes wf: "buf_wf b" and fits: "length bs \<le> length (m_data b) - m_writer_index b"
  shows "\<exists>d. mem_write (m_data b) (m_writer_index b) bs = Inr d \<and> length d = length (m_data b) \<and>
    buf_wf (b\<lparr>m_data := d, m_writer_index := m_writer_index b + length bs\<rparr>) \<and>
    content (b\<lparr>m_data := d, m_writer_index := m_writer_index b + length bs\<rparr>) = content b @ bs"
  using buf_wfD [OF wf] fits
  by (auto simp: buf_wf_def content_def take_drop_prefix drop_take)

lemma ReadFd_fits:
  assumes wf: "buf_wf b" and rd: "readv (read_vec b) = Inr bs"
    and fits: "length bs \<le> length (m_data b) - m_writer_index b"
  shows "\<exists>b'. ReadFd readv b saved = Inr (int (length bs), saved, b') \<and> buf_wf b' \<and>
    content b' = content b @ bs"
proof -
  obtain d where d: "mem_write (m_data b) (m_writer_index b) bs = Inr d"
    "buf_wf (b\<lparr>m_data := d, m_writer_index := m_writer_index b + length bs\<rparr>)"
    "content (b\<lparr>m_data := d, m_writer_index := m_writer_index b + length bs\<rparr>) = content b @ bs"
    using store_writable [OF wf fits] by blast
  have "sz_add (m_writer_index b) (length bs) = m_writer_index b + length bs"
    using buf_wfD [OF wf] fits by (intro sz_add_eq) simp
  then show ?thesis
    using d rd fits wf by (simp add: ReadFd_read_vec)
qed

lemma ReadFd_spills:
  assumes wf: "buf_wf b" and rd: "readv (read_vec b) = Inr bs"
    and spill: "length (m_data b) - m_writer_index b < length bs"
    and room: "m_writer_index b + length bs \<le> vec_max"
  shows "\<exists>b'. ReadFd readv b saved = Inr (int (length bs), saved, b') \<and> buf_wf b' \<and>
    content b' = content b @ bs"
proof -
  note w = buf_wfD [OF wf]
  define k where "k = length (m_data b) - m_writer_index b"
  have k: "k < length bs" "m_writer_index b + k = length (m_data b)" "WritableBytes b = k"
    using spill w wf by (simp_all add: k_def)
  obtain d where d: "mem_write (m_data b) (m_writer_index b) (take k bs) = Inr d"
      "length d = length (m_data b)"
      "buf_wf (b\<lparr>m_data := d, m_writer_index := length (m_data b)\<rparr>)"
      "content (b\<lparr>m_data := d, m_writer_index := length (m_data b)\<rparr>) = content b @ take k bs"
    using store_writable [OF wf, of "take k bs"] k by (auto simp: min_def k_def)
  let ?b1 = "b\<lparr>m_data := d, m_writer_index := length d\<rparr>"
  have b1: "buf_wf ?b1" "content ?b1 = content b @ take k bs" using d by simp_all
  have "m_writer_index ?b1 + length (drop k bs) \<le> vec_max" using k room d(2) by simp
  then obtain b2 where b2: "Buffer_Append ?b1 (drop k bs) = Inr b2" "buf_wf b2"
      "content b2 = content b @ bs"
    using Buffer_Append_ok [OF b1(1), of "drop k bs"] b1(2) by auto
  have n: "sz_sub (length bs) k = length (drop k bs)"
    using k room vec_max_less [OF room] by (simp add: sz_sub_eq)
  have "ReadFd readv b saved = Inr (int (length bs), saved, b2)"
    using rd k(1,3) d(1,2) b2(1) by (simp add: ReadFd_read_vec n Buffer_Append_raw_def)
  with b2 show ?thesis by blast
qed

lemma ReadFd_room:
  assumes "buf_wf b" and "readv_contract readv" and "length (m_data b) + extrabuf_size \<le> vec_max"
    and "readv (read_vec b) = Inr bs"
  shows "m_writer_index b + length bs \<le> vec_max"
proof -
  have "length bs \<le> sum_list (read_vec b)" using assms(2,4) by (simp add: readv_contract_def)
  then have "length bs \<le> length (m_data b) - m_writer_index b + extrabuf_size"
    using assms(1) by (simp add: read_vec_def split: if_splits)
  then show ?thesis using assms(3) buf_wfD [OF assms(1)] by simp
qed

lemma ReadFd_outcome:
  assumes "buf_wf b" and "readv_contract readv" and "length (m_data b) + extrabuf_size \<le> vec_max"
  shows "case readv (read_vec b) of
      Inl err \<Rightarrow> ReadFd readv b saved = Inr (-1, err, b)
    | Inr bs \<Rightarrow> \<exists>b'. ReadFd readv b saved = Inr (int (length bs), saved, b') \<and> buf_wf b' \<and>
        content b' = content b @ bs"
proof (cases "readv (read_vec b)")
  case (Inl err)
  then show ?thesis by (simp add: ReadFd_error)
next
  case (Inr bs)
  from ReadFd_room [OF assms Inr] show ?thesis
    using ReadFd_fits [where readv = readv, OF assms(1) Inr]
      ReadFd_spills [where readv = readv, OF assms(1) Inr] Inr
    by (cases "length bs \<le> length (m_data b) - m_writer_index b") auto
qed

text \<open>
  \<open>ReadFd\<close> puts every byte the kernel delivers behind the readable bytes, in order, whether it
  fits the writable region or spills into the stack buffer, and returns the count; a failing
  \<open>readv\<close> returns -1, stores the error number and leaves the buffer as it was. No call touches
  memory outside the storage.
\<close>

theorem ReadFd_correct:
  assumes "buf_wf b" and "readv_contract readv" and "length (m_data b) + extrabuf_size \<le> vec_max"
  shows "case readv (read_vec b) of
      Inl err \<Rightarrow> ReadFd readv b saved = Inr (-1, err, b)
    | Inr bs \<Rightarrow> \<exists>b'. ReadFd readv b saved = Inr (int (length bs), saved, b') \<and> buf_wf b' \<and>
        content b' = content b @ bs"
  by (rule ReadFd_outcome [OF assms])

theorem ReadFd_correct_witness:
  "\<exists>b'. ReadFd (\<lambda>lens. Inr [1, 2, 3, 4, 5]) buf10 0 = Inr (5, 0, b') \<and> buf_wf b' \<and>
     content b' = [1, 2, 3, 4, 5]"
proof -
  let ?readv = "\<lambda>lens. if 5 \<le> sum_list lens then Inr [1, 2, 3, 4, 5] else Inl 11 :: errno + byte list"
  have c: "readv_contract ?readv" by (simp add: readv_contract_def)
  have v: "read_vec buf10 = [2, 65536]"
    by (simp add: read_vec_def buf10_def extrabuf_size_def WritableBytes_def sz_sub_def)
  have "length (m_data buf10) + extrabuf_size \<le> vec_max"
    by (simp add: buf10_def extrabuf_size_def vec_max_def)
  from ReadFd_correct [OF buf10_facts(1) c this, of 0]
  have "\<exists>b'. ReadFd ?readv buf10 0 = Inr (5, 0, b') \<and> buf_wf b' \<and> content b' = [1, 2, 3, 4, 5]"
    by (simp add: v buf10_facts)
  moreover have "ReadFd (\<lambda>lens. Inr [1, 2, 3, 4, 5]) buf10 0 = ReadFd ?readv buf10 0"
    using v by (simp add: ReadFd_read_vec)
  ultimately show ?thesis by simp
qed

text \<open>The plain way to read: into a buffer of its own, from which everything is appended.\<close>

definition read_and_append :: "readv_fun \<Rightarrow> buffer \<Rightarrow> errno \<Rightarrow> (int \<times> errno \<times> buffer) res" where
  "read_and_append readv b saved_errno =
     (case readv (read_vec b) of
        Inl err \<Rightarrow> Inr (-1, err, b)
      | Inr bs \<Rightarrow> rbind (Buffer_Append b bs) (\<lambda>b'. Inr (int (length bs), saved_errno, b')))"

lemma Append_in_place:
  assumes "buf_wf b" and "length bs \<le> WritableBytes b"
  shows "Buffer_Append b bs =
    rmap (\<lambda>d. b\<lparr>m_data := d, m_writer_index := sz_add (m_writer_index b) (length bs)\<rparr>)
      (mem_write (m_data b) (m_writer_index b) bs)"
  using assms by (simp add: Buffer_Append_def EnsureWritableBytes_def WriterBegin_def)

lemma Append_room:
  assumes "buf_wf b" and "length bs \<le> WritableBytes b"
  obtains b' where "Buffer_Append b bs = Inr b'" and "buf_wf b'" and "content b' = content b @ bs"
    and "m_reader_index b' = m_reader_index b" and "m_writer_index b' = m_writer_index b + length bs"
    and "length (m_data b') = length (m_data b)"
proof -
  have w: "m_writer_index b + length bs \<le> length (m_data b)" "length (m_data b) \<le> vec_max"
    using assms buf_wfD [OF assms(1)] by simp_all
  then obtain b' where b': "Buffer_Append b bs = Inr b'" "buf_wf b'" "content b' = content b @ bs"
    using bufq.app_ok [OF assms(1), of bs] by auto
  have "sz_add (m_writer_index b) (length bs) = m_writer_index b + length bs"
    using w by (simp add: sz_add_eq vec_max_def)
  then show ?thesis
    using that [OF b'] b'(1) w unfolding Append_in_place [OF assms] by (auto simp: rmap_eq_Inr_iff mem_write_def)
qed

text \<open>
  C13. The scatter read is an optimisation. \<open>ReadFd\<close>, which lets the kernel write into the buffer's free space and only the
  rest into a stack buffer, does what reading into a separate buffer and appending from it would
  do. As long as the bytes fit the free space it is the same buffer afterwards; when they
  spill over, the return value, the error number and the readable bytes are the same and both
  buffers are well formed.
\<close>

theorem ReadFd_equals_copying_read:
  assumes "buf_wf b" and "readv_contract readv" and "length (m_data b) + extrabuf_size \<le> vec_max"
  shows "(\<forall>bs. readv (read_vec b) = Inr bs \<longrightarrow> length bs \<le> WritableBytes b \<longrightarrow> ReadFd readv b saved = read_and_append readv b saved)
    \<and> (\<exists>n err b1 b2. ReadFd readv b saved = Inr (n, err, b1) \<and> read_and_append readv b saved = Inr (n, err, b2)
         \<and> buf_wf b1 \<and> buf_wf b2 \<and> content b1 = content b2)"
proof (intro conjI allI impI)
  fix bs assume rd: "readv (read_vec b) = Inr bs" and fits: "length bs \<le> WritableBytes b"
  then show "ReadFd readv b saved = read_and_append readv b saved"
    by (simp add: ReadFd_read_vec read_and_append_def Append_in_place [OF assms(1) fits] rmap_def rbind_def split: sum.split)
next
  show "\<exists>n err b1 b2. ReadFd readv b saved = Inr (n, err, b1) \<and> read_and_append readv b saved = Inr (n, err, b2)
         \<and> buf_wf b1 \<and> buf_wf b2 \<and> content b1 = content b2"
  proof (cases "readv (read_vec b)")
    case (Inl err)
    then show ?thesis using assms(1) by (simp add: ReadFd_error read_and_append_def)
  next
    case (Inr bs)
    obtain b2 where "Buffer_Append b bs = Inr b2" "buf_wf b2" "content b2 = content b @ bs"
      using Buffer_Append_ok [OF assms(1) ReadFd_room [OF assms Inr]] by blast
    then show ?thesis using ReadFd_outcome [OF assms, of saved] Inr by (auto simp: read_and_append_def)
  qed
qed

theorem ReadFd_equals_copying_read_witness:
  "\<exists>b1 b2. ReadFd (\<lambda>lens. if 5 \<le> sum_list lens then Inr [1, 2, 3, 4, 5] else Inl 11) buf10 0 = Inr (5, 0, b1)
     \<and> read_and_append (\<lambda>lens. if 5 \<le> sum_list lens then Inr [1, 2, 3, 4, 5] else Inl 11) buf10 0 = Inr (5, 0, b2)
     \<and> content b1 = content b2"
proof -
  let ?readv = "\<lambda>lens. if 5 \<le> sum_list lens then Inr [1, 2, 3, 4, 5] else Inl 11 :: errno + byte list"
  have c: "readv_contract ?readv" by (simp add: readv_contract_def)
  have v: "read_vec buf10 = [2, 65536]"
    by (simp add: read_vec_def buf10_def extrabuf_size_def WritableBytes_def sz_sub_def)
  have l: "length (m_data buf10) + extrabuf_size \<le> vec_max" by (simp add: buf10_def extrabuf_size_def vec_max_def)
  obtain n err b1 b2 where r: "ReadFd ?readv buf10 0 = Inr (n, err, b1)" "read_and_append ?readv buf10 0 = Inr (n, err, b2)"
    "content b1 = content b2"
    using ReadFd_equals_copying_read [OF buf10_facts(1) c l, of 0] by blast
  then have "n = 5 \<and> err = 0" by (auto simp: read_and_append_def v rbind_def split: sum.splits)
  then show ?thesis using r by auto
qed

text \<open>
  \<open>WriteFd\<close> offers exactly the readable bytes to \<open>write\<close> and removes exactly the count the kernel
  took; a failing \<open>write\<close> leaves the buffer as it was.
\<close>

theorem WriteFd_correct:
  assumes "buf_wf b"
  shows "WriteFd write b saved =
    (case write (content b) of
       Inl err \<Rightarrow> Inr (-1, err, b)
     | Inr n \<Rightarrow> Inr (int n, saved, Retrieve b n)) \<and>
    (\<forall>n. buf_wf (Retrieve b n) \<and> content (Retrieve b n) = drop n (content b))"
  using assms buf_wfD [OF assms]
  by (simp add: WriteFd_def ReaderBegin_def content_def [of b, symmetric] wf_intros)

definition buf_abc :: buffer where
  "buf_abc = \<lparr>m_data = [0, 0, 0, 0, 0, 0, 0, 0, 97, 98, 99, 0], m_reader_index = 8, m_writer_index = 11\<rparr>"

lemma buf_abc_facts: "buf_wf buf_abc" "content buf_abc = [97, 98, 99]" "m_reader_index buf_abc = 8"
  by (simp_all add: buf_abc_def buf_wf_def content_def vec_max_def)

theorem WriteFd_correct_witness:
  "\<exists>b'. WriteFd (\<lambda>bs. Inr 2) buf_abc 0 = Inr (2, 0, b') \<and> content b' = [99]"
  using WriteFd_correct [OF buf_abc_facts(1), of "\<lambda>bs. Inr 2" 0] by (simp add: buf_abc_facts)

section \<open>Integers\<close>

lemma mem_read_content:
  assumes "buf_wf b" and "n \<le> length (content b)"
  shows "mem_read (m_data b) (m_reader_index b) n = Inr (take n (content b))"
proof -
  have "n \<le> m_writer_index b - m_reader_index b" using assms by simp
  then show ?thesis using buf_wfD [OF assms(1)] by (simp add: content_def min_def)
qed

lemma AppendInt_bytes:
  "AppendInt8 e b v8 = Buffer_Append b (be_bytes v8)"
  "AppendInt16 e b v16 = Buffer_Append b (be_bytes v16)"
  "AppendInt32 e b v32 = Buffer_Append b (be_bytes v32)"
  "AppendInt64 e b v64 = Buffer_Append b (be_bytes v64)"
proof -
  have "le_bytes (sizeof_word v8) (unat v8) = rev (le_bytes (sizeof_word v8) (unat v8))"
    by simp
  then show "AppendInt8 e b v8 = Buffer_Append b (be_bytes v8)"
    by (cases e) (simp_all add: AppendInt8_def obj_bytes_def be_bytes_def Let_def)
qed (simp_all add: AppendInt16_def AppendInt32_def AppendInt64_def Let_def obj_bytes_ToNetwork)

lemma FromNetwork_byte: "obj_value e (be_bytes v) = (v :: 8 word)"
proof -
  have "be_bytes v = obj_bytes e v"
    by (cases e) (simp_all add: be_bytes_def obj_bytes_def Let_def)
  then show ?thesis by (simp add: obj_value_obj_bytes)
qed

lemma ReadInt_bytes:
  assumes "buf_wf b"
  shows "content b = be_bytes v8 @ rest \<Longrightarrow> ReadInt8 e b = Inr (v8, Retrieve b 1)"
    and "content b = be_bytes v16 @ rest \<Longrightarrow> ReadInt16 e b = Inr (v16, Retrieve b 2)"
    and "content b = be_bytes v32 @ rest \<Longrightarrow> ReadInt32 e b = Inr (v32, Retrieve b 4)"
    and "content b = be_bytes v64 @ rest \<Longrightarrow> ReadInt64 e b = Inr (v64, Retrieve b 8)"
proof -
  have len: "content b = xs @ rest \<Longrightarrow> \<not> ReadableBytes b < length xs \<and>
      mem_read (m_data b) (ReaderBegin b) (length xs) = Inr xs" for xs
    using mem_read_content [OF assms, of "length xs"] ReadableBytes_content [OF assms]
    by (simp add: ReaderBegin_def)
  show "content b = be_bytes v8 @ rest \<Longrightarrow> ReadInt8 e b = Inr (v8, Retrieve b 1)"
    using len [of "be_bytes v8"] by (simp add: ReadInt8_def PeekInt8_def FromNetwork_byte)
  show "content b = be_bytes v16 @ rest \<Longrightarrow> ReadInt16 e b = Inr (v16, Retrieve b 2)"
    using len [of "be_bytes v16"] by (simp add: ReadInt16_def PeekInt16_def FromNetwork_be_bytes)
  show "content b = be_bytes v32 @ rest \<Longrightarrow> ReadInt32 e b = Inr (v32, Retrieve b 4)"
    using len [of "be_bytes v32"] by (simp add: ReadInt32_def PeekInt32_def FromNetwork_be_bytes)
  show "content b = be_bytes v64 @ rest \<Longrightarrow> ReadInt64 e b = Inr (v64, Retrieve b 8)"
    using len [of "be_bytes v64"] by (simp add: ReadInt64_def PeekInt64_def FromNetwork_be_bytes)
qed

lemma AppendInt_ok:
  assumes "buf_wf w" and "m_writer_index w + 8 \<le> vec_max" and "length bs \<le> 8"
  obtains w' where "Buffer_Append w bs = Inr w'" and "content w' = content w @ bs"
  using Buffer_Append_ok [OF assms(1), of bs] assms(2,3) by auto

text \<open>
  C25. Integers travel between machines: a value appended by a host of either byte order is the
  next value a host of either byte order reads from the same bytes, for every width, and reading
  it consumes exactly its bytes. (The reader's buffer holds what the writer's buffer held,
  followed by anything.)
\<close>

theorem int_wire_roundtrip:
  assumes "buf_wf w" and "m_writer_index w + 8 \<le> vec_max" and "content w = []" and "buf_wf r"
  shows "(\<exists>w'. AppendInt8 e w v8 = Inr w' \<and> (content r = content w' @ rest \<longrightarrow>
      (\<exists>r'. ReadInt8 e' r = Inr (v8, r') \<and> buf_wf r' \<and> content r' = rest))) \<and>
    (\<exists>w'. AppendInt16 e w v16 = Inr w' \<and> (content r = content w' @ rest \<longrightarrow>
      (\<exists>r'. ReadInt16 e' r = Inr (v16, r') \<and> buf_wf r' \<and> content r' = rest))) \<and>
    (\<exists>w'. AppendInt32 e w v32 = Inr w' \<and> (content r = content w' @ rest \<longrightarrow>
      (\<exists>r'. ReadInt32 e' r = Inr (v32, r') \<and> buf_wf r' \<and> content r' = rest))) \<and>
    (\<exists>w'. AppendInt64 e w v64 = Inr w' \<and> (content r = content w' @ rest \<longrightarrow>
      (\<exists>r'. ReadInt64 e' r = Inr (v64, r') \<and> buf_wf r' \<and> content r' = rest)))"
proof -
  note reads = ReadInt_bytes [OF assms(4), where rest = rest and e = e']
  have ret: "content r = xs @ rest \<Longrightarrow> length xs = n \<Longrightarrow>
      buf_wf (Retrieve r n) \<and> content (Retrieve r n) = rest" for xs n
    using assms(4) by (simp add: wf_intros)
  obtain w8 where "Buffer_Append w (be_bytes v8) = Inr w8" and "content w8 = be_bytes v8"
    using AppendInt_ok [OF assms(1,2), of "be_bytes v8"] assms(3) by auto
  then have c8: "\<exists>w'. AppendInt8 e w v8 = Inr w' \<and> (content r = content w' @ rest \<longrightarrow>
      (\<exists>r'. ReadInt8 e' r = Inr (v8, r') \<and> buf_wf r' \<and> content r' = rest))"
    using reads(1) [of v8] ret [of "be_bytes v8" 1] by (simp add: AppendInt_bytes)
  obtain w16 where "Buffer_Append w (be_bytes v16) = Inr w16" and "content w16 = be_bytes v16"
    using AppendInt_ok [OF assms(1,2), of "be_bytes v16"] assms(3) by auto
  then have c16: "\<exists>w'. AppendInt16 e w v16 = Inr w' \<and> (content r = content w' @ rest \<longrightarrow>
      (\<exists>r'. ReadInt16 e' r = Inr (v16, r') \<and> buf_wf r' \<and> content r' = rest))"
    using reads(2) [of v16] ret [of "be_bytes v16" 2] by (simp add: AppendInt_bytes)
  obtain w32 where "Buffer_Append w (be_bytes v32) = Inr w32" and "content w32 = be_bytes v32"
    using AppendInt_ok [OF assms(1,2), of "be_bytes v32"] assms(3) by auto
  then have c32: "\<exists>w'. AppendInt32 e w v32 = Inr w' \<and> (content r = content w' @ rest \<longrightarrow>
      (\<exists>r'. ReadInt32 e' r = Inr (v32, r') \<and> buf_wf r' \<and> content r' = rest))"
    using reads(3) [of v32] ret [of "be_bytes v32" 4] by (simp add: AppendInt_bytes)
  obtain w64 where "Buffer_Append w (be_bytes v64) = Inr w64" and "content w64 = be_bytes v64"
    using AppendInt_ok [OF assms(1,2), of "be_bytes v64"] assms(3) by auto
  then have c64: "\<exists>w'. AppendInt64 e w v64 = Inr w' \<and> (content r = content w' @ rest \<longrightarrow>
      (\<exists>r'. ReadInt64 e' r = Inr (v64, r') \<and> buf_wf r' \<and> content r' = rest))"
    using reads(4) [of v64] ret [of "be_bytes v64" 8] by (simp add: AppendInt_bytes)
  from c8 c16 c32 c64 show ?thesis by blast
qed

theorem int_wire_roundtrip_witness:
  "\<exists>w'. AppendInt32 Little buf10 0x61626300 = Inr w' \<and> content w' = [0x61, 0x62, 0x63, 0] \<and>
     (\<exists>r'. ReadInt32 Big w' = Inr (0x61626300, r') \<and> content r' = [])"
proof -
  obtain w' where w': "AppendInt32 Little buf10 0x61626300 = Inr w'" "buf_wf w'"
      "content w' = be_bytes (0x61626300 :: 32 word)"
    using Buffer_Append_ok [OF buf10_facts(1), of "be_bytes (0x61626300 :: 32 word)"]
    by (auto simp: AppendInt_bytes buf10_facts vec_max_def)
  have "m_writer_index buf10 + 8 \<le> vec_max" by (simp add: buf10_facts vec_max_def)
  from int_wire_roundtrip [OF buf10_facts(1) this buf10_facts(2) w'(2), of Little 0 "[]" Big 0 "0x61626300" 0] w'
  have "\<exists>r'. ReadInt32 Big w' = Inr (0x61626300, r') \<and> content r' = []" by auto
  moreover have "be_bytes (0x61626300 :: 32 word) = [0x61, 0x62, 0x63, 0]"
    by (simp add: be_bytes_def le_bytes_numeral)
  ultimately show ?thesis using w' by simp
qed

text \<open>
  An integer read from a buffer that holds some but too few bytes returns 0 and discards the
  partial bytes: after such a \<open>ReadInt32\<close> (and likewise for the other widths) the buffer is empty,
  so the rest of the value, arriving later, is decoded at the wrong position.
\<close>

theorem short_int_read_discards:
  assumes "buf_wf b"
  shows "(length (content b) < 2 \<longrightarrow> (\<exists>b'. ReadInt16 e b = Inr (0, b') \<and> buf_wf b' \<and> content b' = [])) \<and>
    (length (content b) < 4 \<longrightarrow> (\<exists>b'. ReadInt32 e b = Inr (0, b') \<and> buf_wf b' \<and> content b' = [])) \<and>
    (length (content b) < 8 \<longrightarrow> (\<exists>b'. ReadInt64 e b = Inr (0, b') \<and> buf_wf b' \<and> content b' = []))"
  using assms
  by (simp add: ReadInt16_def PeekInt16_def ReadInt32_def PeekInt32_def ReadInt64_def PeekInt64_def
      wf_intros del: length_content ReadableBytes_wf add: ReadableBytes_content)

theorem short_int_read_discards_witness:
  "\<exists>b'. ReadInt32 Little buf_abc = Inr (0, b') \<and> content b' = []"
  using short_int_read_discards [OF buf_abc_facts(1), of Little] by (auto simp: buf_abc_facts(2))

section \<open>Searching\<close>

lemma std_find_content:
  assumes "buf_wf b"
  shows "std_find (m_data b) (ReaderBegin b) (ReaderBegin b + ReadableBytes b) x =
    Inr (m_reader_index b + length (takeWhile (\<lambda>y. y \<noteq> x) (content b)))"
  using mem_read_content [OF assms, of "length (content b)"] assms
  by (simp add: std_find_def ReaderBegin_def)

lemma m_data_content:
  assumes "buf_wf b" and "i < length (content b)"
  shows "m_data b ! (m_reader_index b + i) = content b ! i"
proof -
  have "i < m_writer_index b - m_reader_index b" using assms by simp
  then show ?thesis using buf_wfD [OF assms(1)] by (simp add: content_def)
qed

lemma FindCRLF_eq:
  assumes "buf_wf b"
  shows "FindCRLF b =
    (let i = length (takeWhile (\<lambda>y. y \<noteq> kLF) (content b))
     in if i < length (content b) \<and> 0 < i \<and> content b ! (i - 1) = kCR
        then Inr (m_reader_index b + (i - 1))
        else Inr (m_reader_index b + length (content b)))"
proof -
  define i where "i = length (takeWhile (\<lambda>y. y \<noteq> kLF) (content b))"
  have le: "i \<le> length (content b)" unfolding i_def by (rule length_takeWhile_le)
  have d: "0 < i \<Longrightarrow> m_data b ! (m_reader_index b + i - 1) = content b ! (i - 1)"
    using m_data_content [OF assms, of "i - 1"] le by simp
  have "FindCRLF b =
      (if m_reader_index b + i = m_reader_index b + length (content b)
       then Inr (m_reader_index b + length (content b))
       else if m_reader_index b < m_reader_index b + i \<and> m_data b ! (m_reader_index b + i - 1) = kCR
       then Inr (m_reader_index b + i - 1)
       else Inr (m_reader_index b + length (content b)))"
    unfolding FindCRLF_def FindCRLF_range_def std_find_content [OF assms] rbind_Inr
    by (simp only: ReaderBegin_def ReadableBytes_content [OF assms] i_def)
  then show ?thesis
    using le d unfolding Let_def i_def [symmetric] by (cases "0 < i") auto
qed

text \<open>
  What \<open>FindCRLF\<close> finds: it returns a position inside the readable bytes exactly when the first
  line feed of the readable bytes is preceded by a carriage return there, and then it is the
  position of that carriage return; otherwise it returns the end of the readable bytes. A CRLF
  that comes after a bare line feed is therefore not found.
\<close>

theorem FindCRLF_characterised:
  assumes "buf_wf b"
  shows "FindCRLF b =
    (let i = length (takeWhile (\<lambda>y. y \<noteq> kLF) (content b))
     in if i < length (content b) \<and> 0 < i \<and> content b ! (i - 1) = kCR
        then Inr (m_reader_index b + (i - 1))
        else Inr (m_reader_index b + length (content b)))"
  by (rule FindCRLF_eq [OF assms])

definition buf_lines :: buffer where
  "buf_lines = \<lparr>m_data = [0, 0, 0, 0, 0, 0, 0, 0, 97, 10, 98, 13, 10], m_reader_index = 8,
    m_writer_index = 13\<rparr>"

lemma buf_lines_facts: "buf_wf buf_lines" "content buf_lines = [97, 10, 98, 13, 10]"
  by (simp_all add: buf_lines_def buf_wf_def content_def vec_max_def)

text \<open>The witness is the line \<open>a\<close>, a bare line feed, then \<open>b\<close> with a CRLF: the CRLF at position 3
  is missed.\<close>

theorem FindCRLF_characterised_witness:
  "content buf_lines ! 3 = kCR \<and> content buf_lines ! 4 = kLF \<and> FindCRLF buf_lines = Inr 13"
  using FindCRLF_characterised [OF buf_lines_facts(1)]
  by (simp add: buf_lines_facts(2) kLF_def kCR_def) (simp add: buf_lines_def)

text \<open>\<open>std::string_view::find\<close> meets its documented meaning.\<close>

lemma sv_find_Some:
  "sv_find xs n = Some i \<Longrightarrow> take (length n) (drop i xs) = n \<and> i + length n \<le> length xs"
proof (induction xs arbitrary: i)
  case Nil
  then show ?case by (simp split: if_splits)
next
  case (Cons x xs)
  show ?case
  proof (cases "take (length n) (x # xs) = n")
    case True
    then have "length n \<le> length (x # xs)" by (metis length_take min.bounded_iff min.orderI order_refl)
    with True Cons.prems show ?thesis by simp
  next
    case False
    with Cons.prems obtain j where "sv_find xs n = Some j" and "i = Suc j" by auto
    with Cons.IH show ?thesis by simp
  qed
qed

lemma sv_find_first:
  "sv_find xs n = Some i \<Longrightarrow> j < i \<Longrightarrow> take (length n) (drop j xs) \<noteq> n"
proof (induction xs arbitrary: i j)
  case Nil
  then show ?case by (simp split: if_splits)
next
  case (Cons x xs)
  from Cons.prems have ne: "take (length n) (x # xs) \<noteq> n" by (auto split: if_splits)
  with Cons.prems obtain k where "sv_find xs n = Some k" "i = Suc k" by auto
  with Cons ne show ?case by (cases j) auto
qed

lemma sv_find_None:
  "sv_find xs n = None \<Longrightarrow> j \<le> length xs \<Longrightarrow> take (length n) (drop j xs) \<noteq> n"
proof (induction xs arbitrary: j)
  case Nil
  then show ?case by (auto split: if_splits)
next
  case (Cons x xs)
  then show ?case by (cases j) (auto split: if_splits)
qed

text \<open>
  \<open>RetrieveUntil\<close> with a delimiter removes the bytes up to and including the first occurrence
  of the delimiter, and nothing when there is none.
\<close>

theorem RetrieveUntil_delim_correct:
  assumes "buf_wf b"
  shows "\<exists>b'. RetrieveUntil_delim b dl = Inr b' \<and> buf_wf b' \<and>
    (case sv_find (content b) dl of
       None \<Rightarrow> b' = b \<and> (\<forall>j. j \<le> length (content b) \<longrightarrow> take (length dl) (drop j (content b)) \<noteq> dl)
     | Some i \<Rightarrow> content b = take i (content b) @ dl @ content b' \<and>
         (\<forall>j. j < i \<longrightarrow> take (length dl) (drop j (content b)) \<noteq> dl))"
proof (cases "sv_find (content b) dl")
  case None
  then show ?thesis using assms sv_find_None [OF None] by (simp add: RetrieveUntil_delim_def)
next
  case (Some i)
  note f = sv_find_Some [OF Some]
  have "i + length dl \<le> m_writer_index b - m_reader_index b" using f assms by simp
  then have "i + length dl \<le> length (m_data b)" using buf_wfD [OF assms] by linarith
  then have s: "sz_add i (length dl) = i + length dl" using buf_wfD [OF assms] by (intro sz_add_eq) simp
  have "content b = take i (content b) @ drop i (content b)" by simp
  also have "drop i (content b) = dl @ drop (i + length dl) (content b)"
    using f append_take_drop_id [of "length dl" "drop i (content b)"]
    by (simp add: add.commute del: append_take_drop_id)
  finally show ?thesis
    using assms Some s sv_find_first [OF Some] by (simp add: RetrieveUntil_delim_def wf_intros)
qed

theorem RetrieveUntil_delim_correct_witness:
  "\<exists>b'. RetrieveUntil_delim buf_lines [13, 10] = Inr b' \<and> content b' = []"
proof -
  have "sv_find [97, 10, 98, 13, 10] [13, 10 :: byte] = Some 3" by simp
  with RetrieveUntil_delim_correct [OF buf_lines_facts(1), of "[13, 10]"] show ?thesis
    by (auto simp: buf_lines_facts(2) numeral_eq_Suc)
qed

section \<open>Prepending\<close>

text \<open>Prepending into a region that is large enough.\<close>

lemma Buffer_Prepend_in_place:
  assumes wf: "buf_wf b" and "length bs \<le> m_reader_index b"
  shows "\<exists>b'. Buffer_Prepend b bs = Inr b' \<and> buf_wf b' \<and> content b' = bs @ content b"
proof -
  note w = buf_wfD [OF wf]
  let ?r = "m_reader_index b - length bs"
  have r: "sz_sub (m_reader_index b) (length bs) = ?r" using assms w by (simp add: sz_sub_eq)
  let ?d = "take ?r (m_data b) @ bs @ drop (m_reader_index b) (m_data b)"
  let ?b' = "b\<lparr>m_data := ?d, m_reader_index := ?r\<rparr>"
  have "Buffer_Prepend b bs = Inr ?b'"
    using assms w by (simp add: Buffer_Prepend_def PrependableBytes_def r Let_def)
  moreover have "buf_wf ?b'" using assms w by (simp add: buf_wf_def)
  moreover have "content ?b' = bs @ content b"
    using assms w by (simp add: content_def min_def)
  ultimately show ?thesis by blast
qed

lemma Buffer_Prepend_shifted:
  assumes "m_reader_index b < length bs" and "shift_to_front b = Inr b1" and "m_reader_index b1 = 8"
  shows "Buffer_Prepend b bs = (if 8 < length bs then Inr b1 else Buffer_Prepend b1 bs)"
  using assms by (simp add: Buffer_Prepend_def PrependableBytes_def)

text \<open>
  C26. \<open>Prepend\<close> on a well-formed buffer, every branch. The bytes are put before the readable bytes
  when they fit the prepend region, or when they have at most eight bytes and the readable bytes
  can be moved to the standard boundary. More than eight bytes that do not fit are dropped: the
  readable bytes stay the same. When the readable bytes do not fit behind the standard boundary,
  the move runs over the end of the storage.
\<close>

theorem Buffer_Prepend_cases:
  assumes wf: "buf_wf b"
  shows "if length bs \<le> m_reader_index b \<or>
           (length bs \<le> 8 \<and> 8 + length (content b) \<le> length (m_data b))
         then \<exists>b'. Buffer_Prepend b bs = Inr b' \<and> buf_wf b' \<and> content b' = bs @ content b
         else if 8 + length (content b) \<le> length (m_data b)
         then \<exists>b'. Buffer_Prepend b bs = Inr b' \<and> buf_wf b' \<and> content b' = content b
         else Buffer_Prepend b bs = Inl OutOfBounds"
proof (cases "length bs \<le> m_reader_index b")
  case True
  then show ?thesis using Buffer_Prepend_in_place [OF wf] by simp
next
  case False
  then have short: "m_reader_index b < length bs" by simp
  show ?thesis
  proof (cases "8 + length (content b) \<le> length (m_data b)")
    case True
    then obtain d where d: "shift_to_front b = Inr (b\<lparr>m_data := d, m_reader_index := 8,
            m_writer_index := 8 + length (content b)\<rparr>)" "length d = length (m_data b)"
      "take (length (content b)) (drop 8 d) = content b"
      using shift_to_front_ok [OF wf] by blast
    let ?b1 = "b\<lparr>m_data := d, m_reader_index := 8, m_writer_index := 8 + length (content b)\<rparr>"
    have "content ?b1 = take (length (content b)) (drop 8 d)" by (subst content_def) simp
    then have b1: "buf_wf ?b1" "content ?b1 = content b"
      using d(2,3) True buf_wfD [OF wf] by (simp_all add: buf_wf_def)
    have "Buffer_Prepend b bs = (if 8 < length bs then Inr ?b1 else Buffer_Prepend ?b1 bs)"
      by (rule Buffer_Prepend_shifted [OF short d(1)]) simp
    then show ?thesis
      using b1 Buffer_Prepend_in_place [OF b1(1), of bs] True False by (cases "8 < length bs") auto
  next
    case overflow: False
    then have "shift_to_front b = Inl OutOfBounds" by (intro shift_to_front_overflow [OF wf]) simp
    then show ?thesis
      using short overflow by (simp add: Buffer_Prepend_def PrependableBytes_def)
  qed
qed

theorem Buffer_Prepend_cases_witness:
  "\<exists>b'. Buffer_Prepend buf_abc [1, 2] = Inr b' \<and> content b' = [1, 2, 97, 98, 99]"
  using Buffer_Prepend_cases [OF buf_abc_facts(1), of "[1, 2]"]
  by (auto simp: buf_abc_facts)

text \<open>
  The overflow is reached by legal calls: a buffer of any size, filled to its capacity, into
  which between one and eight bytes have been prepended, writes past the end of its storage on the
  next \<open>Prepend\<close> that does not fit the bytes left in the prepend region.
\<close>

theorem Prepend_overflow_reachable:
  assumes "0 < length xs" and "length xs + 8 \<le> vec_max"
    and "1 \<le> length hs" and "length hs \<le> 8" and "8 < length hs + length ks"
  shows "rbind (Buffer_ctor (length xs)) (\<lambda>b0.
           rbind (Buffer_Append b0 xs) (\<lambda>b1.
           rbind (Buffer_Prepend b1 hs) (\<lambda>b2. Buffer_Prepend b2 ks))) = Inl OutOfBounds"
proof -
  obtain b0 where b0: "Buffer_ctor (length xs) = Inr b0" "buf_wf b0" "content b0 = []"
      "m_writer_index b0 = 8" "m_reader_index b0 = 8" "length (m_data b0) = length xs + 8"
    using Buffer_ctor_wf [OF assms(2)] by blast
  let ?d1 = "take 8 (m_data b0) @ xs"
  let ?b1 = "b0\<lparr>m_data := ?d1, m_writer_index := 8 + length xs\<rparr>"
  have s: "sz_add 8 (length xs) = 8 + length xs" using vec_max_less [OF assms(2)] by (simp add: sz_add_eq)
  have b1: "Buffer_Append b0 xs = Inr ?b1"
    using b0(2,4,6) s by (simp add: Buffer_Append_def EnsureWritableBytes_def WriterBegin_def)
  have "sz_sub 8 (length hs) = 8 - length hs" using assms(4) by (simp add: sz_sub_eq)
  then obtain b2 where b2: "Buffer_Prepend ?b1 hs = Inr b2" "m_reader_index b2 = 8 - length hs"
      "m_writer_index b2 = 8 + length xs" "length (m_data b2) = length xs + 8"
    using assms(4) b0(5,6) by (auto simp: Buffer_Prepend_def PrependableBytes_def Let_def)
  have wf2: "buf_wf b2" using assms b2 by (simp add: buf_wf_def)
  then have "length (content b2) = length xs + length hs" using b2 assms(4) by simp
  then have "\<not> 8 + length (content b2) \<le> length (m_data b2)" "\<not> length ks \<le> m_reader_index b2"
    using assms(3,4,5) b2 by linarith+
  then have "Buffer_Prepend b2 ks = Inl OutOfBounds"
    using Buffer_Prepend_cases [OF wf2, of ks] by argo
  then show ?thesis using b0(1) b1 b2(1) by simp
qed

theorem Prepend_overflow_reachable_witness:
  "rbind (Buffer_ctor 2) (\<lambda>b0. rbind (Buffer_Append b0 [1, 2]) (\<lambda>b1.
     rbind (Buffer_Prepend b1 [3, 4, 5, 6]) (\<lambda>b2. Buffer_Prepend b2 [7, 7, 7, 7, 7, 7, 7, 7])))
   = Inl OutOfBounds"
proof -
  have len: "length [1, 2 :: byte] = 2" by simp
  show ?thesis
    using Prepend_overflow_reachable [of "[1, 2]" "[3, 4, 5, 6]" "[7, 7, 7, 7, 7, 7, 7, 7]"]
    unfolding len by (simp add: vec_max_def)
qed

section \<open>Growth limits\<close>

text \<open>Requests below half the address space: the arithmetic of \<open>MakeSpace\<close> does not wrap.\<close>

lemma MakeSpace_no_wrap:
  assumes wf: "buf_wf b" and "len < 2 ^ 63"
  shows "MakeSpace b len =
    (if length (m_data b) - m_writer_index b + m_reader_index b < len + 8
     then rmap (\<lambda>d. b\<lparr>m_data := d\<rparr>) (vec_resize (m_data b) (m_writer_index b + len))
     else shift_to_front b)"
proof -
  note w = buf_wfD [OF wf]
  have "sz_add (length (m_data b) - m_writer_index b) (m_reader_index b)
      = length (m_data b) - m_writer_index b + m_reader_index b"
    using w by (simp add: sz_add_eq)
  moreover have "sz_add len 8 = len + 8" using assms(2) by (simp add: sz_add_eq)
  moreover have "sz_add (m_writer_index b) len = m_writer_index b + len"
    using assms(2) w by (simp add: sz_add_eq)
  ultimately show ?thesis
    using wf by (simp add: MakeSpace_def PrependableBytes_def kInitialPrepend_def)
qed

text \<open>
  For every request below \<open>2 ^ 63\<close> bytes, \<open>EnsureWritableBytes\<close> either leaves at least the
  requested room with the readable bytes unchanged, or raises the vector's length error; it raises
  it only when the writer position plus the request exceeds the vector's maximal size.
\<close>

theorem EnsureWritableBytes_safe:
  assumes wf: "buf_wf b" and len: "len < 2 ^ 63"
  shows "(\<exists>b'. EnsureWritableBytes b len = Inr b' \<and> buf_wf b' \<and> content b' = content b \<and>
            len \<le> WritableBytes b') \<or>
         (EnsureWritableBytes b len = Inl LengthError \<and> vec_max < m_writer_index b + len)"
proof (cases "m_writer_index b + len \<le> vec_max")
  case True
  then show ?thesis using EnsureWritableBytes_ok [OF wf] by fastforce
next
  case False
  note w = buf_wfD [OF wf]
  have short: "WritableBytes b < len" using False w wf by simp
  show ?thesis
  proof (cases "length (m_data b) - m_writer_index b + m_reader_index b < len + 8")
    case True
    then show ?thesis
      using short False by (simp add: EnsureWritableBytes_def MakeSpace_no_wrap [OF wf len] vec_resize_def)
  next
    case shift: False
    then have fits: "8 + length (content b) + len \<le> length (m_data b)" using wf w short by simp
    then obtain d where d: "shift_to_front b = Inr (b\<lparr>m_data := d, m_reader_index := 8,
            m_writer_index := 8 + length (content b)\<rparr>)" "length d = length (m_data b)"
      "take (length (content b)) (drop 8 d) = content b"
      using shift_to_front_ok [OF wf] by auto
    let ?b1 = "b\<lparr>m_data := d, m_reader_index := 8, m_writer_index := 8 + length (content b)\<rparr>"
    have wf1: "buf_wf ?b1" using fits d(2) w by (simp add: buf_wf_def del: length_content)
    have "content ?b1 = take (length (content b)) (drop 8 d)" by (subst content_def) simp
    moreover have "len \<le> WritableBytes ?b1"
      unfolding WritableBytes_wf [OF wf1] using fits d(2) by (simp del: length_content)
    moreover have "EnsureWritableBytes b len = Inr ?b1"
      using short shift d(1) by (simp only: EnsureWritableBytes_def MakeSpace_no_wrap [OF wf len] if_True if_False)
    ultimately show ?thesis using wf1 d(3) by (intro disjI1 exI [of _ ?b1]) simp
  qed
qed

theorem EnsureWritableBytes_safe_witness:
  "\<exists>b'. EnsureWritableBytes buf_abc 100 = Inr b' \<and> content b' = [97, 98, 99] \<and> 100 \<le> WritableBytes b'"
proof -
  have "\<not> vec_max < m_writer_index buf_abc + 100" by (simp add: buf_abc_def vec_max_def)
  then show ?thesis
    using EnsureWritableBytes_safe [OF buf_abc_facts(1), of 100] by (auto simp: buf_abc_facts)
qed

text \<open>
  Above that the arithmetic wraps. For a request with which the writer position plus the
  request passes \<open>2 ^ 64\<close> (but the request plus eight does not), \<open>Reserve\<close> returns normally and has
  shrunk the storage below the writer position, and the next one-byte \<open>Append\<close> writes outside the
  storage.
\<close>

theorem Reserve_wrap_corrupts:
  assumes wf: "buf_wf b" and wrap: "2 ^ 64 \<le> m_writer_index b + len" and len: "len + 8 < 2 ^ 64"
  shows "\<exists>b'. Buffer_Reserve b len = Inr b' \<and> length (m_data b') < m_writer_index b' \<and>
    Buffer_Append b' [x] = Inl OutOfBounds"
proof -
  note w = buf_wfD [OF wf]
  let ?n = "m_writer_index b + len - 2 ^ 64"
  let ?b' = "b\<lparr>m_data := take ?n (m_data b)\<rparr>"
  have big: "2 ^ 63 < len" using wrap w(3,5) by simp
  have n: "?n < m_writer_index b" "?n \<le> vec_max" "?n \<le> length (m_data b)"
    using len w(3,4) wrap by simp_all
  have a1: "sz_add (length (m_data b) - m_writer_index b) (m_reader_index b) < len + 8"
    using w(1,3,5) big by (simp add: sz_add_eq)
  have a2: "sz_add len 8 = len + 8" using len by (rule sz_add_eq)
  have "?n < 2 ^ 64" using len w(3,5) by simp
  then have "?n mod 2 ^ 64 = ?n" by (rule mod_less)
  then have a3: "sz_add (m_writer_index b) len = ?n"
    using wrap unfolding sz_add_def by (subst le_mod_geq) simp_all
  have "MakeSpace b len = Inr ?b'"
    using wf a1 a2 a3 n by (simp add: MakeSpace_def PrependableBytes_def kInitialPrepend_def)
  moreover have "WritableBytes b < len" using wf w big by simp
  ultimately have r: "Buffer_Reserve b len = Inr ?b'"
    by (simp add: Buffer_Reserve_def EnsureWritableBytes_def)
  have "WritableBytes ?b' = ?n + 2 ^ 64 - m_writer_index b"
    using n w(3,5) by (simp add: WritableBytes_def sz_sub_wrap min_absorb2)
  then have "\<not> WritableBytes ?b' < 1" using w(3,5) n(1) by simp
  then have "Buffer_Append ?b' [x] = Inl OutOfBounds"
    using n by (simp add: Buffer_Append_def EnsureWritableBytes_def mem_write_def WriterBegin_def)
  with r n show ?thesis by (intro exI [of _ ?b']) simp
qed

theorem Reserve_wrap_corrupts_witness:
  "\<exists>b'. Buffer_Reserve buf_abc (2 ^ 64 - 10) = Inr b' \<and> length (m_data b') < m_writer_index b' \<and>
     Buffer_Append b' [1] = Inl OutOfBounds"
  by (rule Reserve_wrap_corrupts [OF buf_abc_facts(1)]) (simp_all add: buf_abc_def)

section \<open>Hexadecimal output\<close>

text \<open>The inverse of the printer: two hexadecimal digits per byte.\<close>

definition hex_val :: "char \<Rightarrow> nat" where
  "hex_val c = length (takeWhile (\<lambda>d. d \<noteq> c) ''0123456789abcdef'')"

fun hex_decode :: "string \<Rightarrow> byte list" where
  "hex_decode (h # l # cs) = word_of_nat (16 * hex_val h + hex_val l) # hex_decode cs"
| "hex_decode cs = []"

lemma hex_val_digit: "n < 16 \<Longrightarrow> hex_val (hex_digit n) = n"
proof -
  assume "n < 16"
  then have "n \<in> set [0..<16]" by simp
  moreover have "\<forall>k \<in> set [0..<16]. hex_val (hex_digit k) = k" by code_simp
  ultimately show ?thesis by blast
qed

lemma hex_out_padded:
  assumes "n < 256"
  shows "setw2_fill0 (hex_out n) = [hex_digit (n div 16), hex_digit (n mod 16)]"
proof (cases "n < 16")
  case True
  then show ?thesis by (simp add: setw2_fill0_def hex_out_def hex_digit_def [of 0])
next
  case False
  then show ?thesis by (simp add: setw2_fill0_def hex_out_def)
qed

lemma hex_decode_byte:
  "hex_decode (setw2_fill0 (hex_out (unat (x :: byte))) @ cs) = x # hex_decode cs"
proof -
  have lt: "unat x < 256" using unsigned_less [of x] by simp
  then have "unat x div 16 < 16" by simp
  then show ?thesis by (simp add: hex_out_padded [OF lt] hex_val_digit)
qed

lemma length_hex: "length (setw2_fill0 (hex_out n)) = 2"
  by (simp add: setw2_fill0_def hex_out_def)

text \<open>
  \<open>ToHexString\<close> prints two hexadecimal digits for each readable byte, in order, and nothing
  else: the printed text has twice the length and decodes to the readable bytes.
\<close>

theorem ToHexString_roundtrip:
  assumes "buf_wf b"
  shows "\<exists>s. ToHexString b = Inr s \<and> length s = 2 * length (content b) \<and> hex_decode s = content b"
proof -
  have "length (concat (map (\<lambda>x. setw2_fill0 (hex_out (unat x))) bs)) = 2 * length bs \<and>
      hex_decode (concat (map (\<lambda>x. setw2_fill0 (hex_out (unat x))) bs)) = bs" for bs :: "byte list"
    by (induction bs) (simp_all add: hex_decode_byte length_hex)
  then show ?thesis using assms by (simp add: ToHexString_def)
qed

theorem ToHexString_roundtrip_witness:
  "ToHexString buf_abc = Inr ''616263'' \<and> hex_decode ''616263'' = content buf_abc"
proof -
  have "ToHexString buf_abc = Inr ''616263''"
    by (simp add: ToHexString_def buf_abc_facts setw2_fill0_def hex_out_def hex_digit_def)
  with ToHexString_roundtrip [OF buf_abc_facts(1)] show ?thesis by auto
qed

end
