(* ===== verification/Net_Time.thy ===== *)
theory Net_Time
  imports Net_Prelude
begin

text \<open>
  \<open>base/time.{h,cpp}\<close> and the part of \<open>std::chrono\<close> it stands on. A time point of
  \<open>system_clock\<close> is a signed 64-bit count of nanoseconds since the epoch; here it is an \<open>int\<close>
  and every sum or difference is checked against the range of \<open>int64_t\<close>, since the library's
  arithmetic overflows there with undefined behaviour. Reading the clock is an argument of the
  operations that do it; \<open>localtime_r\<close> and \<open>std::put_time\<close> are parameters.
\<close>

section \<open>Signed 64-bit arithmetic and chrono\<close>

definition int64_ok :: "int \<Rightarrow> bool" where
  "int64_ok x \<longleftrightarrow> - (2 ^ 63) \<le> x \<and> x < 2 ^ 63"

definition i64 :: "int \<Rightarrow> int res" where
  "i64 x = (if int64_ok x then Inr x else Inl SignedOverflow)"

text \<open>Integer division of C++ rounds towards zero.\<close>

definition trunc_div :: "int \<Rightarrow> int \<Rightarrow> int" where
  "trunc_div a b = (if 0 \<le> a then a div b else - ((- a) div b))"

definition trunc_mod :: "int \<Rightarrow> int \<Rightarrow> int" where
  "trunc_mod a b = a - trunc_div a b * b"

abbreviation ns_per_ms :: int where "ns_per_ms \<equiv> 1000000"
abbreviation ns_per_s :: int where "ns_per_s \<equiv> 1000000000"

text \<open>\<open>time_point + milliseconds\<close> and \<open>time_point - time_point\<close>.\<close>

definition time_add_ms :: "int \<Rightarrow> int \<Rightarrow> int res" where
  "time_add_ms t ms = rbind (i64 (ms * ns_per_ms)) (\<lambda>d. i64 (t + d))"

definition time_diff :: "int \<Rightarrow> int \<Rightarrow> int res" where
  "time_diff a b = i64 (a - b)"

lemma i64_Inr_iff: "i64 x = Inr y \<longleftrightarrow> int64_ok x \<and> y = x"
  by (auto simp: i64_def)

lemma i64_ok [simp]: "int64_ok x \<Longrightarrow> i64 x = Inr x"
  by (simp add: i64_def)

lemma time_add_ms_Inr_iff:
  "time_add_ms t ms = Inr u \<longleftrightarrow>
     int64_ok (ms * ns_per_ms) \<and> int64_ok (t + ms * ns_per_ms) \<and> u = t + ms * ns_per_ms"
  by (auto simp: time_add_ms_def i64_def)

lemma time_diff_Inr_iff: "time_diff a b = Inr d \<longleftrightarrow> int64_ok (a - b) \<and> d = a - b"
  by (auto simp: time_diff_def i64_def)

lemma trunc_div_nonneg [simp]: "0 \<le> a \<Longrightarrow> trunc_div a b = a div b"
  by (simp add: trunc_div_def)

lemma trunc_div_minus: "0 \<le> a \<Longrightarrow> trunc_div (- a) b = - trunc_div a b"
  by (auto simp: trunc_div_def)

lemma trunc_mod_nonneg [simp]: "0 \<le> a \<Longrightarrow> trunc_mod a b = a mod b"
  by (simp add: trunc_mod_def minus_div_mult_eq_mod)

lemma trunc_mod_minus: "0 \<le> a \<Longrightarrow> trunc_mod (- a) b = - trunc_mod a b"
  by (simp add: trunc_mod_def trunc_div_minus algebra_simps)

section \<open>Time\<close>

text \<open>The default constructor makes the smallest time point.\<close>

definition Time_default :: int where
  "Time_default = - (2 ^ 63)"

definition MillisecondsSinceEpoch :: "int \<Rightarrow> int" where
  "MillisecondsSinceEpoch t = trunc_div t ns_per_ms"

text \<open>\<open>system_clock::to_time_t\<close>: whole seconds, rounded towards zero.\<close>

definition to_time_t :: "int \<Rightarrow> int" where
  "to_time_t t = trunc_div t ns_per_s"

text \<open>\<open>ToFormattedString\<close>: an empty string when \<open>localtime_r\<close> fails.\<close>

definition ToFormattedString ::
  "(int \<Rightarrow> 'tm option) \<Rightarrow> ('tm \<Rightarrow> string \<Rightarrow> string) \<Rightarrow> int \<Rightarrow> string \<Rightarrow> string" where
  "ToFormattedString localtime_r put_time t fmt =
     (case localtime_r (to_time_t t) of
        None \<Rightarrow> ''''
      | Some tm \<Rightarrow> put_time tm fmt)"

definition ToIso8601 :: "(int \<Rightarrow> 'tm option) \<Rightarrow> ('tm \<Rightarrow> string \<Rightarrow> string) \<Rightarrow> int \<Rightarrow> string" where
  "ToIso8601 localtime_r put_time t = ToFormattedString localtime_r put_time t ''%Y-%m-%dT%H:%M:%S''"

text \<open>Decimal output of a number on a stream, and \<open>setw(3) << setfill('0')\<close>: fill characters
  are put on the left until the field has three characters, the sign included.\<close>

definition digit_char :: "nat \<Rightarrow> char" where
  "digit_char d = char_of (48 + d)"

fun nat_digits :: "nat \<Rightarrow> string" where
  "nat_digits n = (if n < 10 then [digit_char n] else nat_digits (n div 10) @ [digit_char (n mod 10)])"

declare nat_digits.simps [simp del]

definition int_digits :: "int \<Rightarrow> string" where
  "int_digits i = (if i < 0 then CHR ''-'' # nat_digits (nat (- i)) else nat_digits (nat i))"

definition setw_fill :: "nat \<Rightarrow> char \<Rightarrow> string \<Rightarrow> string" where
  "setw_fill w c s = replicate (w - length s) c @ s"

definition ToLogString :: "(int \<Rightarrow> 'tm option) \<Rightarrow> ('tm \<Rightarrow> string \<Rightarrow> string) \<Rightarrow> int \<Rightarrow> string" where
  "ToLogString localtime_r put_time t =
     (let ms = trunc_mod (trunc_div t ns_per_ms) 1000 in
      case localtime_r (to_time_t t) of
        None \<Rightarrow> ''''
      | Some tm \<Rightarrow> put_time tm ''%Y-%m-%d %H:%M:%S'' @ ''.'' @ setw_fill 3 (CHR ''0'') (int_digits ms))"

lemma digit_char_5: "digit_char 5 = CHR ''5''"
  by code_simp

text \<open>The number a string of decimal digits denotes.\<close>

definition is_digit :: "char \<Rightarrow> bool" where
  "is_digit c \<longleftrightarrow> 48 \<le> (of_char c :: nat) \<and> (of_char c :: nat) \<le> 57"

definition digit_val :: "char \<Rightarrow> nat" where
  "digit_val c = of_char c - 48"

definition digits_val :: "string \<Rightarrow> nat" where
  "digits_val s = foldl (\<lambda>a c. a * 10 + digit_val c) 0 s"

lemma is_digit_digit_char [simp]: "d < 10 \<Longrightarrow> is_digit (digit_char d)"
  by (simp add: is_digit_def digit_char_def of_char_of take_bit_eq_mod)

lemma digit_val_digit_char [simp]: "d < 10 \<Longrightarrow> digit_val (digit_char d) = d"
  by (simp add: digit_val_def digit_char_def of_char_of take_bit_eq_mod)

lemma digits_val_snoc [simp]: "digits_val (s @ [c]) = digits_val s * 10 + digit_val c"
  by (simp add: digits_val_def)

lemma digits_val_Nil [simp]: "digits_val [] = 0"
  by (simp add: digits_val_def)

lemma nat_digits_val [simp]: "digits_val (nat_digits n) = n"
proof (induction n rule: nat_digits.induct)
  case (1 n)
  show ?case
  proof (cases "n < 10")
    case True
    then show ?thesis
      using digits_val_snoc [of "[]" "digit_char n"] by (simp add: nat_digits.simps)
  next
    case False
    then show ?thesis using 1 by (simp add: nat_digits.simps [of n])
  qed
qed

lemma nat_digits_are_digits: "list_all is_digit (nat_digits n)"
proof (induction n rule: nat_digits.induct)
  case (1 n)
  then show ?case by (cases "n < 10") (simp_all add: nat_digits.simps [of n])
qed

lemma length_nat_digits_le3: "n < 1000 \<Longrightarrow> length (nat_digits n) \<le> 3 \<and> nat_digits n \<noteq> []"
  by (simp add: nat_digits.simps [of n] nat_digits.simps [of "n div 10"]
      nat_digits.simps [of "n div 10 div 10"])

lemma digits_val_zeros: "digits_val (replicate k (CHR ''0'') @ s) = digits_val s"
proof (induction s rule: rev_induct)
  case Nil
  have "digits_val (replicate k (CHR ''0'')) = 0"
  proof (induction k)
    case (Suc k)
    have "digits_val (replicate (Suc k) (CHR ''0'')) = digits_val (replicate k (CHR ''0'') @ [CHR ''0''])"
      by (simp add: replicate_append_same)
    also have "\<dots> = 0"
      by (simp only: digits_val_snoc Suc.IH) (simp add: digit_val_def)
    finally show ?case .
  qed simp
  then show ?case by simp
next
  case (snoc c s)
  then show ?case
    by (simp only: append_assoc [symmetric] digits_val_snoc)
qed

lemma setw_fill_digits:
  assumes "n < 1000"
  shows "length (setw_fill 3 (CHR ''0'') (nat_digits n)) = 3"
    and "list_all is_digit (setw_fill 3 (CHR ''0'') (nat_digits n))"
    and "digits_val (setw_fill 3 (CHR ''0'') (nat_digits n)) = n"
  using length_nat_digits_le3 [OF assms] nat_digits_are_digits [of n]
  by (simp_all add: setw_fill_def digits_val_zeros) (simp add: is_digit_def list_all_iff)

section \<open>The log time stamp\<close>

text \<open>
  For a time point at or after the epoch, the time stamp of a log line is the formatted
  second, a dot and exactly three decimal digits that denote the milliseconds within that second;
  second and milliseconds together are \<open>MillisecondsSinceEpoch\<close>. Before the epoch the millisecond
  field carries a sign and is not a number: five milliseconds before the epoch it is \<open>.0-5\<close>.
\<close>

theorem ToLogString_milliseconds:
  assumes "0 \<le> t" and "localtime_r (to_time_t t) = Some tm"
    and "localtime_r 0 = Some tm0"
  shows "(\<exists>m. ToLogString localtime_r put_time t = put_time tm ''%Y-%m-%d %H:%M:%S'' @ ''.'' @ m
            \<and> length m = 3 \<and> list_all is_digit m
            \<and> to_time_t t * 1000 + int (digits_val m) = MillisecondsSinceEpoch t)
       \<and> ToLogString localtime_r put_time (- 5 * ns_per_ms) = put_time tm0 ''%Y-%m-%d %H:%M:%S'' @ ''.0-5''"
proof
  define ms where "ms = nat (t div ns_per_ms mod 1000)"
  have "t div ns_per_ms mod 1000 < 1000" by (rule pos_mod_bound) simp
  moreover have nn: "\<not> t div ns_per_ms mod 1000 < 0" by (simp add: not_less)
  ultimately have ms: "ms < 1000" by (simp add: ms_def nat_less_iff)
  have int_ms: "int ms = t div ns_per_ms mod 1000" by (simp add: ms_def)
  have "t div ns_per_s = t div ns_per_ms div 1000" by (simp add: zdiv_zmult2_eq [symmetric])
  then have "to_time_t t * 1000 + int ms = MillisecondsSinceEpoch t"
    using assms(1) by (simp add: to_time_t_def MillisecondsSinceEpoch_def int_ms)
  moreover have "ToLogString localtime_r put_time t =
      put_time tm ''%Y-%m-%d %H:%M:%S'' @ ''.'' @ setw_fill 3 (CHR ''0'') (nat_digits ms)"
    using assms(1,2) nn by (simp add: ToLogString_def int_digits_def ms_def Let_def)
  ultimately show "\<exists>m. ToLogString localtime_r put_time t = put_time tm ''%Y-%m-%d %H:%M:%S'' @ ''.'' @ m
            \<and> length m = 3 \<and> list_all is_digit m
            \<and> to_time_t t * 1000 + int (digits_val m) = MillisecondsSinceEpoch t"
    using setw_fill_digits [OF ms] by auto
next
  show "ToLogString localtime_r put_time (- 5 * ns_per_ms) = put_time tm0 ''%Y-%m-%d %H:%M:%S'' @ ''.0-5''"
    using assms(3) by (simp add: ToLogString_def to_time_t_def trunc_div_def trunc_mod_def
        int_digits_def setw_fill_def nat_digits.simps digit_char_5)
qed

theorem ToLogString_milliseconds_witness:
  "\<exists>m. ToLogString Some (\<lambda>s f. if s = 1700000000 then ''now'' else ''then'') 1700000000042000000
          = ''now.'' @ m \<and> length m = 3 \<and> digits_val m = 42"
  using ToLogString_milliseconds [of 1700000000042000000 Some 1700000000 0
      "\<lambda>s f. if s = 1700000000 then ''now'' else ''then''"]
  by (auto simp: to_time_t_def MillisecondsSinceEpoch_def)

end
