(* ===== verification/Timer_Queue.thy ===== *)
theory Timer_Queue
  imports Net_Time "HOL-Library.Product_Lexorder"
begin

text \<open>
  \<open>net/timer_queue.{h,cpp}\<close>: one-shot and periodic timers over one Linux timerfd. The state has
  the id map, the ordered set of \<open>(expiration, id)\<close> pairs and the kernel's setting of the
  timerfd. \<open>Time::Now()\<close> is an argument of the operations that read the clock; what a user
  callback does, to its own world and to the queue, is the parameter \<open>call\<close>.
\<close>

section \<open>The ordered set of active timers\<close>

text \<open>\<open>std::set<std::pair<Time, TimerId>>\<close> as the strictly increasing list of its elements.\<close>

definition set_emplace :: "'a::linorder \<Rightarrow> 'a list \<Rightarrow> 'a list" where
  "set_emplace x xs = insort_insert x xs"

definition set_erase :: "'a \<Rightarrow> 'a list \<Rightarrow> 'a list" where
  "set_erase x xs = remove1 x xs"

abbreviation set_wf :: "'a::linorder list \<Rightarrow> bool" where
  "set_wf xs \<equiv> sorted xs \<and> distinct xs"

text \<open>
  What the timer queue relies on: an ordered set hands out its least element first, and
  inserting or erasing changes membership of one element only.
\<close>

locale ordered_set =
  fixes inv :: "'s \<Rightarrow> bool"
    and elems :: "'s \<Rightarrow> ('a::linorder) set"
    and emplace :: "'a \<Rightarrow> 's \<Rightarrow> 's"
    and erase :: "'a \<Rightarrow> 's \<Rightarrow> 's"
    and first :: "'s \<Rightarrow> 'a option"
  assumes emplace_inv: "inv s \<Longrightarrow> inv (emplace x s)"
    and emplace_elems: "inv s \<Longrightarrow> elems (emplace x s) = insert x (elems s)"
    and erase_inv: "inv s \<Longrightarrow> inv (erase x s)"
    and erase_elems: "inv s \<Longrightarrow> elems (erase x s) = elems s - {x}"
    and first_None: "inv s \<Longrightarrow> first s = None \<longleftrightarrow> elems s = {}"
    and first_Some: "inv s \<Longrightarrow> first s = Some x \<Longrightarrow> x \<in> elems s \<and> (\<forall>y \<in> elems s. x \<le> y)"
begin

lemma first_emplace_le:
  assumes "inv s"
  obtains y where "first (emplace x s) = Some y" and "y \<le> x" and "\<forall>z \<in> elems s. y \<le> z"
proof -
  have "first (emplace x s) \<noteq> None"
    using assms by (simp add: first_None emplace_inv emplace_elems)
  then obtain y where y: "first (emplace x s) = Some y" by blast
  with first_Some [OF emplace_inv [OF assms] y] show ?thesis
    using assms by (auto simp: emplace_elems intro: that)
qed

lemma emplace_erase_elems:
  "inv s \<Longrightarrow> x \<notin> elems s \<Longrightarrow> elems (erase x (emplace x s)) = elems s"
  by (simp add: erase_elems emplace_inv emplace_elems)

end

definition set_begin :: "'a list \<Rightarrow> 'a option" where
  "set_begin xs = (case xs of [] \<Rightarrow> None | x # _ \<Rightarrow> Some x)"

lemma set_wf_emplace [simp]: "set_wf xs \<Longrightarrow> set_wf (set_emplace x xs)"
  by (simp add: set_emplace_def sorted_insort_insert distinct_insort_insert)

lemma set_set_emplace [simp]: "set (set_emplace x xs) = insert x (set xs)"
  by (simp add: set_emplace_def set_insort_insert)

lemma set_wf_erase [simp]: "set_wf xs \<Longrightarrow> set_wf (set_erase x xs)"
  by (simp add: set_erase_def sorted_remove1)

lemma set_set_erase [simp]: "set_wf xs \<Longrightarrow> set (set_erase x xs) = set xs - {x}"
  by (simp add: set_erase_def)

interpretation active_set: ordered_set set_wf set set_emplace set_erase set_begin
  by unfold_locales (auto simp: set_begin_def split: list.splits)

section \<open>State\<close>

record 'cb timer_entry =
  entry_id :: int
  expiration :: int
  interval :: int
  callback :: "'cb option"

text \<open>
  \<open>timer_spec\<close> is the \<open>it_value\<close> last passed to \<open>timerfd_settime\<close>, seconds and nanoseconds;
  \<open>(0, 0)\<close> is the disarmed timer.
\<close>

record 'cb timer_queue =
  m_timer_fd :: int
  m_timers :: "int \<rightharpoonup> 'cb timer_entry"
  m_active_timers :: "(int \<times> int) list"
  m_next_id :: int
  timer_spec :: "int \<times> int"

text \<open>The members after construction, with the descriptor \<open>CreateTimerFd\<close> returned.\<close>

definition TimerQueue_init :: "int \<Rightarrow> 'cb timer_queue" where
  "TimerQueue_init fd = \<lparr>m_timer_fd = fd, m_timers = Map.empty, m_active_timers = [],
     m_next_id = 1, timer_spec = (0, 0)\<rparr>"

section \<open>Arming the timerfd\<close>

definition SetTimerFd :: "int \<Rightarrow> int \<Rightarrow> 'cb timer_queue \<Rightarrow> 'cb timer_queue res" where
  "SetTimerFd now exp q =
     (if m_timer_fd q < 0 then Inr q
      else rbind (time_diff exp now) (\<lambda>d.
        let delay = (if d < 0 then 0 else d);
            seconds = trunc_div delay ns_per_s;
            nanoseconds = delay - seconds * ns_per_s;
            spec = (if seconds = 0 \<and> nanoseconds = 0 then (0, 1) else (seconds, nanoseconds))
        in Inr (q\<lparr>timer_spec := spec\<rparr>)))"

definition ResetTimerFd :: "int \<Rightarrow> int \<Rightarrow> 'cb timer_queue \<Rightarrow> 'cb timer_queue res" where
  "ResetTimerFd now exp q = SetTimerFd now exp q"

text \<open>The closing lines of \<open>Cancel\<close> and \<open>ProcessExpiredTimers\<close>: arm for the earliest timer, or
  disarm when there is none.\<close>

definition rearm_or_disarm :: "int \<Rightarrow> 'cb timer_queue \<Rightarrow> 'cb timer_queue res" where
  "rearm_or_disarm now q =
     (case m_active_timers q of
        (t, _) # _ \<Rightarrow> ResetTimerFd now t q
      | [] \<Rightarrow> Inr (if m_timer_fd q \<ge> 0 then q\<lparr>timer_spec := (0, 0)\<rparr> else q))"

section \<open>Operations\<close>

text \<open>\<open>m_next_id++\<close> on an \<open>int64_t\<close>.\<close>

definition GenerateNextId :: "'cb timer_queue \<Rightarrow> (int \<times> 'cb timer_queue) res" where
  "GenerateNextId q =
     rbind (i64 (m_next_id q + 1)) (\<lambda>n. Inr (m_next_id q, q\<lparr>m_next_id := n\<rparr>))"

text \<open>The common tail of \<open>RunAt\<close> and \<open>RunEvery\<close>: file the entry under its id and arm the
  timerfd for the earliest expiration. \<open>now\<close> is the clock as \<open>SetTimerFd\<close> reads it.\<close>

definition file_entry ::
  "int \<Rightarrow> 'cb timer_entry \<Rightarrow> 'cb timer_queue \<Rightarrow> (int \<times> 'cb timer_queue) res" where
  "file_entry now entry q =
     (let tid = entry_id entry;
          act = set_emplace (expiration entry, tid) (m_active_timers q);
          q' = q\<lparr>m_active_timers := act, m_timers := (m_timers q)(tid \<mapsto> entry)\<rparr>
      in rmap (\<lambda>q''. (tid, q'')) (ResetTimerFd now (fst (hd act)) q'))"

definition RunAt ::
  "int \<Rightarrow> int \<Rightarrow> 'cb option \<Rightarrow> 'cb timer_queue \<Rightarrow> (int \<times> 'cb timer_queue) res" where
  "RunAt now time cb q =
     rbind (GenerateNextId q) (\<lambda>(tid, q).
       file_entry now \<lparr>entry_id = tid, expiration = time, interval = 0, callback = cb\<rparr> q)"

text \<open>\<open>now0\<close> is the clock as \<open>RunAfter\<close> (\<open>RunEvery\<close>) reads it, \<open>now\<close> as \<open>SetTimerFd\<close> does.\<close>

definition RunAfter ::
  "int \<Rightarrow> int \<Rightarrow> int \<Rightarrow> 'cb option \<Rightarrow> 'cb timer_queue \<Rightarrow> (int \<times> 'cb timer_queue) res" where
  "RunAfter now0 now delay cb q =
     rbind (time_add_ms now0 delay) (\<lambda>t. RunAt now t cb q)"

definition RunEvery ::
  "int \<Rightarrow> int \<Rightarrow> int \<Rightarrow> 'cb option \<Rightarrow> 'cb timer_queue \<Rightarrow> (int \<times> 'cb timer_queue) res" where
  "RunEvery now0 now iv cb q =
     rbind (GenerateNextId q) (\<lambda>(tid, q).
     rbind (time_add_ms now0 iv) (\<lambda>t.
       file_entry now \<lparr>entry_id = tid, expiration = t, interval = iv, callback = cb\<rparr> q))"

definition Cancel :: "int \<Rightarrow> int \<Rightarrow> 'cb timer_queue \<Rightarrow> (bool \<times> 'cb timer_queue) res" where
  "Cancel now tid q =
     (case m_timers q tid of
        None \<Rightarrow> Inr (False, q)
      | Some entry \<Rightarrow>
          rmap (\<lambda>q'. (True, q'))
            (rearm_or_disarm now
              (q\<lparr>m_active_timers := set_erase (expiration entry, tid) (m_active_timers q),
                 m_timers := (m_timers q)(tid := None)\<rparr>)))"

definition INT_MAX :: int where
  "INT_MAX = 2 ^ 31 - 1"

definition NextTimeout :: "int \<Rightarrow> 'cb timer_queue \<Rightarrow> int res" where
  "NextTimeout now q =
     (case m_active_timers q of
        [] \<Rightarrow> Inr (- 1)
      | (t, _) # _ \<Rightarrow>
          rbind (time_diff t now) (\<lambda>delay.
            if delay \<le> 0 then Inr 0
            else let delay_ms = trunc_div delay ns_per_ms
                 in Inr (if delay_ms > INT_MAX then INT_MAX else delay_ms)))"

text \<open>
  One turn of the loop of \<open>ProcessExpiredTimers\<close> for the due timer \<open>tid\<close>, already taken out of the
  active set: run the callback, then file the timer again one interval later or drop it.
  \<open>entry\<close> is a raw pointer into the map, so a callback that erases the entry leaves it
  dangling.
\<close>

definition fire_timer ::
  "('cb \<Rightarrow> 'w \<Rightarrow> 'cb timer_queue \<Rightarrow> ('w \<times> 'cb timer_queue) res) \<Rightarrow> int \<Rightarrow> 'cb timer_entry \<Rightarrow>
   'w \<Rightarrow> 'cb timer_queue \<Rightarrow> ('w \<times> 'cb timer_queue) res" where
  "fire_timer call tid entry w q =
     rbind (case callback entry of None \<Rightarrow> Inr (w, q) | Some cb \<Rightarrow> call cb w q) (\<lambda>(w, q).
       case m_timers q tid of
         None \<Rightarrow> Inl UseAfterFree
       | Some entry \<Rightarrow>
           if interval entry > 0
           then rbind (time_add_ms (expiration entry) (interval entry)) (\<lambda>t.
                  Inr (w, q\<lparr>m_timers := (m_timers q)(tid \<mapsto> entry\<lparr>expiration := t\<rparr>),
                            m_active_timers := set_emplace (t, tid) (m_active_timers q)\<rparr>))
           else Inr (w, q\<lparr>m_timers := (m_timers q)(tid := None)\<rparr>))"

text \<open>The loop. \<open>None\<close> is a loop that never ends (every callback may add a due timer).\<close>

partial_function (option) process_loop ::
  "('cb \<Rightarrow> 'w \<Rightarrow> 'cb timer_queue \<Rightarrow> ('w \<times> 'cb timer_queue) res) \<Rightarrow> int \<Rightarrow> 'w \<Rightarrow>
   'cb timer_queue \<Rightarrow> ('w \<times> 'cb timer_queue) res option" where
  "process_loop call now w q =
     (case m_active_timers q of
        [] \<Rightarrow> Some (Inr (w, q))
      | (t, tid) # rest \<Rightarrow>
          if t > now then Some (Inr (w, q))
          else (let q1 = q\<lparr>m_active_timers := rest\<rparr> in
            case m_timers q1 tid of
              None \<Rightarrow> process_loop call now w q1
            | Some entry \<Rightarrow>
                (case fire_timer call tid entry w q1 of
                   Inl e \<Rightarrow> Some (Inl e)
                 | Inr wq \<Rightarrow> process_loop call now (fst wq) (snd wq))))"

definition ProcessExpiredTimers ::
  "('cb \<Rightarrow> 'w \<Rightarrow> 'cb timer_queue \<Rightarrow> ('w \<times> 'cb timer_queue) res) \<Rightarrow> int \<Rightarrow> int \<Rightarrow> 'w \<Rightarrow>
   'cb timer_queue \<Rightarrow> ('w \<times> 'cb timer_queue) res option" where
  "ProcessExpiredTimers call now now' w q =
     map_option (\<lambda>r. rbind r (\<lambda>(w, q). rmap (\<lambda>q'. (w, q')) (rearm_or_disarm now' q)))
       (process_loop call now w q)"

text \<open>\<open>HandleRead\<close>: what \<open>read\<close> returned is only logged.\<close>

definition TimerQueue_HandleRead ::
  "('cb \<Rightarrow> 'w \<Rightarrow> 'cb timer_queue \<Rightarrow> ('w \<times> 'cb timer_queue) res) \<Rightarrow> int \<Rightarrow> int \<Rightarrow> 'w \<Rightarrow>
   'cb timer_queue \<Rightarrow> ('w \<times> 'cb timer_queue) res option" where
  "TimerQueue_HandleRead call now now' w q =
     (if m_timer_fd q < 0 then Some (Inr (w, q)) else ProcessExpiredTimers call now now' w q)"

section \<open>Invariant\<close>

text \<open>
  The map and the ordered set describe the same timers. \<open>X\<close> has the timer whose callback is
  running, which is in the map but not in the set; between operations it is empty.
\<close>

definition timers_inv :: "int set \<Rightarrow> 'cb timer_queue \<Rightarrow> bool" where
  "timers_inv X q \<longleftrightarrow>
     set_wf (m_active_timers q)
     \<and> set (m_active_timers q) = {(expiration e, tid) |tid e. m_timers q tid = Some e \<and> tid \<notin> X}
     \<and> (\<forall>tid e. m_timers q tid = Some e \<longrightarrow> entry_id e = tid \<and> 1 \<le> tid \<and> tid < m_next_id q)
     \<and> (\<forall>tid \<in> X. tid < m_next_id q) \<and> 1 \<le> m_next_id q"

text \<open>The timerfd is set as it should be for the clock reading \<open>now\<close>: disarmed when there is no
  timer, otherwise a valid \<open>timespec\<close> that denotes the time left to the earliest timer, one
  nanosecond when that is over.\<close>

definition armed_for :: "int \<Rightarrow> 'cb timer_queue \<Rightarrow> bool" where
  "armed_for now q \<longleftrightarrow>
     (m_timer_fd q \<ge> 0 \<longrightarrow>
        (case m_active_timers q of
           [] \<Rightarrow> timer_spec q = (0, 0)
         | (t, _) # _ \<Rightarrow>
             0 \<le> fst (timer_spec q) \<and> 0 \<le> snd (timer_spec q) \<and> snd (timer_spec q) < ns_per_s
             \<and> fst (timer_spec q) * ns_per_s + snd (timer_spec q) = max 1 (t - now)))"

lemma timers_inv_spec [simp]: "timers_inv X (q\<lparr>timer_spec := s\<rparr>) = timers_inv X q"
  by (simp add: timers_inv_def)

lemma timers_inv_init [simp]: "timers_inv {} (TimerQueue_init fd)"
  by (simp add: timers_inv_def TimerQueue_init_def)

lemma active_iff:
  assumes "timers_inv X q"
  shows "(t, tid) \<in> set (m_active_timers q) \<longleftrightarrow>
    (\<exists>e. m_timers q tid = Some e \<and> expiration e = t \<and> tid \<notin> X)"
  using assms by (auto simp: timers_inv_def)

text \<open>The seconds and nanoseconds \<open>SetTimerFd\<close> computes from a delay.\<close>

definition spec_of_delay :: "int \<Rightarrow> int \<times> int" where
  "spec_of_delay d = (if d div ns_per_s = 0 \<and> d mod ns_per_s = 0 then (0, 1)
     else (d div ns_per_s, d mod ns_per_s))"

lemma spec_of_delay_ok:
  assumes "0 \<le> d"
  shows "0 \<le> fst (spec_of_delay d)" "0 \<le> snd (spec_of_delay d)" "snd (spec_of_delay d) < ns_per_s"
    "fst (spec_of_delay d) * ns_per_s + snd (spec_of_delay d) = max 1 d"
proof -
  have 1: "d mod ns_per_s < ns_per_s" "0 \<le> d mod ns_per_s" by simp_all
  have 2: "0 \<le> d div ns_per_s" using assms by (simp add: pos_imp_zdiv_nonneg_iff)
  have 3: "d div ns_per_s * ns_per_s + d mod ns_per_s = d" by (rule div_mult_mod_eq)
  have 4: "d \<noteq> 0 \<Longrightarrow> max 1 d = d" using assms by simp
  show "0 \<le> fst (spec_of_delay d)" "0 \<le> snd (spec_of_delay d)" "snd (spec_of_delay d) < ns_per_s"
    using 1 2 by (simp_all add: spec_of_delay_def)
  show "fst (spec_of_delay d) * ns_per_s + snd (spec_of_delay d) = max 1 d"
  proof (cases "d = 0")
    case False
    then have "\<not> (d div ns_per_s = 0 \<and> d mod ns_per_s = 0)" using 3 by auto
    then have "spec_of_delay d = (d div ns_per_s, d mod ns_per_s)" unfolding spec_of_delay_def by (rule if_not_P)
    then show ?thesis using 3 4 [OF False] by simp
  qed (simp add: spec_of_delay_def)
qed

lemma SetTimerFd_eq:
  assumes "m_timer_fd q \<ge> 0"
  shows "SetTimerFd now exp q =
    rbind (time_diff exp now) (\<lambda>_. Inr (q\<lparr>timer_spec := spec_of_delay (max 0 (exp - now))\<rparr>))"
proof (cases "time_diff exp now")
  case (Inr d)
  then have "d = exp - now" by (simp add: time_diff_Inr_iff)
  then have "(if d < 0 then 0 else d) = max 0 (exp - now)" by simp
  moreover have "0 \<le> max 0 (exp - now)" by simp
  ultimately show ?thesis
    using assms Inr by (simp add: SetTimerFd_def Let_def spec_of_delay_def minus_div_mult_eq_mod [symmetric])
qed (use assms in \<open>simp add: SetTimerFd_def\<close>)

lemma SetTimerFd_spec:
  assumes "SetTimerFd now exp q = Inr q'"
  shows "\<exists>s. q' = q\<lparr>timer_spec := s\<rparr> \<and>
    (m_timer_fd q \<ge> 0 \<longrightarrow> 0 \<le> fst s \<and> 0 \<le> snd s \<and> snd s < ns_per_s
       \<and> fst s * ns_per_s + snd s = max 1 (exp - now))"
proof (cases "m_timer_fd q < 0")
  case True
  then show ?thesis using assms by (intro exI [of _ "timer_spec q"]) (simp add: SetTimerFd_def)
next
  case False
  then have "q' = q\<lparr>timer_spec := spec_of_delay (max 0 (exp - now))\<rparr>"
    using assms by (auto simp: SetTimerFd_eq rbind_eq_Inr_iff)
  moreover have "max 1 (max 0 (exp - now)) = max 1 (exp - now)" by simp
  ultimately show ?thesis
    using spec_of_delay_ok [of "max 0 (exp - now)"] by (metis max.cobounded1)
qed

lemma SetTimerFd_total: "int64_ok (exp - now) \<Longrightarrow> \<exists>q'. SetTimerFd now exp q = Inr q'"
  by (simp add: SetTimerFd_def time_diff_def Let_def)

lemma SetTimerFd_err: "SetTimerFd now exp q = Inl e \<Longrightarrow> e = SignedOverflow"
  by (auto simp: SetTimerFd_def time_diff_def i64_def rbind_def Let_def split: if_splits)

lemma reset_armed:
  assumes "ResetTimerFd now t q = Inr q'" and "m_active_timers q = (t, i) # r"
  obtains s where "q' = q\<lparr>timer_spec := s\<rparr>" and "armed_for now q'"
  using SetTimerFd_spec [OF assms(1) [unfolded ResetTimerFd_def]] assms(2)
  by (auto simp: armed_for_def)

lemma rearm_armed:
  assumes "rearm_or_disarm now q = Inr q'"
  obtains s where "q' = q\<lparr>timer_spec := s\<rparr>" and "armed_for now q'"
proof (cases "m_active_timers q")
  case Nil
  with assms have "q' = q\<lparr>timer_spec := if m_timer_fd q \<ge> 0 then (0, 0) else timer_spec q\<rparr>"
    by (auto simp: rearm_or_disarm_def split: if_splits)
  then show ?thesis using Nil by (intro that) (auto simp: armed_for_def)
next
  case (Cons p r)
  with assms show ?thesis
    using reset_armed [of now "fst p" q q' "snd p" r] that
    by (cases p) (auto simp: rearm_or_disarm_def)
qed

lemma rearm_total:
  assumes "\<And>t i. (t, i) \<in> set (m_active_timers q) \<Longrightarrow> int64_ok (t - now)"
  shows "\<exists>q'. rearm_or_disarm now q = Inr q'"
proof (cases "m_active_timers q")
  case (Cons p r)
  then have "int64_ok (fst p - now)" using assms [of "fst p" "snd p"] by simp
  from SetTimerFd_total [OF this, of q] show ?thesis
    using Cons by (cases p) (simp add: rearm_or_disarm_def ResetTimerFd_def)
qed (simp add: rearm_or_disarm_def)

lemma rearm_err: "rearm_or_disarm now q = Inl e \<Longrightarrow> e = SignedOverflow"
  by (auto simp: rearm_or_disarm_def ResetTimerFd_def dest: SetTimerFd_err split: list.splits)

section \<open>What the operations do\<close>

lemma file_entry_inv:
  assumes "timers_inv X q" and "entry_id entry = m_next_id q"
  shows "timers_inv X (q\<lparr>m_next_id := m_next_id q + 1,
    m_active_timers := set_emplace (expiration entry, entry_id entry) (m_active_timers q),
    m_timers := (m_timers q)(entry_id entry \<mapsto> entry)\<rparr>)"
proof -
  have old: "m_timers q tid = Some e \<Longrightarrow> tid < m_next_id q" for tid e
    using assms(1) by (simp add: timers_inv_def)
  have "m_next_id q \<notin> X" using assms(1) by (auto simp: timers_inv_def)
  then show ?thesis
    using assms by (auto simp: timers_inv_def dest: old) (metis less_irrefl)
qed

text \<open>The shape of a successful \<open>RunAt\<close> or \<open>RunEvery\<close>.\<close>

lemma file_entry_shape:
  assumes "file_entry now entry q = Inr (tid, q')" and "set_wf (m_active_timers q)"
  obtains s where "tid = entry_id entry" and "armed_for now q'"
    and "q' = q\<lparr>m_active_timers := set_emplace (expiration entry, tid) (m_active_timers q),
                m_timers := (m_timers q)(tid \<mapsto> entry), timer_spec := s\<rparr>"
proof -
  define act where "act = set_emplace (expiration entry, entry_id entry) (m_active_timers q)"
  define q1 where "q1 = q\<lparr>m_active_timers := act, m_timers := (m_timers q)(entry_id entry \<mapsto> entry)\<rparr>"
  have "act \<noteq> []" unfolding act_def
    by (metis insert_not_empty list.set(1) set_set_emplace)
  then obtain t i r where act: "act = (t, i) # r" by (cases act) auto
  have "ResetTimerFd now t q1 = Inr q'" and tid: "tid = entry_id entry"
    using assms(1) act by (auto simp: file_entry_def rmap_eq_Inr_iff Let_def act_def q1_def)
  from reset_armed [OF this(1), of i r] act
  obtain s where "q' = q1\<lparr>timer_spec := s\<rparr>" "armed_for now q'" by (auto simp: q1_def)
  then show ?thesis using tid by (intro that) (simp_all add: q1_def act_def)
qed

lemma file_entry_total:
  assumes "\<And>t i. (t, i) \<in> set (m_active_timers q) \<Longrightarrow> int64_ok (t - now)"
    and "int64_ok (expiration entry - now)"
  shows "\<exists>q'. file_entry now entry q = Inr (entry_id entry, q')"
proof -
  let ?act = "set_emplace (expiration entry, entry_id entry) (m_active_timers q)"
  have "?act \<noteq> []" by (metis insert_not_empty list.set(1) set_set_emplace)
  then have "hd ?act \<in> insert (expiration entry, entry_id entry) (set (m_active_timers q))"
    using hd_in_set by fastforce
  then have "int64_ok (fst (hd ?act) - now)"
    using assms by (cases "hd ?act") auto
  then show ?thesis
    using SetTimerFd_total unfolding file_entry_def ResetTimerFd_def Let_def rmap_eq_Inr_iff by blast
qed

lemma file_entry_err: "file_entry now entry q = Inl e \<Longrightarrow> e = SignedOverflow"
  by (cases "ResetTimerFd now (fst (hd (set_emplace (expiration entry, entry_id entry) (m_active_timers q))))
       (q\<lparr>m_active_timers := set_emplace (expiration entry, entry_id entry) (m_active_timers q),
          m_timers := (m_timers q)(entry_id entry \<mapsto> entry)\<rparr>)")
    (auto simp: file_entry_def Let_def ResetTimerFd_def dest: SetTimerFd_err)

text \<open>\<open>filed X now e q tid q'\<close>: the queue \<open>q'\<close> is \<open>q\<close> with the entry \<open>e\<close> under the fresh id \<open>tid\<close>.\<close>

definition filed ::
  "int set \<Rightarrow> int \<Rightarrow> 'cb timer_entry \<Rightarrow> 'cb timer_queue \<Rightarrow> int \<Rightarrow> 'cb timer_queue \<Rightarrow> bool" where
  "filed X now e q tid q' \<longleftrightarrow>
     tid = m_next_id q \<and> m_timers q tid = None \<and> m_timers q' = (m_timers q)(tid \<mapsto> e)
     \<and> m_next_id q' = tid + 1 \<and> m_timer_fd q' = m_timer_fd q
     \<and> m_active_timers q' = set_emplace (expiration e, tid) (m_active_timers q)
     \<and> timers_inv X q' \<and> armed_for now q'"

lemma next_id_fresh: "timers_inv X q \<Longrightarrow> m_timers q (m_next_id q) = None"
  by (cases "m_timers q (m_next_id q)") (auto simp: timers_inv_def)

lemma file_fresh:
  assumes "timers_inv X q" and "entry_id e = m_next_id q"
    and "file_entry now e (q\<lparr>m_next_id := m_next_id q + 1\<rparr>) = Inr (tid, q')"
  shows "filed X now e q tid q'"
proof -
  have "set_wf (m_active_timers (q\<lparr>m_next_id := m_next_id q + 1\<rparr>))"
    using assms(1) by (simp add: timers_inv_def)
  from file_entry_shape [OF assms(3) this] obtain s where "tid = entry_id e" "armed_for now q'"
    "q' = q\<lparr>m_next_id := m_next_id q + 1,
        m_active_timers := set_emplace (expiration e, entry_id e) (m_active_timers q),
        m_timers := (m_timers q)(entry_id e \<mapsto> e)\<rparr>\<lparr>timer_spec := s\<rparr>"
    by auto
  then show ?thesis
    using file_entry_inv [OF assms(1,2)] next_id_fresh [OF assms(1)] assms(2) by (auto simp: filed_def)
qed

lemma RunAt_filed:
  assumes "timers_inv X q" and "RunAt now t cb q = Inr (tid, q')"
  shows "filed X now \<lparr>entry_id = tid, expiration = t, interval = 0, callback = cb\<rparr> q tid q'"
proof -
  from assms(2) have "file_entry now \<lparr>entry_id = m_next_id q, expiration = t, interval = 0, callback = cb\<rparr>
      (q\<lparr>m_next_id := m_next_id q + 1\<rparr>) = Inr (tid, q')"
    by (auto simp: RunAt_def GenerateNextId_def rbind_eq_Inr_iff i64_Inr_iff)
  from file_fresh [OF assms(1) _ this] show ?thesis by (auto simp: filed_def)
qed

lemma RunAfter_filed:
  assumes "timers_inv X q" and "RunAfter now0 now d cb q = Inr (tid, q')"
  shows "filed X now \<lparr>entry_id = tid, expiration = now0 + d * ns_per_ms, interval = 0, callback = cb\<rparr> q tid q'"
  using assms RunAt_filed [OF assms(1)] by (auto simp: RunAfter_def rbind_eq_Inr_iff time_add_ms_Inr_iff)

lemma RunEvery_filed:
  assumes "timers_inv X q" and "RunEvery now0 now iv cb q = Inr (tid, q')"
  shows "filed X now \<lparr>entry_id = tid, expiration = now0 + iv * ns_per_ms, interval = iv, callback = cb\<rparr> q tid q'"
proof -
  from assms(2) have "file_entry now \<lparr>entry_id = m_next_id q, expiration = now0 + iv * ns_per_ms,
      interval = iv, callback = cb\<rparr> (q\<lparr>m_next_id := m_next_id q + 1\<rparr>) = Inr (tid, q')"
    by (auto simp: RunEvery_def GenerateNextId_def rbind_eq_Inr_iff i64_Inr_iff time_add_ms_Inr_iff)
  from file_fresh [OF assms(1) _ this] show ?thesis by (auto simp: filed_def)
qed

lemma RunAfter_ok:
  assumes "timers_inv X q" and "int64_ok (d * ns_per_ms)" and "int64_ok (now0 + d * ns_per_ms)" and "int64_ok (m_next_id q + 1)"
    and "\<forall>x \<in> set (m_active_timers q). int64_ok (fst x - now)" and "int64_ok (now0 + d * ns_per_ms - now)"
  shows "\<exists>q'. RunAfter now0 now d cb q = Inr (m_next_id q, q') \<and>
    filed X now \<lparr>entry_id = m_next_id q, expiration = now0 + d * ns_per_ms, interval = 0, callback = cb\<rparr> q (m_next_id q) q'"
proof -
  let ?e = "\<lparr>entry_id = m_next_id q, expiration = now0 + d * ns_per_ms, interval = 0, callback = cb\<rparr>"
  have "\<exists>q'. file_entry now ?e (q\<lparr>m_next_id := m_next_id q + 1\<rparr>) = Inr (entry_id ?e, q')"
    by (rule file_entry_total) (use assms(5,6) in \<open>auto dest: bspec\<close>)
  then have "\<exists>q'. RunAfter now0 now d cb q = Inr (m_next_id q, q')"
    using assms(2-4) by (simp add: RunAfter_def RunAt_def GenerateNextId_def time_add_ms_def)
  then show ?thesis using RunAfter_filed [OF assms(1)] by blast
qed

lemma RunEvery_ok:
  assumes "timers_inv X q" and "int64_ok (d * ns_per_ms)" and "int64_ok (now0 + d * ns_per_ms)" and "int64_ok (m_next_id q + 1)"
    and "\<forall>x \<in> set (m_active_timers q). int64_ok (fst x - now)" and "int64_ok (now0 + d * ns_per_ms - now)"
  shows "\<exists>q'. RunEvery now0 now d cb q = Inr (m_next_id q, q') \<and>
    filed X now \<lparr>entry_id = m_next_id q, expiration = now0 + d * ns_per_ms, interval = d, callback = cb\<rparr> q (m_next_id q) q'"
proof -
  let ?e = "\<lparr>entry_id = m_next_id q, expiration = now0 + d * ns_per_ms, interval = d, callback = cb\<rparr>"
  have "\<exists>q'. file_entry now ?e (q\<lparr>m_next_id := m_next_id q + 1\<rparr>) = Inr (entry_id ?e, q')"
    by (rule file_entry_total) (use assms(5,6) in \<open>auto dest: bspec\<close>)
  then have "\<exists>q'. RunEvery now0 now d cb q = Inr (m_next_id q, q')"
    using assms(2-4) by (simp add: RunEvery_def GenerateNextId_def time_add_ms_def)
  then show ?thesis using RunEvery_filed [OF assms(1)] by blast
qed

lemmas started_filed = RunAt_filed RunAfter_filed RunEvery_filed

lemma Cancel_unknown [simp]: "m_timers q tid = None \<Longrightarrow> Cancel now tid q = Inr (False, q)"
  by (simp add: Cancel_def)

lemma Cancel_inv:
  assumes "timers_inv X q"
  shows "timers_inv X (q\<lparr>m_active_timers :=
      (case m_timers q tid of None \<Rightarrow> m_active_timers q
       | Some e \<Rightarrow> set_erase (expiration e, tid) (m_active_timers q)),
    m_timers := (m_timers q)(tid := None)\<rparr>)"
proof (cases "m_timers q tid")
  case None
  then have "q\<lparr>m_active_timers := m_active_timers q, m_timers := (m_timers q)(tid := None)\<rparr> = q"
    by (simp add: fun_upd_idem)
  then show ?thesis using assms None by simp
next
  case (Some e)
  have wf: "set_wf (m_active_timers q)" using assms by (simp add: timers_inv_def)
  show ?thesis
    using assms Some set_wf_erase [OF wf] set_set_erase [OF wf] by (auto simp: timers_inv_def) (metis option.inject)
qed

lemma Cancel_known:
  assumes "timers_inv X q" and "m_timers q tid = Some e" and "Cancel now tid q = Inr (b, q')"
  shows "b \<and> m_timers q' = (m_timers q)(tid := None) \<and> m_next_id q' = m_next_id q
    \<and> m_active_timers q' = set_erase (expiration e, tid) (m_active_timers q)
    \<and> m_timer_fd q' = m_timer_fd q \<and> timers_inv X q' \<and> armed_for now q'"
proof -
  let ?q1 = "q\<lparr>m_active_timers := set_erase (expiration e, tid) (m_active_timers q),
               m_timers := (m_timers q)(tid := None)\<rparr>"
  from assms(2,3) have b: b and "rearm_or_disarm now ?q1 = Inr q'"
    by (auto simp: Cancel_def rmap_eq_Inr_iff)
  from rearm_armed [OF this(2)] obtain s where "q' = ?q1\<lparr>timer_spec := s\<rparr>" "armed_for now q'" by blast
  then show ?thesis using b Cancel_inv [OF assms(1), of tid] assms(2) by simp
qed

lemma GenerateNextId_err: "GenerateNextId q = Inl e \<Longrightarrow> e = SignedOverflow"
  by (auto simp: GenerateNextId_def i64_def split: if_splits)

lemma time_add_ms_err: "time_add_ms t d = Inl e \<Longrightarrow> e = SignedOverflow"
  by (auto simp: time_add_ms_def i64_def split: if_splits)

lemma rbind_err_only:
  assumes "rbind r f = Inl e" and "\<And>e. r = Inl e \<Longrightarrow> P e" and "\<And>a e. f a = Inl e \<Longrightarrow> P e"
  shows "P e"
  using assms by (cases r) auto

lemma timer_op_err:
  "RunAt now t cb q = Inl e \<Longrightarrow> e = SignedOverflow"
  "RunAfter now0 now d cb q = Inl e \<Longrightarrow> e = SignedOverflow"
  "RunEvery now0 now d cb q = Inl e \<Longrightarrow> e = SignedOverflow"
  "Cancel now tid q = Inl e \<Longrightarrow> e = SignedOverflow"
proof -
  show at: "e = SignedOverflow" if "RunAt now t cb q = Inl e" for t e
    using that unfolding RunAt_def
    by (rule rbind_err_only) (auto dest: GenerateNextId_err file_entry_err)
  show "RunAfter now0 now d cb q = Inl e \<Longrightarrow> e = SignedOverflow"
    unfolding RunAfter_def by (erule rbind_err_only) (auto dest: time_add_ms_err at)
  show "RunEvery now0 now d cb q = Inl e \<Longrightarrow> e = SignedOverflow"
    unfolding RunEvery_def
    by (erule rbind_err_only)
      (auto dest: GenerateNextId_err time_add_ms_err file_entry_err elim!: rbind_err_only)
  show "Cancel now tid q = Inl e \<Longrightarrow> e = SignedOverflow"
    by (auto simp: Cancel_def rmap_def dest: rearm_err elim!: rbind_err_only split: option.splits)
qed

section \<open>Sequences of operations\<close>

datatype 'cb timer_op =
    OpRunAt int int "'cb option"
  | OpRunAfter int int int "'cb option"
  | OpRunEvery int int int "'cb option"
  | OpCancel int int

fun do_timer_op :: "'cb timer_op \<Rightarrow> 'cb timer_queue \<Rightarrow> (int \<times> 'cb timer_queue) res" where
  "do_timer_op (OpRunAt now t cb) q = RunAt now t cb q"
| "do_timer_op (OpRunAfter now0 now d cb) q = RunAfter now0 now d cb q"
| "do_timer_op (OpRunEvery now0 now iv cb) q = RunEvery now0 now iv cb q"
| "do_timer_op (OpCancel now tid) q = rmap (\<lambda>(b, q'). (if b then tid else 0, q')) (Cancel now tid q)"

fun run_timer_ops :: "'cb timer_op list \<Rightarrow> 'cb timer_queue \<Rightarrow> 'cb timer_queue res" where
  "run_timer_ops [] q = Inr q"
| "run_timer_ops (oper # ops) q = rbind (do_timer_op oper q) (\<lambda>(_, q'). run_timer_ops ops q')"

lemma timer_op_keeps:
  assumes "timers_inv X q" and "\<exists>now. armed_for now q" and "do_timer_op oper q = Inr (i, q')"
  shows "timers_inv X q' \<and> (\<exists>now. armed_for now q')"
proof (cases oper)
  case (OpCancel now tid)
  with assms(3) obtain b where b: "Cancel now tid q = Inr (b, q')" by (auto simp: rmap_eq_Inr_iff)
  show ?thesis
  proof (cases "m_timers q tid")
    case None
    then show ?thesis using b assms by auto
  next
    case (Some e)
    from Cancel_known [OF assms(1) this b] show ?thesis by blast
  qed
qed (use assms in \<open>auto dest!: started_filed [OF assms(1)] simp: filed_def\<close>)

lemma timer_op_only_overflows: "do_timer_op oper q = Inl e \<Longrightarrow> e = SignedOverflow"
  by (cases oper) (auto dest: timer_op_err simp: rmap_def elim!: rbind_err_only)

lemma run_timer_ops_keeps:
  assumes "timers_inv X q" and "\<exists>now. armed_for now q"
  shows "case run_timer_ops ops q of Inl e \<Rightarrow> e = SignedOverflow
    | Inr q' \<Rightarrow> timers_inv X q' \<and> (\<exists>now. armed_for now q')"
  using assms
proof (induction ops arbitrary: q)
  case (Cons oper ops)
  show ?case
  proof (cases "do_timer_op oper q")
    case (Inl e)
    then show ?thesis using timer_op_only_overflows by fastforce
  next
    case (Inr iq)
    then show ?thesis
      using Cons.IH timer_op_keeps [OF Cons.prems, of oper "fst iq" "snd iq"]
      by (cases iq) (simp add: case_prod_beta)
  qed
qed simp

section \<open>Processing expired timers\<close>

text \<open>How often a timer is due up to \<open>now\<close>, and how often all of them are: the number of turns
  the loop still has to take.\<close>

definition occ :: "int \<Rightarrow> int \<Rightarrow> int \<Rightarrow> nat" where
  "occ now t iv = (if t > now then 0 else if iv \<le> 0 then 1
     else Suc (nat ((now - t) div (iv * ns_per_ms))))"

definition due_work :: "int \<Rightarrow> 'cb timer_queue \<Rightarrow> nat" where
  "due_work now q = (\<Sum>p \<in> set (m_active_timers q).
     case m_timers q (snd p) of None \<Rightarrow> 0 | Some e \<Rightarrow> occ now (fst p) (interval e))"

text \<open>No expiration computed up to \<open>now\<close> leaves the range of \<open>int64_t\<close>.\<close>

definition times_ok :: "int \<Rightarrow> 'cb timer_queue \<Rightarrow> bool" where
  "times_ok now q \<longleftrightarrow> 0 \<le> now \<and>
     (\<forall>tid e. m_timers q tid = Some e \<longrightarrow>
        int64_ok (expiration e) \<and> now + interval e * ns_per_ms < 2 ^ 63)"

lemma occ_later [simp]: "now < t \<Longrightarrow> occ now t iv = 0"
  by (simp add: occ_def)

lemma occ_once [simp]: "t \<le> now \<Longrightarrow> iv \<le> 0 \<Longrightarrow> occ now t iv = 1"
  by (simp add: occ_def)

lemma occ_step:
  assumes "0 < iv" and "t \<le> now"
  shows "occ now t iv = Suc (occ now (t + iv * ns_per_ms) iv)"
proof (cases "t + iv * ns_per_ms > now")
  case True
  then have "(now - t) div (iv * ns_per_ms) = 0"
    using assms by (intro div_pos_pos_trivial) auto
  then show ?thesis using True assms by (simp add: occ_def)
next
  case False
  let ?d = "iv * ns_per_ms"
  have "(now - t) div ?d = (now - (t + ?d)) div ?d + 1"
    using assms(1) div_add_self1 [of ?d "now - (t + ?d)"] by (simp add: algebra_simps)
  moreover have "0 \<le> (now - (t + ?d)) div ?d"
    using False assms(1) by (simp add: pos_imp_zdiv_nonneg_iff)
  ultimately show ?thesis using False assms by (simp add: occ_def nat_add_distrib)
qed

lemma time_add_interval:
  assumes "times_ok now q" and "m_timers q tid = Some e" and "expiration e \<le> now" and "0 < interval e"
  shows "time_add_ms (expiration e) (interval e) = Inr (expiration e + interval e * ns_per_ms)"
    and "int64_ok (expiration e + interval e * ns_per_ms)"
proof -
  have "- (2 ^ 63) \<le> expiration e" "now + interval e * ns_per_ms < 2 ^ 63" "0 \<le> now"
    using assms(1,2) by (auto simp: times_ok_def int64_ok_def)
  moreover have "0 < interval e * ns_per_ms" using assms(4) by simp
  ultimately have "int64_ok (interval e * ns_per_ms)" "int64_ok (expiration e + interval e * ns_per_ms)"
    using assms(3) unfolding int64_ok_def by linarith+
  then show "time_add_ms (expiration e) (interval e) = Inr (expiration e + interval e * ns_per_ms)"
    and "int64_ok (expiration e + interval e * ns_per_ms)" by (simp_all add: time_add_ms_Inr_iff)
qed

text \<open>The two halves of a turn: taking the earliest timer out, filing it again or dropping it.\<close>

lemma take_first:
  assumes "timers_inv {} q" and "m_active_timers q = (t, tid) # rest"
  obtains e where "m_timers q tid = Some e" and "expiration e = t"
    and "timers_inv {tid} (q\<lparr>m_active_timers := rest\<rparr>)"
    and "due_work now q = occ now t (interval e) + due_work now (q\<lparr>m_active_timers := rest\<rparr>)"
proof -
  from active_iff [OF assms(1), of t tid] assms(2)
  obtain e where e: "m_timers q tid = Some e" "expiration e = t" by auto
  have wf: "set_wf ((t, tid) # rest)" using assms by (simp add: timers_inv_def)
  have "set rest = {(expiration e, i) |i e. m_timers q i = Some e \<and> i \<noteq> tid}"
  proof -
    have "insert (t, tid) (set rest) = {(expiration e, i) |i e. m_timers q i = Some e}"
      using assms by (simp add: timers_inv_def)
    moreover have "(t, tid) \<notin> set rest" using wf by simp
    ultimately have "set rest = {(expiration e, i) |i e. m_timers q i = Some e} - {(t, tid)}" by blast
    also have "\<dots> = {(expiration e, i) |i e. m_timers q i = Some e \<and> i \<noteq> tid}"
      using e by auto
    finally show ?thesis .
  qed
  then have "timers_inv {tid} (q\<lparr>m_active_timers := rest\<rparr>)"
    using assms(1) wf e(1) by (simp add: timers_inv_def)
  moreover have "due_work now q = occ now t (interval e) + due_work now (q\<lparr>m_active_timers := rest\<rparr>)"
    using assms(2) wf e by (simp add: due_work_def)
  ultimately show ?thesis using e that by blast
qed

lemma refile_inv:
  assumes "timers_inv {tid} q" and "m_timers q tid = Some e"
  shows "timers_inv {} (q\<lparr>m_timers := (m_timers q)(tid \<mapsto> e\<lparr>expiration := t\<rparr>),
    m_active_timers := set_emplace (t, tid) (m_active_timers q)\<rparr>)"
  using assms by (auto simp: timers_inv_def)

lemma due_work_other:
  assumes "\<And>t i. (t, i) \<in> set (m_active_timers q) \<Longrightarrow> m_timers q' i = m_timers q i"
    and "m_active_timers q' = m_active_timers q"
  shows "due_work now q' = due_work now q"
  unfolding due_work_def assms(2)
  by (rule sum.cong) (use assms(1) in \<open>auto split: option.splits\<close>)

lemma not_running: "timers_inv {tid} q \<Longrightarrow> (t, tid) \<notin> set (m_active_timers q)"
  by (simp add: active_iff)

lemma refile_work:
  assumes "timers_inv {tid} q" and "m_timers q tid = Some e"
  shows "due_work now (q\<lparr>m_timers := (m_timers q)(tid \<mapsto> e\<lparr>expiration := t\<rparr>),
    m_active_timers := set_emplace (t, tid) (m_active_timers q)\<rparr>) =
    occ now t (interval e) + due_work now q"
proof -
  let ?m = "(m_timers q)(tid \<mapsto> e\<lparr>expiration := t\<rparr>)"
  have "due_work now (q\<lparr>m_timers := ?m\<rparr>) = due_work now q"
    by (rule due_work_other) (use not_running [OF assms(1)] in auto)
  then show ?thesis
    using not_running [OF assms(1), of t] by (simp add: due_work_def)
qed

lemma drop_inv:
  assumes "timers_inv {tid} q"
  shows "timers_inv {} (q\<lparr>m_timers := (m_timers q)(tid := None)\<rparr>)"
  using assms by (auto simp: timers_inv_def)

lemma drop_work:
  assumes "timers_inv {tid} q"
  shows "due_work now (q\<lparr>m_timers := (m_timers q)(tid := None)\<rparr>) = due_work now q"
  by (rule due_work_other) (use not_running [OF assms] in auto)

text \<open>A callback may do what it likes with its own world, and may use the queue, as long as it
  does not cancel the timer it belongs to and adds no timer that is already due.\<close>

definition well_behaved ::
  "int \<Rightarrow> ('cb \<Rightarrow> 'w \<Rightarrow> 'cb timer_queue \<Rightarrow> ('w \<times> 'cb timer_queue) res) \<Rightarrow> bool" where
  "well_behaved now call \<longleftrightarrow>
     (\<forall>cb w q tid e. timers_inv {tid} q \<and> times_ok now q \<and> m_timers q tid = Some e \<longrightarrow>
        (\<exists>w' q'. call cb w q = Inr (w', q') \<and> timers_inv {tid} q' \<and> times_ok now q'
           \<and> m_timers q' tid = Some e \<and> due_work now q' \<le> due_work now q))"

lemma fire_timer_total:
  assumes "well_behaved now call" and "timers_inv {tid} q" and "times_ok now q"
    and "m_timers q tid = Some e" and "expiration e \<le> now"
  obtains w' q' where "fire_timer call tid e w q = Inr (w', q')" and "timers_inv {} q'"
    and "times_ok now q'" and "due_work now q' < occ now (expiration e) (interval e) + due_work now q"
proof -
  obtain w1 q1 where c: "(case callback e of None \<Rightarrow> Inr (w, q) | Some cb \<Rightarrow> call cb w q) = Inr (w1, q1)"
    and q1: "timers_inv {tid} q1" "times_ok now q1" "m_timers q1 tid = Some e" "due_work now q1 \<le> due_work now q"
  proof (cases "callback e")
    case None
    then show ?thesis using that assms(2-4) by simp
  next
    case (Some cb)
    then show ?thesis using that assms(1-4) unfolding well_behaved_def by (metis option.simps(5))
  qed
  show ?thesis
  proof (cases "0 < interval e")
    case True
    let ?t = "expiration e + interval e * ns_per_ms"
    let ?q = "q1\<lparr>m_timers := (m_timers q1)(tid \<mapsto> e\<lparr>expiration := ?t\<rparr>),
               m_active_timers := set_emplace (?t, tid) (m_active_timers q1)\<rparr>"
    note add = time_add_interval [OF q1(2,3) assms(5) True]
    have "fire_timer call tid e w q = Inr (w1, ?q)"
      using c q1(3) True add(1) by (simp add: fire_timer_def)
    moreover have "times_ok now ?q" using q1(2,3) add(2) by (auto simp: times_ok_def)
    moreover have "due_work now ?q < occ now (expiration e) (interval e) + due_work now q"
      using refile_work [OF q1(1,3), of now ?t] q1(4) occ_step [OF True assms(5)] by simp
    ultimately show ?thesis using that refile_inv [OF q1(1,3)] by blast
  next
    case False
    let ?q = "q1\<lparr>m_timers := (m_timers q1)(tid := None)\<rparr>"
    have "fire_timer call tid e w q = Inr (w1, ?q)"
      using c q1(3) False by (simp add: fire_timer_def)
    moreover have "times_ok now ?q" using q1(2) by (auto simp: times_ok_def)
    moreover have "due_work now ?q < occ now (expiration e) (interval e) + due_work now q"
      using drop_work [OF q1(1), of now] q1(4) False assms(5) by simp
    ultimately show ?thesis using that drop_inv [OF q1(1)] by blast
  qed
qed

lemma process_loop_done:
  assumes "m_active_timers q = [] \<or> now < fst (hd (m_active_timers q))"
  shows "process_loop call now w q = Some (Inr (w, q))"
  using assms by (subst process_loop.simps) (auto split: list.splits)

lemma process_loop_step:
  assumes "m_active_timers q = (t, tid) # rest" and "t \<le> now" and "m_timers q tid = Some e"
    and "fire_timer call tid e w (q\<lparr>m_active_timers := rest\<rparr>) = Inr (w', q')"
  shows "process_loop call now w q = process_loop call now w' q'"
  using assms by (subst process_loop.simps) simp

lemma later_than_first:
  assumes "timers_inv X q" and "(t, i) \<in> set (m_active_timers q)"
  shows "fst (hd (m_active_timers q)) \<le> t"
proof (cases "m_active_timers q")
  case (Cons p r)
  then have "p \<le> (t, i)" using assms by (auto simp: timers_inv_def)
  then show ?thesis using Cons by (auto simp: less_eq_prod_def)
qed (use assms in simp)

lemma process_loop_total:
  assumes "well_behaved now call" and "timers_inv {} q" and "times_ok now q"
  shows "\<exists>w' q'. process_loop call now w q = Some (Inr (w', q')) \<and> timers_inv {} q' \<and> times_ok now q'
    \<and> (\<forall>(t, tid) \<in> set (m_active_timers q'). now < t)"
  using assms(2,3)
proof (induction "due_work now q" arbitrary: q w rule: less_induct)
  case less
  show ?case
  proof (cases "m_active_timers q = [] \<or> now < fst (hd (m_active_timers q))")
    case True
    have "now < t" if "(t, i) \<in> set (m_active_timers q)" for t i
    proof -
      from that have "m_active_timers q \<noteq> []" by auto
      with True later_than_first [OF less.prems(1) that] show ?thesis by simp
    qed
    then have "\<forall>(t, tid) \<in> set (m_active_timers q). now < t" by blast
    then show ?thesis using less.prems process_loop_done [OF True, of call w] by simp
  next
    case False
    then obtain t tid rest where act: "m_active_timers q = (t, tid) # rest" and "t \<le> now"
      by (cases "m_active_timers q") auto
    from less.prems(1) act obtain e where e: "m_timers q tid = Some e" "expiration e = t"
      "timers_inv {tid} (q\<lparr>m_active_timers := rest\<rparr>)"
      "due_work now q = occ now t (interval e) + due_work now (q\<lparr>m_active_timers := rest\<rparr>)"
      by (rule take_first)
    moreover have "times_ok now (q\<lparr>m_active_timers := rest\<rparr>)"
      using less.prems(2) by (simp add: times_ok_def)
    ultimately obtain w' q' where f: "fire_timer call tid e w (q\<lparr>m_active_timers := rest\<rparr>) = Inr (w', q')"
      "timers_inv {} q'" "times_ok now q'" "due_work now q' < due_work now q"
      using \<open>t \<le> now\<close> assms(1)
      by (auto intro: fire_timer_total [of now call tid "q\<lparr>m_active_timers := rest\<rparr>" e w])
    from less.hyps [OF f(4,2,3), of w'] show ?thesis
      using process_loop_step [OF act \<open>t \<le> now\<close> e(1) f(1)] by simp
  qed
qed

section \<open>Which callbacks run\<close>

text \<open>Callbacks that leave the queue alone: \<open>f\<close> is what they do to the world.\<close>

definition passive_cb :: "('cb \<Rightarrow> 'w \<Rightarrow> 'w) \<Rightarrow> 'cb \<Rightarrow> 'w \<Rightarrow> 'cb timer_queue \<Rightarrow> ('w \<times> 'cb timer_queue) res" where
  "passive_cb f cb w q = Inr (f cb w, q)"

text \<open>The times a timer is due at up to \<open>now\<close>: its expiration and, for a periodic one, every
  whole number of intervals later. \<open>firings\<close> collects them for all timers.\<close>

definition due_times :: "int \<Rightarrow> 'cb timer_entry \<Rightarrow> int set" where
  "due_times now e =
     {u. u \<le> now \<and> (\<exists>k. u = expiration e + int k * (interval e * ns_per_ms) \<and> (k = 0 \<or> interval e > 0))}"

definition firings :: "int \<Rightarrow> 'cb timer_queue \<Rightarrow> (int \<times> int) set" where
  "firings now q = {(u, tid) |u tid e. m_timers q tid = Some e \<and> u \<in> due_times now e}"

text \<open>What is left of a timer afterwards: a one-shot timer is gone, a periodic one is due at the
  first of its times after \<open>now\<close>.\<close>

definition advance :: "int \<Rightarrow> 'cb timer_entry \<Rightarrow> 'cb timer_entry option" where
  "advance now e =
     (if expiration e > now then Some e
      else if interval e \<le> 0 then None
      else Some (e\<lparr>expiration := expiration e
             + int (occ now (expiration e) (interval e)) * (interval e * ns_per_ms)\<rparr>))"

definition run_cb :: "('cb \<Rightarrow> 'w \<Rightarrow> 'w) \<Rightarrow> 'cb timer_queue \<Rightarrow> int \<times> int \<Rightarrow> 'w \<Rightarrow> 'w" where
  "run_cb f q p w =
     (case Option.bind (m_timers q (snd p)) callback of None \<Rightarrow> w | Some cb \<Rightarrow> f cb w)"

lemma passive_well_behaved [simp]: "well_behaved now (passive_cb f)"
  by (simp add: well_behaved_def passive_cb_def)

lemma due_times_step:
  assumes "0 < interval e" and "expiration e \<le> now"
  shows "due_times now e =
    insert (expiration e) (due_times now (e\<lparr>expiration := expiration e + interval e * ns_per_ms\<rparr>))"
    (is "?A = insert ?t ?B")
proof (intro equalityI subsetI)
  fix u assume "u \<in> ?A"
  then obtain k where u: "u \<le> now" "u = ?t + int k * (interval e * ns_per_ms)"
    by (auto simp: due_times_def)
  show "u \<in> insert ?t ?B"
  proof (cases k)
    case (Suc k')
    then have "u = ?t + interval e * ns_per_ms + int k' * (interval e * ns_per_ms)"
      using u(2) by (simp add: algebra_simps)
    then show ?thesis using u(1) assms(1) by (auto simp: due_times_def)
  qed (use u in simp)
next
  fix u assume "u \<in> insert ?t ?B"
  then consider "u = ?t" | k where "u \<le> now" "u = ?t + interval e * ns_per_ms + int k * (interval e * ns_per_ms)"
    by (auto simp: due_times_def)
  then show "u \<in> ?A"
  proof cases
    case 1
    then show ?thesis using assms(2) by (auto simp: due_times_def intro: exI [of _ 0])
  next
    case 2
    then have "u = ?t + int (Suc k) * (interval e * ns_per_ms)" by (simp add: algebra_simps)
    then show ?thesis using 2(1) assms(1) unfolding due_times_def by blast
  qed
qed

lemma due_times_once: "interval e \<le> 0 \<Longrightarrow> expiration e \<le> now \<Longrightarrow> due_times now e = {expiration e}"
  by (auto simp: due_times_def)

lemma due_times_ge: "u \<in> due_times now e \<Longrightarrow> expiration e \<le> u"
  by (auto simp: due_times_def)

lemma due_times_later: "now < expiration e \<Longrightarrow> due_times now e = {}"
proof (rule equals0I)
  fix u assume "now < expiration e" and u: "u \<in> due_times now e"
  with due_times_ge [OF u] show False by (simp add: due_times_def)
qed

lemma advance_step:
  assumes "0 < interval e" and "expiration e \<le> now"
  shows "advance now (e\<lparr>expiration := expiration e + interval e * ns_per_ms\<rparr>) = advance now e"
proof -
  have o: "occ now (expiration e) (interval e) =
      Suc (occ now (expiration e + interval e * ns_per_ms) (interval e))"
    by (rule occ_step [OF assms])
  show ?thesis using assms by (simp add: advance_def o algebra_simps)
qed

text \<open>The queue after one turn with passive callbacks.\<close>

definition turned :: "int \<Rightarrow> 'cb timer_entry \<Rightarrow> 'cb timer_entry option" where
  "turned now e = (if interval e > 0
     then Some (e\<lparr>expiration := expiration e + interval e * ns_per_ms\<rparr>) else None)"

lemma passive_turn:
  assumes "fire_timer (passive_cb f) tid e w q = Inr (w', q')" and "m_timers q tid = Some e"
  shows "w' = run_cb f q (expiration e, tid) w \<and> m_timers q' = (m_timers q)(tid := turned now e)
    \<and> m_timer_fd q' = m_timer_fd q \<and> m_next_id q' = m_next_id q"
  using assms
  by (auto simp: fire_timer_def passive_cb_def run_cb_def turned_def rbind_eq_Inr_iff time_add_ms_Inr_iff
      split: option.splits if_splits)

lemma firings_turn:
  assumes "timers_inv {} q" and "m_active_timers q = (t, tid) # rest" and "t \<le> now"
    and "m_timers q tid = Some e" and "expiration e = t"
    and "m_timers q' = (m_timers q)(tid := turned now e)"
  shows "firings now q = insert (t, tid) (firings now q') \<and> (\<forall>p \<in> firings now q'. (t, tid) < p)"
proof
  have split: "due_times now e =
      insert t (case turned now e of None \<Rightarrow> {} | Some e' \<Rightarrow> due_times now e')"
    using assms(3,5) by (simp add: turned_def due_times_step due_times_once)
  have fq': "firings now q' = {(u, i) |u i e. m_timers q i = Some e \<and> i \<noteq> tid \<and> u \<in> due_times now e}
      \<union> {(u, tid) |u e'. turned now e = Some e' \<and> u \<in> due_times now e'}"
    by (auto simp: firings_def assms(6) split: if_splits)
  have "firings now q = {(u, i) |u i e. m_timers q i = Some e \<and> i \<noteq> tid \<and> u \<in> due_times now e}
      \<union> {(u, tid) |u. u \<in> due_times now e}"
    using assms(4) by (auto simp: firings_def)
  then show "firings now q = insert (t, tid) (firings now q')"
    unfolding fq' split by (auto split: option.splits)
  show "\<forall>p \<in> firings now q'. (t, tid) < p"
  proof
    fix p assume "p \<in> firings now q'"
    then consider u i e2 where "p = (u, i)" "m_timers q i = Some e2" "i \<noteq> tid" "u \<in> due_times now e2"
      | u e' where "p = (u, tid)" "turned now e = Some e'" "u \<in> due_times now e'"
      unfolding fq' by blast
    then show "(t, tid) < p"
    proof cases
      case 1
      have "(expiration e2, i) \<in> set (m_active_timers q)" using active_iff [OF assms(1)] 1(2) by simp
      moreover have "sorted (m_active_timers q)" using assms(1) by (simp add: timers_inv_def)
      ultimately have "(t, tid) \<le> (expiration e2, i)" using assms(2) 1(3) by auto
      then show ?thesis using due_times_ge [OF 1(4)] 1(1,3) by (auto simp: less_eq_prod_def less_prod_def)
    next
      case 2
      then have "0 < interval e" and "t + interval e * ns_per_ms \<le> u"
        using due_times_ge [OF 2(3)] assms(5) by (auto simp: turned_def split: if_splits)
      then show ?thesis using 2(1) by (auto simp: less_prod_def)
    qed
  qed
qed

lemma run_cb_turned:
  assumes "m_timers q' = (m_timers q)(tid := turned now e)" and "m_timers q tid = Some e"
    and "p \<in> firings now q'"
  shows "run_cb f q' p w = run_cb f q p w"
proof (cases "snd p = tid")
  case True
  then have "turned now e \<noteq> None" using assms(1,3) by (auto simp: firings_def)
  then show ?thesis using True assms(1,2) by (auto simp: run_cb_def turned_def split: if_splits)
next
  case False
  then show ?thesis using assms(1) by (simp add: run_cb_def)
qed

lemma nothing_due:
  assumes "timers_inv {} q" and "m_active_timers q = [] \<or> now < fst (hd (m_active_timers q))"
  shows "firings now q = {}" and "(\<lambda>tid. Option.bind (m_timers q tid) (advance now)) = m_timers q"
proof -
  have later: "now < expiration e" if "m_timers q tid = Some e" for tid e
  proof -
    have "(expiration e, tid) \<in> set (m_active_timers q)" using active_iff [OF assms(1)] that by simp
    moreover from this have "m_active_timers q \<noteq> []" by auto
    ultimately show ?thesis using assms(2) later_than_first [OF assms(1)] by fastforce
  qed
  then show "firings now q = {}" by (auto simp: firings_def due_times_later)
  show "(\<lambda>tid. Option.bind (m_timers q tid) (advance now)) = m_timers q"
  proof
    fix tid show "Option.bind (m_timers q tid) (advance now) = m_timers q tid"
      using later by (cases "m_timers q tid") (auto simp: advance_def)
  qed
qed

lemma process_loop_passive:
  assumes "timers_inv {} q" and "times_ok now q"
  shows "\<exists>L q'. process_loop (passive_cb f) now w q = Some (Inr (fold (run_cb f q) L w, q'))
    \<and> set_wf L \<and> set L = firings now q
    \<and> m_timers q' = (\<lambda>tid. Option.bind (m_timers q tid) (advance now))
    \<and> m_timer_fd q' = m_timer_fd q \<and> m_next_id q' = m_next_id q
    \<and> timers_inv {} q' \<and> times_ok now q'"
  using assms
proof (induction "due_work now q" arbitrary: q w rule: less_induct)
  case less
  show ?case
  proof (cases "m_active_timers q = [] \<or> now < fst (hd (m_active_timers q))")
    case True
    then show ?thesis
      using nothing_due [OF less.prems(1) True] less.prems process_loop_done [OF True, of "passive_cb f" w] by (intro exI [of _ "[]"]) simp
  next
    case False
    then obtain t tid rest where act: "m_active_timers q = (t, tid) # rest" and due: "t \<le> now"
      by (cases "m_active_timers q") auto
    let ?q1 = "q\<lparr>m_active_timers := rest\<rparr>"
    from less.prems(1) act obtain e where e: "m_timers q tid = Some e" "expiration e = t"
      "timers_inv {tid} ?q1" "due_work now q = occ now t (interval e) + due_work now ?q1"
      by (rule take_first)
    moreover have "times_ok now ?q1" using less.prems(2) by (simp add: times_ok_def)
    ultimately obtain w1 q1 where f: "fire_timer (passive_cb f) tid e w ?q1 = Inr (w1, q1)"
      "timers_inv {} q1" "times_ok now q1" "due_work now q1 < due_work now q"
      using due by (auto intro: fire_timer_total [OF passive_well_behaved [of now f], of tid ?q1 e w])
    from passive_turn [OF f(1), of now] e(1,2)
    have w1: "w1 = run_cb f q (t, tid) w" and q1: "m_timers q1 = (m_timers q)(tid := turned now e)"
      "m_timer_fd q1 = m_timer_fd q" "m_next_id q1 = m_next_id q"
      by (simp_all add: run_cb_def)
    from less.hyps [OF f(4,2,3), of w1] obtain L q' where IH:
      "process_loop (passive_cb f) now w1 q1 = Some (Inr (fold (run_cb f q1) L w1, q'))"
      "set_wf L" "set L = firings now q1"
      "m_timers q' = (\<lambda>tid. Option.bind (m_timers q1 tid) (advance now))"
      "m_timer_fd q' = m_timer_fd q1" "m_next_id q' = m_next_id q1" "timers_inv {} q'" "times_ok now q'"
      by blast
    note turn = firings_turn [OF less.prems(1) act due e(1,2) q1(1)]
    have "fold (run_cb f q1) L w1 = fold (run_cb f q) L w1"
      using run_cb_turned [OF q1(1) e(1)] IH(3) by (intro fold_cong) (auto simp: fun_eq_iff)
    then have "process_loop (passive_cb f) now w q = Some (Inr (fold (run_cb f q) ((t, tid) # L) w, q'))"
      using IH(1) w1 process_loop_step [OF act due e(1) f(1)] by simp
    moreover have "set_wf ((t, tid) # L)" "set ((t, tid) # L) = firings now q"
      using turn IH(2,3) by (auto intro: less_imp_le)
    moreover have "m_timers q' = (\<lambda>tid. Option.bind (m_timers q tid) (advance now))"
    proof
      fix i show "m_timers q' i = Option.bind (m_timers q i) (advance now)"
        using IH(4) q1(1) e due
        by (cases "i = tid") (auto simp: turned_def advance_step, simp add: advance_def)
    qed
    ultimately show ?thesis using IH(5-8) q1(2,3) by (metis (no_types, lifting))
  qed
qed

section \<open>The service the queue gives\<close>

text \<open>
  What users of the timers see: starting one gives an id, cancelling one says whether it was
  still there, and time passing may end some.
\<close>

datatype service_ev = Started int | Cancelled int bool | Elapsed

fun started_ids :: "service_ev list \<Rightarrow> int list" where
  "started_ids [] = []"
| "started_ids (Started i # es) = i # started_ids es"
| "started_ids (_ # es) = started_ids es"

fun cancelled_ids :: "service_ev list \<Rightarrow> int list" where
  "cancelled_ids [] = []"
| "cancelled_ids (Cancelled i True # es) = i # cancelled_ids es"
| "cancelled_ids (_ # es) = cancelled_ids es"

lemma started_ids_append [simp]: "started_ids (xs @ ys) = started_ids xs @ started_ids ys"
  by (induction xs rule: started_ids.induct) auto

lemma cancelled_ids_append [simp]: "cancelled_ids (xs @ ys) = cancelled_ids xs @ cancelled_ids ys"
  by (induction xs rule: cancelled_ids.induct) auto

locale timer_service =
  fixes inv :: "'q \<Rightarrow> bool"
    and alive :: "'q \<Rightarrow> int set"
    and fresh :: "'q \<Rightarrow> int"
    and step :: "'q \<Rightarrow> service_ev \<Rightarrow> 'q \<Rightarrow> bool"
  assumes step_inv: "inv q \<Longrightarrow> step q ev q' \<Longrightarrow> inv q'"
    and alive_fresh: "inv q \<Longrightarrow> i \<in> alive q \<Longrightarrow> i < fresh q"
    and started: "inv q \<Longrightarrow> step q (Started i) q' \<Longrightarrow>
      i = fresh q \<and> alive q' = insert i (alive q) \<and> fresh q' = i + 1"
    and cancelled: "inv q \<Longrightarrow> step q (Cancelled i b) q' \<Longrightarrow>
      (b \<longleftrightarrow> i \<in> alive q) \<and> alive q' = alive q - {i} \<and> fresh q' = fresh q"
    and elapsed: "inv q \<Longrightarrow> step q Elapsed q' \<Longrightarrow> alive q' \<subseteq> alive q \<and> fresh q' = fresh q"
begin

lemma path_ids:
  assumes "ev_path step q es q'" and "inv q"
  shows "inv q' \<and> fresh q \<le> fresh q' \<and> distinct (started_ids es)
    \<and> (\<forall>i \<in> set (started_ids es). fresh q \<le> i \<and> i < fresh q')
    \<and> distinct (cancelled_ids es) \<and> (\<forall>i \<in> set (cancelled_ids es). i \<notin> alive q' \<and> i < fresh q')
    \<and> alive q' \<subseteq> (alive q \<union> set (started_ids es)) - set (cancelled_ids es)"
  using assms
proof (induction rule: ev_path.induct)
  case (ev_nil q)
  then show ?case by simp
next
  case (ev_snoc q es q1 e q2)
  then have "inv q1" by blast
  show ?case
  proof (cases e)
    case (Started i)
    then show ?thesis
      using ev_snoc started [OF \<open>inv q1\<close>, of i q2] step_inv [OF \<open>inv q1\<close>] by force
  next
    case (Cancelled i b)
    then show ?thesis
      using ev_snoc cancelled [OF \<open>inv q1\<close>, of i b q2] step_inv [OF \<open>inv q1\<close>]
        alive_fresh [OF \<open>inv q1\<close>, of i] by (cases b) auto
  next
    case Elapsed
    then show ?thesis
      using ev_snoc elapsed [OF \<open>inv q1\<close>, of q2] step_inv [OF \<open>inv q1\<close>] by auto
  qed
qed

end

text \<open>The steps of the model: any of the three ways to start a timer, \<open>Cancel\<close>, and an expiry of the
  timerfd whose callbacks append themselves to a log.\<close>

definition log_cb :: "'cb \<Rightarrow> 'cb list \<Rightarrow> 'cb list" where
  "log_cb cb l = l @ [cb]"

fun timer_step :: "'cb timer_queue \<Rightarrow> service_ev \<Rightarrow> 'cb timer_queue \<Rightarrow> bool" where
  "timer_step q (Started i) q' \<longleftrightarrow>
     (\<exists>now0 now t cb. RunAt now t cb q = Inr (i, q') \<or> RunAfter now0 now t cb q = Inr (i, q')
        \<or> RunEvery now0 now t cb q = Inr (i, q'))"
| "timer_step q (Cancelled i b) q' \<longleftrightarrow> (\<exists>now. Cancel now i q = Inr (b, q'))"
| "timer_step q Elapsed q' \<longleftrightarrow>
     (\<exists>now now' l l'. times_ok now q
        \<and> TimerQueue_HandleRead (passive_cb log_cb) now now' l q = Some (Inr (l', q')))"

lemma HandleRead_passive_alive:
  assumes "timers_inv {} q" and "times_ok now q"
    and "TimerQueue_HandleRead (passive_cb f) now now' w q = Some (Inr (w', q'))"
  shows "timers_inv {} q' \<and> dom (m_timers q') \<subseteq> dom (m_timers q) \<and> m_next_id q' = m_next_id q"
proof (cases "m_timer_fd q < 0")
  case True
  then show ?thesis using assms by (simp add: TimerQueue_HandleRead_def)
next
  case False
  from process_loop_passive [OF assms(1,2), of f w] obtain w1 q1 where p:
    "process_loop (passive_cb f) now w q = Some (Inr (w1, q1))"
    "m_timers q1 = (\<lambda>tid. Option.bind (m_timers q tid) (advance now))"
    "m_next_id q1 = m_next_id q" "timers_inv {} q1" by blast
  with assms(3) False have "rearm_or_disarm now' q1 = Inr q'"
    by (auto simp: TimerQueue_HandleRead_def ProcessExpiredTimers_def rmap_eq_Inr_iff)
  from rearm_armed [OF this] obtain s where "q' = q1\<lparr>timer_spec := s\<rparr>" by blast
  then show ?thesis using p by (auto simp: bind_eq_Some_conv)
qed

interpretation timers: timer_service "timers_inv {}" "\<lambda>q. dom (m_timers q)" m_next_id timer_step
proof
  fix q q' :: "'cb timer_queue" and ev
  assume inv: "timers_inv {} q" and "timer_step q ev q'"
  then show "timers_inv {} q'"
  proof (cases ev)
    case (Started i)
    then show ?thesis using \<open>timer_step q ev q'\<close>
      by (auto dest!: started_filed [OF inv] simp: filed_def)
  next
    case (Cancelled i b)
    then obtain now where c: "Cancel now i q = Inr (b, q')" using \<open>timer_step q ev q'\<close> by auto
    then show ?thesis using Cancel_known [OF inv _ c] inv by (cases "m_timers q i") auto
  next
    case Elapsed
    then show ?thesis using \<open>timer_step q ev q'\<close> HandleRead_passive_alive [OF inv] by fastforce
  qed
next
  fix q :: "'cb timer_queue" and i
  assume "timers_inv {} q" and "i \<in> dom (m_timers q)"
  then show "i < m_next_id q" by (auto simp: timers_inv_def)
next
  fix q q' :: "'cb timer_queue" and i
  assume inv: "timers_inv {} q" and "timer_step q (Started i) q'"
  then show "i = m_next_id q \<and> dom (m_timers q') = insert i (dom (m_timers q)) \<and> m_next_id q' = i + 1"
    by (auto dest!: started_filed [OF inv] simp: filed_def)
next
  fix q q' :: "'cb timer_queue" and i b
  assume inv: "timers_inv {} q" and "timer_step q (Cancelled i b) q'"
  then obtain now where c: "Cancel now i q = Inr (b, q')" by auto
  show "(b \<longleftrightarrow> i \<in> dom (m_timers q)) \<and> dom (m_timers q') = dom (m_timers q) - {i} \<and> m_next_id q' = m_next_id q"
    using Cancel_known [OF inv _ c] c by (cases "m_timers q i") auto
next
  fix q q' :: "'cb timer_queue"
  assume inv: "timers_inv {} q" and "timer_step q Elapsed q'"
  then show "dom (m_timers q') \<subseteq> dom (m_timers q) \<and> m_next_id q' = m_next_id q"
    using HandleRead_passive_alive [OF inv] by fastforce
qed

section \<open>Properties\<close>

text \<open>A queue with a timer of ten milliseconds and a one-shot timer, for concrete runs.\<close>

definition sample_timers :: "nat timer_queue" where
  "sample_timers = \<lparr>m_timer_fd = 5,
     m_timers = [1 \<mapsto> \<lparr>entry_id = 1, expiration = 5 * ns_per_ms, interval = 10, callback = Some 11\<rparr>,
                 2 \<mapsto> \<lparr>entry_id = 2, expiration = 7 * ns_per_ms, interval = 0, callback = Some 22\<rparr>],
     m_active_timers = [(5 * ns_per_ms, 1), (7 * ns_per_ms, 2)], m_next_id = 3, timer_spec = (0, 1)\<rparr>"

lemma sample_timers_inv: "timers_inv {} sample_timers"
  by (auto simp: timers_inv_def sample_timers_def split: if_splits intro: exI [of _ 2])

lemma sample_times_ok: "0 \<le> now \<Longrightarrow> now < 2 ^ 62 \<Longrightarrow> times_ok now sample_timers"
  by (auto simp: times_ok_def sample_timers_def int64_ok_def split: if_splits)

text \<open>
  C14. Whatever sequence of \<open>RunAt\<close>, \<open>RunAfter\<close>, \<open>RunEvery\<close> and \<open>Cancel\<close> is made on a new timer
  queue, at whatever clock readings: the id map and the ordered set describe the same timers,
  and the timerfd is disarmed if there is none and otherwise armed, with a valid non-zero
  \<open>timespec\<close>, for the earliest one. The only way a sequence can fail is 64-bit overflow of a time
  or of the id counter.
\<close>

theorem timer_ops_invariant:
  "case run_timer_ops ops (TimerQueue_init fd) of
     Inl e \<Rightarrow> e = SignedOverflow
   | Inr q \<Rightarrow> timers_inv {} q \<and> (\<exists>now. armed_for now q)"
proof -
  have "armed_for 0 (TimerQueue_init fd)" by (simp add: armed_for_def TimerQueue_init_def)
  then show ?thesis using run_timer_ops_keeps [OF timers_inv_init] by blast
qed

text \<open>
  \<open>RunAt\<close> succeeds whenever the times involved fit 64 bits; it hands out the next id, files the
  timer under it and arms the timerfd. Cancelling that id returns true and gives back exactly the
  timers there were before; cancelling it again returns false and changes nothing.
\<close>

theorem RunAt_Cancel_roundtrip:
  assumes "timers_inv {} q" and "int64_ok (t - now)" and "int64_ok (m_next_id q + 1)"
    and "\<forall>(u, i) \<in> set (m_active_timers q). int64_ok (u - now)"
  shows "\<exists>q1 q2. RunAt now t cb q = Inr (m_next_id q, q1)
    \<and> m_timers q1 = (m_timers q)(m_next_id q \<mapsto>
        \<lparr>entry_id = m_next_id q, expiration = t, interval = 0, callback = cb\<rparr>)
    \<and> armed_for now q1
    \<and> Cancel now (m_next_id q) q1 = Inr (True, q2)
    \<and> m_timers q2 = m_timers q \<and> m_active_timers q2 = m_active_timers q \<and> armed_for now q2
    \<and> Cancel now (m_next_id q) q2 = Inr (False, q2)"
proof -
  let ?n = "m_next_id q" and ?e = "\<lparr>entry_id = m_next_id q, expiration = t, interval = 0, callback = cb\<rparr>"
  have "\<exists>q1. RunAt now t cb q = Inr (?n, q1)"
    using file_entry_total [of "q\<lparr>m_next_id := ?n + 1\<rparr>" now ?e] assms(2-4)
    by (auto simp: RunAt_def GenerateNextId_def)
  then obtain q1 where q1: "RunAt now t cb q = Inr (?n, q1)" by blast
  note f = RunAt_filed [OF assms(1) q1, unfolded filed_def]
  then have wf1: "timers_inv {} q1" and m1: "m_timers q1 ?n = Some ?e" by auto
  have wf: "set_wf (m_active_timers q)" using assms(1) by (simp add: timers_inv_def)
  have new: "(t, ?n) \<notin> set (m_active_timers q)"
    using active_iff [OF assms(1)] next_id_fresh [OF assms(1)] by simp
  have erase: "set_erase (t, ?n) (m_active_timers q1) = m_active_timers q"
    using f wf new active_set.emplace_erase_elems [OF wf new]
    by (intro sorted_distinct_set_unique) auto
  have "\<exists>q2. rearm_or_disarm now (q1\<lparr>m_active_timers := m_active_timers q,
      m_timers := (m_timers q1)(?n := None)\<rparr>) = Inr q2"
    by (rule rearm_total) (use assms(4) in auto)
  then have "\<exists>b q2. Cancel now ?n q1 = Inr (b, q2)"
    using m1 erase by (auto simp: Cancel_def)
  then obtain b q2 where q2: "Cancel now ?n q1 = Inr (b, q2)" by blast
  note c = Cancel_known [OF wf1 m1 q2]
  have "m_timers q2 = m_timers q" using c f by (simp add: fun_upd_idem)
  then show ?thesis using q1 f q2 c erase next_id_fresh [OF assms(1)] by auto
qed

theorem RunAt_Cancel_roundtrip_witness:
  "\<exists>q1 q2. RunAt 0 (6 * ns_per_ms) (Some 33) sample_timers = Inr (3, q1)
    \<and> Cancel 0 3 q1 = Inr (True, q2) \<and> m_timers q2 = m_timers sample_timers
    \<and> Cancel 0 3 q2 = Inr (False, q2)"
proof -
  have "m_next_id sample_timers = 3" "int64_ok (6 * ns_per_ms - 0)" "int64_ok (m_next_id sample_timers + 1)"
    "\<forall>(u, i) \<in> set (m_active_timers sample_timers). int64_ok (u - 0)"
    by (simp_all add: sample_timers_def int64_ok_def)
  with RunAt_Cancel_roundtrip [OF sample_timers_inv, of "6 * ns_per_ms" 0 "Some 33"] show ?thesis by auto
qed

text \<open>
  Ids are never reused: along any sequence of starting, cancelling and expiring timers, the
  ids handed out are pairwise distinct and above all earlier ones, no id is cancelled
  successfully twice, and what is alive at the end was alive at the beginning or started since,
  and has not been cancelled.
\<close>

theorem timer_ids_never_reused:
  assumes "ev_path timer_step q es q'" and "timers_inv {} q"
  shows "distinct (started_ids es) \<and> (\<forall>i \<in> set (started_ids es). m_next_id q \<le> i)
    \<and> distinct (cancelled_ids es)
    \<and> dom (m_timers q') \<subseteq> (dom (m_timers q) \<union> set (started_ids es)) - set (cancelled_ids es)"
  using timers.path_ids [OF assms] by simp

theorem timer_ids_never_reused_witness:
  "\<exists>q'. ev_path timer_step sample_timers [Cancelled 2 True] q' \<and> dom (m_timers q') \<subseteq> {1}"
proof -
  let ?q = "sample_timers\<lparr>m_active_timers := [(5 * ns_per_ms, 1)],
      m_timers := (m_timers sample_timers)(2 := None), timer_spec := (0, 5 * ns_per_ms)\<rparr>"
  have "Cancel 0 2 sample_timers = Inr (True, ?q)"
    by (simp add: Cancel_def sample_timers_def set_erase_def rearm_or_disarm_def ResetTimerFd_def
        SetTimerFd_def time_diff_def int64_ok_def)
  then have "timer_step sample_timers (Cancelled 2 True) ?q" by auto
  then have p: "ev_path timer_step sample_timers [Cancelled 2 True] ?q"
    using ev_path.intros [of timer_step] by (metis append_Nil)
  from timer_ids_never_reused [OF p sample_timers_inv] have "dom (m_timers ?q) \<subseteq> {1}"
    by (auto simp: sample_timers_def)
  with p show ?thesis by blast
qed

text \<open>
  C27. \<open>NextTimeout\<close>, which bounds how long the loop sleeps in \<open>Poll\<close>: it is -1 exactly when there is
  no timer; otherwise it is a number of milliseconds between 0 and \<open>INT_MAX\<close> that never reaches
  past the earliest expiration, and below \<open>INT_MAX\<close> it is less than a millisecond short of it.
\<close>

theorem NextTimeout_bounds:
  assumes "timers_inv {} q" and "\<forall>(u, i) \<in> set (m_active_timers q). int64_ok (u - now)"
  shows "\<exists>r. NextTimeout now q = Inr r \<and> (r = -1 \<longleftrightarrow> m_active_timers q = []) \<and> -1 \<le> r \<and> r \<le> INT_MAX
    \<and> (\<forall>(u, i) \<in> set (m_active_timers q). r * ns_per_ms \<le> max 0 (u - now))
    \<and> (m_active_timers q \<noteq> [] \<and> r < INT_MAX \<longrightarrow>
         (\<exists>(u, i) \<in> set (m_active_timers q). u - now < (r + 1) * ns_per_ms))"
proof (cases "m_active_timers q")
  case Nil
  then show ?thesis by (simp add: NextTimeout_def INT_MAX_def)
next
  case (Cons p rest)
  obtain t i where p: "p = (t, i)" by fastforce
  define d where "d = t - now"
  have ok: "int64_ok d" using assms(2) Cons p by (auto simp: d_def)
  have first: "d \<le> u - now" if "(u, j) \<in> set (m_active_timers q)" for u j
    using later_than_first [OF assms(1) that] Cons p by (simp add: d_def)
  define m where "m = d div ns_per_ms"
  define r where "r = (if d \<le> 0 then 0 else if m > INT_MAX then INT_MAX else m)"
  have r: "NextTimeout now q = Inr r"
    using Cons p ok by (simp add: NextTimeout_def time_diff_def d_def [symmetric] r_def m_def Let_def)
  have mb: "m * ns_per_ms \<le> d" "d < (m + 1) * ns_per_ms"
    using div_mult_mod_eq [of d ns_per_ms] pos_mod_bound [of ns_per_ms d] pos_mod_sign [of ns_per_ms d]
    unfolding m_def by (simp_all add: algebra_simps)
  have "0 \<le> r" "r \<le> INT_MAX" "r * ns_per_ms \<le> max 0 d" "r < INT_MAX \<longrightarrow> d < (r + 1) * ns_per_ms"
    using mb by (auto simp: r_def INT_MAX_def max_def split: if_splits)
  moreover from this have "r * ns_per_ms \<le> max 0 (u - now)" if "(u, j) \<in> set (m_active_timers q)" for u j
    using first [OF that] by linarith
  moreover have "(t, i) \<in> set (m_active_timers q)" using Cons p by simp
  ultimately show ?thesis using r Cons unfolding d_def by (intro exI [of _ r]) auto
qed

theorem NextTimeout_bounds_witness:
  "\<exists>r. NextTimeout (2 * ns_per_ms + 1) sample_timers = Inr r \<and> 0 \<le> r \<and> r \<le> 3 \<and> INT_MAX > 3"
proof -
  have "\<forall>(u, i) \<in> set (m_active_timers sample_timers). int64_ok (u - (2 * ns_per_ms + 1))"
    by (simp add: sample_timers_def int64_ok_def)
  from NextTimeout_bounds [OF sample_timers_inv this] show ?thesis
    by (auto simp: sample_timers_def INT_MAX_def)
qed

lemma rearm_after_processing:
  assumes "times_ok now q" and "timers_inv {} q" and "\<forall>(t, tid) \<in> set (m_active_timers q). now < t"
    and "0 \<le> now'" and "now' < 2 ^ 63"
  obtains s where "rearm_or_disarm now' q = Inr (q\<lparr>timer_spec := s\<rparr>)" and "armed_for now' (q\<lparr>timer_spec := s\<rparr>)"
proof -
  have "int64_ok (t - now')" if mem: "(t, i) \<in> set (m_active_timers q)" for t i
  proof -
    obtain e where "m_timers q i = Some e" "expiration e = t"
      using mem by (auto simp: active_iff [OF assms(2)])
    then have "t < 2 ^ 63" "0 \<le> now" using assms(1) by (auto simp: times_ok_def int64_ok_def)
    moreover have "now < t" using assms(3) mem by blast
    ultimately show ?thesis using assms(4,5) unfolding int64_ok_def by linarith
  qed
  then have "\<exists>q'. rearm_or_disarm now' q = Inr q'" by (rule rearm_total)
  then obtain q' where "rearm_or_disarm now' q = Inr q'" by blast
  then show ?thesis using that by (auto elim: rearm_armed)
qed

lemma HandleRead_process:
  assumes "m_timer_fd q \<ge> 0" and "process_loop call now w q = Some (Inr (w', q'))"
    and "rearm_or_disarm now' q' = Inr q''"
  shows "TimerQueue_HandleRead call now now' w q = Some (Inr (w', q''))"
  using assms by (simp add: TimerQueue_HandleRead_def ProcessExpiredTimers_def)

lemma HandleRead_passive:
  assumes "timers_inv {} q" and "times_ok now q" and "m_timer_fd q \<ge> 0" and "0 \<le> now'" and "now' < 2 ^ 63"
  shows "\<exists>L q'. TimerQueue_HandleRead (passive_cb f) now now' w q = Some (Inr (fold (run_cb f q) L w, q'))
    \<and> sorted L \<and> distinct L \<and> set L = firings now q
    \<and> m_timers q' = (\<lambda>tid. Option.bind (m_timers q tid) (advance now))
    \<and> timers_inv {} q' \<and> armed_for now' q'"
proof -
  from process_loop_passive [OF assms(1,2), of f w] obtain L q1 where p:
    "process_loop (passive_cb f) now w q = Some (Inr (fold (run_cb f q) L w, q1))"
    "set_wf L" "set L = firings now q"
    "m_timers q1 = (\<lambda>tid. Option.bind (m_timers q tid) (advance now))" "timers_inv {} q1" "times_ok now q1"
    by blast
  moreover have "\<forall>(t, tid) \<in> set (m_active_timers q1). now < t"
    using process_loop_total [OF passive_well_behaved assms(1,2), of f w] p(1) by auto
  ultimately obtain s where r: "rearm_or_disarm now' q1 = Inr (q1\<lparr>timer_spec := s\<rparr>)"
    "armed_for now' (q1\<lparr>timer_spec := s\<rparr>)"
    using assms(4,5) by (blast elim: rearm_after_processing)
  from HandleRead_process [OF assms(3) p(1) r(1)] show ?thesis
    using p r(2) by (intro exI [of _ L] exI [of _ "q1\<lparr>timer_spec := s\<rparr>"]) simp
qed

text \<open>
  C6. When the timerfd expires and the callbacks leave the queue alone, \<open>HandleRead\<close> returns and has
  run exactly the callbacks that were due: a one-shot timer once, a periodic timer once for
  every whole interval since its expiration, in the order of their due times and, for equal
  times, of their ids, each of these firings once. Afterwards the one-shot timers are gone, each
  periodic timer is due at its first time after \<open>now\<close> on the grid of its original expiration,
  and the timerfd is armed for the earliest. So the period does not drift.
\<close>

theorem HandleRead_fires_exactly:
  assumes "timers_inv {} q" and "times_ok now q" and "m_timer_fd q \<ge> 0" and "0 \<le> now'" and "now' < 2 ^ 63"
  shows "\<exists>L q'. TimerQueue_HandleRead (passive_cb f) now now' w q = Some (Inr (fold (run_cb f q) L w, q'))
    \<and> sorted L \<and> distinct L \<and> set L = firings now q
    \<and> m_timers q' = (\<lambda>tid. Option.bind (m_timers q tid) (advance now))
    \<and> timers_inv {} q' \<and> armed_for now' q'"
  by (rule HandleRead_passive [OF assms])

theorem HandleRead_fires_exactly_witness:
  "\<exists>L q'. TimerQueue_HandleRead (passive_cb log_cb) (26 * ns_per_ms) (26 * ns_per_ms) [] sample_timers
       = Some (Inr (fold (run_cb log_cb sample_timers) L [], q'))
    \<and> sorted L \<and> distinct L \<and> (25 * ns_per_ms, 1) \<in> set L \<and> (7 * ns_per_ms, 2) \<in> set L
    \<and> map_option expiration (m_timers q' 1) = Some (35 * ns_per_ms) \<and> m_timers q' 2 = None"
proof -
  have ok: "times_ok (26 * ns_per_ms) sample_timers" by (rule sample_times_ok) simp_all
  have "(25 * ns_per_ms, 1) \<in> firings (26 * ns_per_ms) sample_timers"
    "(7 * ns_per_ms, 2) \<in> firings (26 * ns_per_ms) sample_timers"
    by (auto simp: firings_def sample_timers_def due_times_def intro: exI [of _ "2::nat"])
  with HandleRead_fires_exactly [OF sample_timers_inv ok, of "26 * ns_per_ms" log_cb "[]"]
  show ?thesis by (fastforce simp: sample_timers_def advance_def occ_def)
qed



text \<open>
  C29. A callback that cancels its own timer, one-shot or periodic, destroys the entry (and itself)
  while the loop still holds a pointer to it: the loop then reads freed memory. This is so for
  every queue whose earliest timer is due and has such a callback.
\<close>

theorem self_cancel_use_after_free:
  assumes "timers_inv {} q" and "m_active_timers q = (t, tid) # rest" and "t \<le> now"
    and "m_timers q tid = Some e" and "callback e = Some cb"
    and "\<forall>(u, i) \<in> set rest. int64_ok (u - c)"
    and "\<forall>w q. call cb w q = rmap (\<lambda>(b, q'). (w, q')) (Cancel c tid q)"
  shows "ProcessExpiredTimers call now now' w q = Some (Inl UseAfterFree)"
proof -
  let ?q1 = "q\<lparr>m_active_timers := rest\<rparr>"
  have "expiration e = t" using active_iff [OF assms(1), of t tid] assms(2,4) by auto
  have wf: "set_wf ((t, tid) # rest)" using assms(1,2) by (simp add: timers_inv_def)
  then have "set_erase (t, tid) rest = rest" by (simp add: set_erase_def remove1_idem)
  moreover have "\<exists>q2. rearm_or_disarm c (?q1\<lparr>m_timers := (m_timers q)(tid := None)\<rparr>) = Inr q2"
    by (rule rearm_total) (use assms(6) in auto)
  ultimately obtain q2 where "Cancel c tid ?q1 = Inr (True, q2)"
    and r: "rearm_or_disarm c (?q1\<lparr>m_timers := (m_timers q)(tid := None)\<rparr>) = Inr q2"
    using assms(4) \<open>expiration e = t\<close> by (auto simp: Cancel_def)
  moreover from r have "m_timers q2 tid = None" by (auto elim: rearm_armed)
  ultimately have "fire_timer call tid e w ?q1 = Inl UseAfterFree"
    using assms(5,7) by (simp add: fire_timer_def)
  then have "process_loop call now w q = Some (Inl UseAfterFree)"
    using assms(2-4) by (subst process_loop.simps) simp
  then show ?thesis by (simp add: ProcessExpiredTimers_def)
qed

theorem self_cancel_use_after_free_witness:
  "ProcessExpiredTimers (\<lambda>cb w q. rmap (\<lambda>(b, q'). (w, q')) (Cancel 0 1 q)) (6 * ns_per_ms) 0 () sample_timers
     = Some (Inl UseAfterFree)"
proof -
  have "m_active_timers sample_timers = (5 * ns_per_ms, 1) # [(7 * ns_per_ms, 2)]"
    and "m_timers sample_timers 1 =
      Some \<lparr>entry_id = 1, expiration = 5 * ns_per_ms, interval = 10, callback = Some 11\<rparr>"
    by (simp_all add: sample_timers_def)
  note use = self_cancel_use_after_free [OF sample_timers_inv this(1) _ this(2), of "6 * ns_per_ms" 11 0]
  show ?thesis by (rule use) (simp_all add: int64_ok_def)
qed

end
