(* ===== verification/Channel.thy ===== *)
theory Channel
  imports Net_Prelude Net_Time
begin

unbundle bit_operations_syntax

text \<open>
  \<open>net/channel.{h,cpp}\<close>: a file descriptor, the events it waits for, the events the poller
  reported and the callbacks to run for them. Event masks are 32-bit words with the bit values of
  \<open>poll.h\<close>. What a callback does is the parameter \<open>call\<close>; \<open>get\<close> looks the channel up in the state the
  callbacks work on and is \<open>None\<close> once it has been destroyed. How \<open>Update\<close> and \<open>Remove\<close> reach the
  poller is in \<open>Epoll_Poller\<close>.
\<close>

section \<open>Events\<close>

type_synonym events = "32 word"

definition POLLIN :: events where "POLLIN = 0x001"
definition POLLPRI :: events where "POLLPRI = 0x002"
definition POLLOUT :: events where "POLLOUT = 0x004"
definition POLLERR :: events where "POLLERR = 0x008"
definition POLLHUP :: events where "POLLHUP = 0x010"
definition POLLNVAL :: events where "POLLNVAL = 0x020"
definition POLLRDHUP :: events where "POLLRDHUP = 0x2000"

lemmas poll_bits = POLLIN_def POLLPRI_def POLLOUT_def POLLERR_def POLLHUP_def POLLNVAL_def POLLRDHUP_def

definition kNoneEvent :: events where "kNoneEvent = 0"
definition kReadEvent :: events where "kReadEvent = POLLIN OR POLLPRI"
definition kWriteEvent :: events where "kWriteEvent = POLLOUT"

definition has_event :: "events \<Rightarrow> events \<Rightarrow> bool" where
  "has_event m b \<longleftrightarrow> m AND b \<noteq> 0"

section \<open>The channel\<close>

text \<open>\<open>ch_tie\<close> is the object a weak pointer refers to.\<close>

record 'cb channel =
  ch_fd :: int
  ch_events :: events
  ch_revents :: events
  ch_index :: int
  ch_tied :: bool
  ch_tie :: "nat option"
  ch_read_callback :: "'cb option"
  ch_write_callback :: "'cb option"
  ch_close_callback :: "'cb option"
  ch_error_callback :: "'cb option"

definition Channel_ctor :: "int \<Rightarrow> 'cb channel res" where
  "Channel_ctor fd = cpp_assert (fd \<ge> 0)
     (Inr \<lparr>ch_fd = fd, ch_events = kNoneEvent, ch_revents = kNoneEvent, ch_index = - 1, ch_tied = False,
           ch_tie = None, ch_read_callback = None, ch_write_callback = None,
           ch_close_callback = None, ch_error_callback = None\<rparr>)"

definition IsNoneEvent :: "'cb channel \<Rightarrow> bool" where
  "IsNoneEvent c \<longleftrightarrow> ch_events c = kNoneEvent"

definition IsReading :: "'cb channel \<Rightarrow> bool" where
  "IsReading c \<longleftrightarrow> has_event (ch_events c) kReadEvent"

definition IsWriting :: "'cb channel \<Rightarrow> bool" where
  "IsWriting c \<longleftrightarrow> has_event (ch_events c) kWriteEvent"

definition SetTie :: "nat \<Rightarrow> 'cb channel \<Rightarrow> 'cb channel" where
  "SetTie obj c = c\<lparr>ch_tie := Some obj, ch_tied := True\<rparr>"

definition SetRevents :: "events \<Rightarrow> 'cb channel \<Rightarrow> 'cb channel" where
  "SetRevents revents c = c\<lparr>ch_revents := revents\<rparr>"

definition Channel_SetReadCallback :: "'cb option \<Rightarrow> 'cb channel \<Rightarrow> 'cb channel" where
  "Channel_SetReadCallback cb c = c\<lparr>ch_read_callback := cb\<rparr>"

definition Channel_SetWriteCallback :: "'cb option \<Rightarrow> 'cb channel \<Rightarrow> 'cb channel" where
  "Channel_SetWriteCallback cb c = c\<lparr>ch_write_callback := cb\<rparr>"

definition Channel_SetCloseCallback :: "'cb option \<Rightarrow> 'cb channel \<Rightarrow> 'cb channel" where
  "Channel_SetCloseCallback cb c = c\<lparr>ch_close_callback := cb\<rparr>"

definition Channel_SetErrorCallback :: "'cb option \<Rightarrow> 'cb channel \<Rightarrow> 'cb channel" where
  "Channel_SetErrorCallback cb c = c\<lparr>ch_error_callback := cb\<rparr>"

section \<open>Printing a mask\<close>

text \<open>The names in the order of the tests, and the \<open>append\<close> closure with its \<open>first\<close> flag.\<close>

definition event_names :: "(events \<times> string) list" where
  "event_names = [(POLLIN, ''IN''), (POLLPRI, ''PRI''), (POLLOUT, ''OUT''), (POLLHUP, ''HUP''),
     (POLLRDHUP, ''RDHUP''), (POLLERR, ''ERR''), (POLLNVAL, ''NVAL'')]"

fun append_names :: "events \<Rightarrow> (events \<times> string) list \<Rightarrow> bool \<Rightarrow> string \<Rightarrow> string" where
  "append_names m [] is_first oss = oss"
| "append_names m ((b, n) # rest) is_first oss =
     (if has_event m b
      then append_names m rest False ((if is_first then oss else oss @ '' '') @ n)
      else append_names m rest is_first oss)"

definition EventsToString :: "events \<Rightarrow> string" where
  "EventsToString m =
     ''['' @ (if m = 0 then ''none'' else append_names m event_names True '''') @ '']''"

section \<open>Dispatch\<close>

text \<open>One of the four tests of \<open>HandleEventWithGuard\<close>: \<open>m_revents\<close> and the callback are members, read
  when the test is reached.\<close>

definition dispatch ::
  "('s \<Rightarrow> 'cb channel option) \<Rightarrow> ('cb \<Rightarrow> 's \<Rightarrow> 's res) \<Rightarrow> (events \<Rightarrow> bool) \<Rightarrow>
   ('cb channel \<Rightarrow> 'cb option) \<Rightarrow> 's \<Rightarrow> 's res" where
  "dispatch get run cond sel s =
     (case get s of
        None \<Rightarrow> Inl UseAfterFree
      | Some c \<Rightarrow>
          if cond (ch_revents c)
          then (case sel c of None \<Rightarrow> Inr s | Some cb \<Rightarrow> run cb s)
          else Inr s)"

definition closes :: "events \<Rightarrow> bool" where
  "closes r \<longleftrightarrow> has_event r POLLHUP \<and> \<not> has_event r POLLIN"

definition fails :: "events \<Rightarrow> bool" where
  "fails r \<longleftrightarrow> has_event r POLLERR \<or> has_event r POLLNVAL"

definition reads :: "events \<Rightarrow> bool" where
  "reads r \<longleftrightarrow> has_event r POLLIN \<or> has_event r POLLPRI \<or> has_event r POLLRDHUP"

definition writes :: "events \<Rightarrow> bool" where
  "writes r \<longleftrightarrow> has_event r POLLOUT"

text \<open>\<open>call t cb\<close> runs \<open>cb\<close>; \<open>t\<close> is the receive time, which only the read callback gets.\<close>

definition HandleEventWithGuard ::
  "('s \<Rightarrow> 'cb channel option) \<Rightarrow> (int option \<Rightarrow> 'cb \<Rightarrow> 's \<Rightarrow> 's res) \<Rightarrow> int \<Rightarrow> 's \<Rightarrow> 's res" where
  "HandleEventWithGuard get call receive_time s =
     rbind (dispatch get (call None) closes ch_close_callback s) (\<lambda>s.
     rbind (dispatch get (call None) fails ch_error_callback s) (\<lambda>s.
     rbind (dispatch get (call (Some receive_time)) reads ch_read_callback s) (\<lambda>s.
       dispatch get (call None) writes ch_write_callback s)))"

text \<open>\<open>alive s obj\<close>: the object a tie refers to still exists, so \<open>lock()\<close> succeeds.\<close>

definition HandleEvent ::
  "('s \<Rightarrow> nat \<Rightarrow> bool) \<Rightarrow> ('s \<Rightarrow> 'cb channel option) \<Rightarrow> (int option \<Rightarrow> 'cb \<Rightarrow> 's \<Rightarrow> 's res) \<Rightarrow> int \<Rightarrow>
   's \<Rightarrow> 's res" where
  "HandleEvent alive get call receive_time s =
     (case get s of
        None \<Rightarrow> Inl UseAfterFree
      | Some c \<Rightarrow>
          if ch_tied c
          then (if (case ch_tie c of None \<Rightarrow> False | Some obj \<Rightarrow> alive s obj)
                then HandleEventWithGuard get call receive_time s else Inr s)
          else HandleEventWithGuard get call receive_time s)"

section \<open>What is dispatched\<close>

text \<open>The callbacks a mask selects, in order, with the argument each of them gets.\<close>

definition dispatch_plan :: "int \<Rightarrow> 'cb channel \<Rightarrow> (int option \<times> 'cb) list" where
  "dispatch_plan t c =
     (let r = ch_revents c;
          pick = (\<lambda>cond arg sel. if cond r then (case sel c of None \<Rightarrow> [] | Some cb \<Rightarrow> [(arg, cb)]) else [])
      in pick closes None ch_close_callback @ pick fails None ch_error_callback
         @ pick reads (Some t) ch_read_callback @ pick writes None ch_write_callback)"

fun run_plan :: "('a \<Rightarrow> 'b \<Rightarrow> 's \<Rightarrow> 's res) \<Rightarrow> ('a \<times> 'b) list \<Rightarrow> 's \<Rightarrow> 's res" where
  "run_plan call [] s = Inr s"
| "run_plan call ((t, cb) # plan) s = rbind (call t cb s) (run_plan call plan)"

lemma run_plan_append: "run_plan call (xs @ ys) s = rbind (run_plan call xs s) (run_plan call ys)"
  by (induction call xs s rule: run_plan.induct) (auto simp: rbind_def split: sum.splits)

text \<open>Callbacks that keep the channel, though not necessarily its registered events.\<close>

definition keeps_dispatch :: "('s \<Rightarrow> 'cb channel option) \<Rightarrow> (int option \<Rightarrow> 'cb \<Rightarrow> 's \<Rightarrow> 's res) \<Rightarrow> bool" where
  "keeps_dispatch get call \<longleftrightarrow>
     (\<forall>t cb s s' c. get s = Some c \<and> call t cb s = Inr s' \<longrightarrow>
        (\<exists>c'. get s' = Some c' \<and> ch_revents c' = ch_revents c
            \<and> ch_read_callback c' = ch_read_callback c \<and> ch_write_callback c' = ch_write_callback c
            \<and> ch_close_callback c' = ch_close_callback c \<and> ch_error_callback c' = ch_error_callback c))"

definition same_dispatch :: "'cb channel \<Rightarrow> 'cb channel \<Rightarrow> bool" where
  "same_dispatch c c' \<longleftrightarrow> ch_revents c' = ch_revents c
     \<and> ch_read_callback c' = ch_read_callback c \<and> ch_write_callback c' = ch_write_callback c
     \<and> ch_close_callback c' = ch_close_callback c \<and> ch_error_callback c' = ch_error_callback c"

lemma dispatch_step:
  assumes "keeps_dispatch get call" and "get s = Some c'" and "same_dispatch c c'"
    and "sel c' = sel c"
    and "\<And>s c'. get s = Some c' \<Longrightarrow> same_dispatch c c' \<Longrightarrow> k s = run_plan call plan s"
  shows "rbind (dispatch get (call t) cond sel s) k =
    run_plan call ((if cond (ch_revents c) then (case sel c of None \<Rightarrow> [] | Some cb \<Rightarrow> [(t, cb)]) else []) @ plan) s"
proof (cases "cond (ch_revents c) \<and> sel c \<noteq> None")
  case True
  then obtain cb where cb: "sel c = Some cb" by blast
  have "k s' = run_plan call plan s'" if "call t cb s = Inr s'" for s'
  proof -
    obtain c2 where "get s' = Some c2" "same_dispatch c' c2"
      using assms(1,2) \<open>call t cb s = Inr s'\<close> unfolding keeps_dispatch_def same_dispatch_def by metis
    moreover from this have "same_dispatch c c2" using assms(3) by (simp add: same_dispatch_def)
    ultimately show ?thesis by (intro assms(5))
  qed
  then show ?thesis using True cb assms(2-4)
    by (cases "call t cb s") (simp_all add: dispatch_def same_dispatch_def)
next
  case False
  then show ?thesis using assms(2-5) by (auto simp: dispatch_def same_dispatch_def split: option.splits)
qed

lemma same_dispatch_refl [simp]: "same_dispatch c c"
  by (simp add: same_dispatch_def)

lemma guard_runs_plan:
  assumes "keeps_dispatch get call" and "get s = Some c"
  shows "HandleEventWithGuard get call t s = run_plan call (dispatch_plan t c) s"
proof -
  note step = dispatch_step [OF assms(1)]
  have 4: "dispatch get (call None) writes ch_write_callback s =
      run_plan call (if writes (ch_revents c) then
        (case ch_write_callback c of None \<Rightarrow> [] | Some cb \<Rightarrow> [(None, cb)]) else []) s"
    if "get s = Some c'" "same_dispatch c c'" for s c'
    using step [OF that, where k = Inr and plan = "[]" and t = None and cond = writes and sel = ch_write_callback] that
    by (simp add: same_dispatch_def rbind_def split: sum.splits)
  have 3: "rbind (dispatch get (call (Some t)) reads ch_read_callback s)
        (\<lambda>s. dispatch get (call None) writes ch_write_callback s) =
      run_plan call ((if reads (ch_revents c) then
        (case ch_read_callback c of None \<Rightarrow> [] | Some cb \<Rightarrow> [(Some t, cb)]) else [])
       @ (if writes (ch_revents c) then
        (case ch_write_callback c of None \<Rightarrow> [] | Some cb \<Rightarrow> [(None, cb)]) else [])) s"
    if "get s = Some c'" "same_dispatch c c'" for s c'
    by (rule step [OF that _ 4]) (use that in \<open>simp_all add: same_dispatch_def\<close>)
  have 2: "rbind (dispatch get (call None) fails ch_error_callback s) (\<lambda>s.
        rbind (dispatch get (call (Some t)) reads ch_read_callback s)
          (\<lambda>s. dispatch get (call None) writes ch_write_callback s)) =
      run_plan call ((if fails (ch_revents c) then
        (case ch_error_callback c of None \<Rightarrow> [] | Some cb \<Rightarrow> [(None, cb)]) else [])
       @ ((if reads (ch_revents c) then
        (case ch_read_callback c of None \<Rightarrow> [] | Some cb \<Rightarrow> [(Some t, cb)]) else [])
       @ (if writes (ch_revents c) then
        (case ch_write_callback c of None \<Rightarrow> [] | Some cb \<Rightarrow> [(None, cb)]) else []))) s"
    if "get s = Some c'" "same_dispatch c c'" for s c'
    by (rule step [OF that _ 3]) (use that in \<open>simp_all add: same_dispatch_def\<close>)
  show ?thesis
    unfolding HandleEventWithGuard_def dispatch_plan_def Let_def
    by (rule step [OF assms(2) same_dispatch_refl _ 2]) simp_all
qed

lemma append_names_join:
  "append_names m ns is_first oss =
     (let picked = map snd (filter (\<lambda>(b, n). has_event m b) ns) in
      if picked = [] then oss
      else oss @ (if is_first then '''' else '' '') @ concat (map (\<lambda>n. n @ '' '') (butlast picked)) @ last picked)"
proof (induction m ns is_first oss rule: append_names.induct)
  case (2 m b n rest is_first oss)
  then show ?case by (cases "map snd (filter (\<lambda>(b, n). has_event m b) rest)") (auto simp: Let_def)
qed simp

section \<open>Properties\<close>

lemma HandleEvent_plan:
  assumes "keeps_dispatch get call" and "get s = Some c"
  shows "HandleEvent alive get call t s =
    (if ch_tied c \<and> \<not> (\<exists>obj. ch_tie c = Some obj \<and> alive s obj) then Inr s
     else run_plan call (dispatch_plan t c) s)"
  using guard_runs_plan [OF assms] assms(2) by (auto simp: HandleEvent_def split: option.splits)

text \<open>
  \<open>HandleEvent\<close> runs, for a channel whose tied object is alive or that is not tied, exactly the
  callbacks its \<open>revents\<close> select, in the order close, error, read, write, each at most once and
  only the read callback with the receive time, whatever the callbacks do to the rest of the
  state; the first failure ends the dispatch. The close callback is selected by a hang-up
  without input only: with input pending it is left to the read callback to find the end of the
  stream. If the tied object is gone, nothing runs.
\<close>

theorem HandleEvent_dispatch:
  assumes "keeps_dispatch get call" and "get s = Some c"
  shows "HandleEvent alive get call t s =
    (if ch_tied c \<and> \<not> (\<exists>obj. ch_tie c = Some obj \<and> alive s obj) then Inr s
     else run_plan call (dispatch_plan t c) s)"
  by (rule HandleEvent_plan [OF assms])

definition sample_channel :: "string channel" where
  "sample_channel = \<lparr>ch_fd = 4, ch_events = kReadEvent, ch_revents = POLLHUP OR POLLIN OR POLLOUT OR POLLERR,
     ch_index = 1, ch_tied = True, ch_tie = Some 7, ch_read_callback = Some ''read'',
     ch_write_callback = Some ''write'', ch_close_callback = Some ''close'', ch_error_callback = Some ''error''\<rparr>"

theorem HandleEvent_dispatch_witness:
  "HandleEvent (\<lambda>s obj. obj = 7) (\<lambda>_. Some sample_channel) (\<lambda>t cb log. Inr (log @ [(t, cb)])) 99 []
     = Inr [(None, ''error''), (Some 99, ''read''), (None, ''write'')]"
proof -
  have "keeps_dispatch (\<lambda>_. Some sample_channel) (\<lambda>t cb log. Inr (log @ [(t, cb)]))"
    by (simp add: keeps_dispatch_def)
  from HandleEvent_dispatch [OF this refl, of "\<lambda>s obj. obj = 7" 99 "[]"] show ?thesis
    by (simp add: sample_channel_def dispatch_plan_def closes_def fails_def reads_def writes_def
        has_event_def poll_bits)
qed

end
