(* ===== verification/Epoll_Poller.thy ===== *)
theory Epoll_Poller
  imports Channel
begin

text \<open>
  \<open>net/poller.{h,cpp}\<close>, \<open>net/epoll_poller.{h,cpp}\<close> and the members of \<open>net/channel.h\<close> that reach
  them. Channels live in a heap and are known by their address, as \<open>Channel*\<close> is; the poller maps
  descriptors to addresses. The calls of \<open>epoll_ctl\<close> are recorded in order (their result is only
  logged by the code); \<open>interest_of\<close> replays them by the documented behaviour of the kernel.
  \<open>epoll_wait\<close> is a parameter of \<open>Poll\<close>. The loop-thread checks only log and are not modelled.
\<close>

section \<open>State\<close>

datatype epoll_op = EPOLL_CTL_ADD | EPOLL_CTL_DEL | EPOLL_CTL_MOD

type_synonym chan_ptr = nat
type_synonym ctl_call = "epoll_op \<times> int \<times> events \<times> chan_ptr"

record 'cb poll_state =
  chan_heap :: "chan_ptr \<rightharpoonup> 'cb channel"
  m_channels :: "int \<rightharpoonup> chan_ptr"
  m_events_size :: nat
  ctl_calls :: "ctl_call list"

definition kNew :: int where "kNew = - 1"
definition kAdded :: int where "kAdded = 1"
definition kDeleted :: int where "kDeleted = 2"

lemmas index_defs = kNew_def kAdded_def kDeleted_def

lemma index_distinct [simp]:
  "kNew \<noteq> kAdded" "kNew \<noteq> kDeleted" "kAdded \<noteq> kNew" "kAdded \<noteq> kDeleted" "kDeleted \<noteq> kNew" "kDeleted \<noteq> kAdded"
  by (simp_all add: index_defs)

definition kInitEventListSize :: nat where
  "kInitEventListSize = 16"

definition EpollPoller_ctor :: "'cb poll_state" where
  "EpollPoller_ctor = \<lparr>chan_heap = Map.empty, m_channels = Map.empty,
     m_events_size = kInitEventListSize, ctl_calls = []\<rparr>"

text \<open>\<open>channel->...\<close>: reading or writing a member of a channel.\<close>

definition with_channel :: "chan_ptr \<Rightarrow> 'cb poll_state \<Rightarrow> ('cb channel \<Rightarrow> 'a res) \<Rightarrow> 'a res" where
  "with_channel p s k = (case chan_heap s p of None \<Rightarrow> Inl UseAfterFree | Some c \<Rightarrow> k c)"

definition put_channel :: "chan_ptr \<Rightarrow> 'cb channel \<Rightarrow> 'cb poll_state \<Rightarrow> 'cb poll_state" where
  "put_channel p c s = s\<lparr>chan_heap := (chan_heap s)(p \<mapsto> c)\<rparr>"

section \<open>EpollPoller\<close>

definition EpollPoller_Update :: "epoll_op \<Rightarrow> chan_ptr \<Rightarrow> 'cb channel \<Rightarrow> 'cb poll_state \<Rightarrow> 'cb poll_state" where
  "EpollPoller_Update oper p c s = s\<lparr>ctl_calls := ctl_calls s @ [(oper, ch_fd c, ch_events c, p)]\<rparr>"

definition UpdateChannel :: "chan_ptr \<Rightarrow> 'cb poll_state \<Rightarrow> 'cb poll_state res" where
  "UpdateChannel p s = with_channel p s (\<lambda>c.
     if ch_index c = kNew \<or> ch_index c = kDeleted
     then rbind (if ch_index c = kNew
                 then cpp_assert (m_channels s (ch_fd c) = None)
                        (Inr (s\<lparr>m_channels := (m_channels s)(ch_fd c \<mapsto> p)\<rparr>))
                 else Inr s) (\<lambda>s.
            if \<not> IsNoneEvent c
            then Inr (put_channel p (c\<lparr>ch_index := kAdded\<rparr>) (EpollPoller_Update EPOLL_CTL_ADD p c s))
            else Inr s)
     else cpp_assert (ch_index c = kAdded)
            (if IsNoneEvent c
             then Inr (put_channel p (c\<lparr>ch_index := kDeleted\<rparr>) (EpollPoller_Update EPOLL_CTL_DEL p c s))
             else Inr (EpollPoller_Update EPOLL_CTL_MOD p c s)))"

definition RemoveChannel :: "chan_ptr \<Rightarrow> 'cb poll_state \<Rightarrow> 'cb poll_state res" where
  "RemoveChannel p s = with_channel p s (\<lambda>c.
     cpp_assert (IsNoneEvent c)
       (cpp_assert (m_channels s (ch_fd c) \<noteq> None)
         (let s1 = s\<lparr>m_channels := (m_channels s)(ch_fd c := None)\<rparr>;
              s2 = (if ch_index c = kAdded then EpollPoller_Update EPOLL_CTL_DEL p c s1 else s1)
          in Inr (put_channel p (c\<lparr>ch_index := kNew\<rparr>) s2))))"

definition HasChannel :: "chan_ptr option \<Rightarrow> 'cb poll_state \<Rightarrow> bool res" where
  "HasChannel ptr s =
     (case ptr of
        None \<Rightarrow> Inr False
      | Some p \<Rightarrow> with_channel p s (\<lambda>c. Inr (m_channels s (ch_fd c) = Some p)))"

text \<open>\<open>Poll\<close>: \<open>ready\<close> is what \<open>epoll_wait\<close> put into \<open>m_events\<close>, empty when it timed out or failed; the
  loop marks each channel and collects the pointers in order.\<close>

fun poll_fill :: "(events \<times> chan_ptr) list \<Rightarrow> chan_ptr list \<Rightarrow> 'cb poll_state \<Rightarrow>
    (chan_ptr list \<times> 'cb poll_state) res" where
  "poll_fill [] active s = Inr (active, s)"
| "poll_fill ((ev, p) # ready) active s =
     with_channel p s (\<lambda>c. poll_fill ready (active @ [p]) (put_channel p (c\<lparr>ch_revents := ev\<rparr>) s))"

definition EpollPoller_Poll :: "(nat \<Rightarrow> (events \<times> chan_ptr) list) \<Rightarrow> 'cb poll_state \<Rightarrow>
    (chan_ptr list \<times> 'cb poll_state) res" where
  "EpollPoller_Poll epoll_wait s =
     (let ready = epoll_wait (m_events_size s) in
      rmap (\<lambda>(active, s').
          (active, if 0 < length ready \<and> length ready = m_events_size s'
                   then s'\<lparr>m_events_size := m_events_size s' * 2\<rparr> else s'))
        (poll_fill ready [] s))"

definition OperationToString :: "epoll_op \<Rightarrow> string" where
  "OperationToString oper =
     (case oper of EPOLL_CTL_ADD \<Rightarrow> ''ADD'' | EPOLL_CTL_DEL \<Rightarrow> ''DEL'' | EPOLL_CTL_MOD \<Rightarrow> ''MOD'')"

section \<open>The members of Channel that reach the poller\<close>

text \<open>Construction at a free address, and destruction with its assertions.\<close>

definition new_channel :: "chan_ptr \<Rightarrow> int \<Rightarrow> 'cb poll_state \<Rightarrow> 'cb poll_state res" where
  "new_channel p fd s = rmap (\<lambda>c. put_channel p c s) (Channel_ctor fd)"

definition Channel_dtor :: "chan_ptr \<Rightarrow> 'cb poll_state \<Rightarrow> 'cb poll_state res" where
  "Channel_dtor p s = with_channel p s (\<lambda>c.
     cpp_assert (IsNoneEvent c) (cpp_assert (ch_index c = - 1)
       (Inr (s\<lparr>chan_heap := (chan_heap s)(p := None)\<rparr>))))"

text \<open>\<open>m_events = f(m_events); Update();\<close>\<close>

definition Channel_set_events :: "(events \<Rightarrow> events) \<Rightarrow> chan_ptr \<Rightarrow> 'cb poll_state \<Rightarrow> 'cb poll_state res" where
  "Channel_set_events f p s = with_channel p s (\<lambda>c.
     UpdateChannel p (put_channel p (c\<lparr>ch_events := f (ch_events c)\<rparr>) s))"

definition EnableReading :: "chan_ptr \<Rightarrow> 'cb poll_state \<Rightarrow> 'cb poll_state res" where
  "EnableReading p s = Channel_set_events (\<lambda>m. m OR kReadEvent) p s"

definition DisableReading :: "chan_ptr \<Rightarrow> 'cb poll_state \<Rightarrow> 'cb poll_state res" where
  "DisableReading p s = Channel_set_events (\<lambda>m. m AND NOT kReadEvent) p s"

definition EnableWriting :: "chan_ptr \<Rightarrow> 'cb poll_state \<Rightarrow> 'cb poll_state res" where
  "EnableWriting p s = Channel_set_events (\<lambda>m. m OR kWriteEvent) p s"

definition DisableWriting :: "chan_ptr \<Rightarrow> 'cb poll_state \<Rightarrow> 'cb poll_state res" where
  "DisableWriting p s = Channel_set_events (\<lambda>m. m AND NOT kWriteEvent) p s"

definition DisableAll :: "chan_ptr \<Rightarrow> 'cb poll_state \<Rightarrow> 'cb poll_state res" where
  "DisableAll p s = Channel_set_events (\<lambda>m. kNoneEvent) p s"

definition Channel_Remove :: "chan_ptr \<Rightarrow> 'cb poll_state \<Rightarrow> 'cb poll_state res" where
  "Channel_Remove p s = with_channel p s (\<lambda>c. cpp_assert (IsNoneEvent c) (RemoveChannel p s))"

lemmas channel_op_defs = EnableReading_def DisableReading_def EnableWriting_def DisableWriting_def DisableAll_def

section \<open>The kernel's interest list\<close>

text \<open>\<open>epoll_ctl\<close> as documented: adding a descriptor that is there fails with \<open>EEXIST\<close>, modifying or
  deleting one that is not fails with \<open>ENOENT\<close>.\<close>

type_synonym interest = "int \<rightharpoonup> events \<times> chan_ptr"

fun epoll_ctl :: "ctl_call \<Rightarrow> interest \<Rightarrow> interest option" where
  "epoll_ctl (EPOLL_CTL_ADD, fd, ev, p) i = (if i fd = None then Some (i(fd \<mapsto> (ev, p))) else None)"
| "epoll_ctl (EPOLL_CTL_MOD, fd, ev, p) i = (if i fd = None then None else Some (i(fd \<mapsto> (ev, p))))"
| "epoll_ctl (EPOLL_CTL_DEL, fd, ev, p) i = (if i fd = None then None else Some (i(fd := None)))"

definition interest_of :: "ctl_call list \<Rightarrow> interest option" where
  "interest_of calls = fold (\<lambda>c i. Option.bind i (epoll_ctl c)) calls (Some Map.empty)"

lemma interest_of_snoc [simp]: "interest_of (calls @ [c]) = Option.bind (interest_of calls) (epoll_ctl c)"
  by (simp add: interest_of_def)

lemma interest_of_Nil [simp]: "interest_of [] = Some Map.empty"
  by (simp add: interest_of_def)

text \<open>What the poller means to watch: the channels marked \<open>kAdded\<close>, with their events.\<close>

definition watched :: "'cb poll_state \<Rightarrow> interest" where
  "watched s fd =
     (case m_channels s fd of
        None \<Rightarrow> None
      | Some p \<Rightarrow> (case chan_heap s p of
          None \<Rightarrow> None
        | Some c \<Rightarrow> if ch_index c = kAdded then Some (ch_events c, p) else None))"

section \<open>Invariant\<close>

definition channel_ok :: "'cb poll_state \<Rightarrow> chan_ptr \<Rightarrow> 'cb channel \<Rightarrow> bool" where
  "channel_ok s p c \<longleftrightarrow>
     (ch_index c = kNew \<or> ch_index c = kAdded \<or> ch_index c = kDeleted)
     \<and> (ch_index c \<noteq> kNew \<longrightarrow> m_channels s (ch_fd c) = Some p)
     \<and> (ch_index c = kAdded \<longleftrightarrow> ch_events c \<noteq> kNoneEvent)"

definition poller_inv :: "'cb poll_state \<Rightarrow> bool" where
  "poller_inv s \<longleftrightarrow>
     (\<forall>p c. chan_heap s p = Some c \<longrightarrow> channel_ok s p c)
     \<and> (\<forall>fd p. m_channels s fd = Some p \<longrightarrow> (\<exists>c. chan_heap s p = Some c \<and> ch_fd c = fd))
     \<and> interest_of (ctl_calls s) = Some (watched s)"

lemma poller_inv_ctor [simp]: "poller_inv EpollPoller_ctor"
  by (simp add: poller_inv_def EpollPoller_ctor_def watched_def fun_eq_iff)

lemma poller_invD:
  assumes "poller_inv s"
  shows "chan_heap s p = Some c \<Longrightarrow> channel_ok s p c"
    and "m_channels s fd = Some p \<Longrightarrow> \<exists>c. chan_heap s p = Some c \<and> ch_fd c = fd"
    and "interest_of (ctl_calls s) = Some (watched s)"
  using assms by (auto simp: poller_inv_def)

text \<open>A channel can be updated when it is registered under its own name, or when it is new and its
  descriptor is free.\<close>

definition usable :: "'cb poll_state \<Rightarrow> chan_ptr \<Rightarrow> bool" where
  "usable s p \<longleftrightarrow> (\<exists>c. chan_heap s p = Some c \<and> (ch_index c \<noteq> kNew \<or> m_channels s (ch_fd c) = None))"

definition next_index :: "int \<Rightarrow> events \<Rightarrow> int" where
  "next_index i ev = (if ev \<noteq> kNoneEvent then kAdded else if i = kNew then kNew else kDeleted)"

definition next_call :: "int \<Rightarrow> events \<Rightarrow> epoll_op list" where
  "next_call i ev =
     (if i = kAdded then [if ev = kNoneEvent then EPOLL_CTL_DEL else EPOLL_CTL_MOD]
      else if ev = kNoneEvent then [] else [EPOLL_CTL_ADD])"

lemma keep_index: "ch_index c = i \<Longrightarrow> c\<lparr>ch_events := ev, ch_index := i\<rparr> = c\<lparr>ch_events := ev\<rparr>"
  by (cases c) simp

lemma set_events_eq:
  assumes "poller_inv s" and "usable s p" and "chan_heap s p = Some c"
  shows "Channel_set_events f p s = Inr (s\<lparr>
      chan_heap := (chan_heap s)(p \<mapsto> c\<lparr>ch_events := f (ch_events c), ch_index := next_index (ch_index c) (f (ch_events c))\<rparr>),
      m_channels := (m_channels s)(ch_fd c \<mapsto> p),
      ctl_calls := ctl_calls s @ map (\<lambda>oper. (oper, ch_fd c, f (ch_events c), p)) (next_call (ch_index c) (f (ch_events c)))\<rparr>)"
proof -
  have idx: "ch_index c = kNew \<or> ch_index c = kAdded \<or> ch_index c = kDeleted"
    and reg: "ch_index c \<noteq> kNew \<Longrightarrow> m_channels s (ch_fd c) = Some p"
    using poller_invD(1) [OF assms(1,3)] by (auto simp: channel_ok_def)
  have new: "ch_index c = kNew \<Longrightarrow> m_channels s (ch_fd c) = None"
    using assms(2,3) by (auto simp: usable_def)
  have same: "m_channels s (ch_fd c) = Some p \<Longrightarrow> (m_channels s)(ch_fd c \<mapsto> p) = m_channels s"
    by (rule fun_upd_idem)
  from idx show ?thesis
    using assms(3) reg new same
    by (elim disjE)
      (auto simp: Channel_set_events_def UpdateChannel_def with_channel_def put_channel_def
        EpollPoller_Update_def IsNoneEvent_def next_index_def next_call_def keep_index)
qed

lemma watched_change:
  assumes "poller_inv s" and "chan_heap s p = Some c" and "ch_fd c' = ch_fd c"
    and "m_channels s (ch_fd c) = Some p \<or> m_channels s (ch_fd c) = None"
  shows "watched (s\<lparr>chan_heap := (chan_heap s)(p \<mapsto> c'), m_channels := (m_channels s)(ch_fd c := r)\<rparr>) =
    (watched s)(ch_fd c := (if r = Some p \<and> ch_index c' = kAdded then Some (ch_events c', p)
       else if r = Some p then None else watched (s\<lparr>chan_heap := (chan_heap s)(p \<mapsto> c'),
         m_channels := (m_channels s)(ch_fd c := r)\<rparr>) (ch_fd c)))"
proof
  fix fd
  show "watched (s\<lparr>chan_heap := (chan_heap s)(p \<mapsto> c'), m_channels := (m_channels s)(ch_fd c := r)\<rparr>) fd =
    ((watched s)(ch_fd c := (if r = Some p \<and> ch_index c' = kAdded then Some (ch_events c', p)
       else if r = Some p then None else watched (s\<lparr>chan_heap := (chan_heap s)(p \<mapsto> c'),
         m_channels := (m_channels s)(ch_fd c := r)\<rparr>) (ch_fd c)))) fd"
  proof (cases "fd = ch_fd c")
    case True
    then show ?thesis by (auto simp: watched_def)
  next
    case False
    moreover have "m_channels s fd \<noteq> Some p"
      using False poller_invD(2) [OF assms(1), of fd p] assms(2) by auto
    ultimately show ?thesis by (auto simp: watched_def split: option.splits)
  qed
qed

lemma watched_calls [simp]: "watched (s\<lparr>ctl_calls := x\<rparr>) = watched s"
  by (auto simp: watched_def fun_eq_iff split: option.splits)

lemma watched_own:
  assumes "poller_inv s" and "chan_heap s p = Some c" and "usable s p"
  shows "watched s (ch_fd c) = (if ch_index c = kAdded then Some (ch_events c, p) else None)"
  using poller_invD(1) [OF assms(1,2)] assms(2,3)
  by (auto simp: watched_def channel_ok_def usable_def)

lemma set_events_inv:
  assumes "poller_inv s" and "usable s p" and "chan_heap s p = Some c"
    and "Channel_set_events f p s = Inr s'"
  shows "poller_inv s'"
    and "watched s' = (watched s)(ch_fd c := if f (ch_events c) = kNoneEvent then None else Some (f (ch_events c), p))"
proof -
  let ?ev = "f (ch_events c)"
  let ?c' = "c\<lparr>ch_events := ?ev, ch_index := next_index (ch_index c) ?ev\<rparr>"
  let ?s1 = "s\<lparr>chan_heap := (chan_heap s)(p \<mapsto> ?c'), m_channels := (m_channels s)(ch_fd c \<mapsto> p)\<rparr>"
  note ok = poller_invD(1) [OF assms(1,3)]
  have s': "s' = ?s1\<lparr>ctl_calls := ctl_calls s @
      map (\<lambda>oper. (oper, ch_fd c, ?ev, p)) (next_call (ch_index c) ?ev)\<rparr>"
    using set_events_eq [OF assms(1-3), of f] assms(4) by simp
  have reg: "m_channels s (ch_fd c) = Some p \<or> m_channels s (ch_fd c) = None"
    using assms(2,3) ok by (auto simp: usable_def channel_ok_def)
  have w: "watched ?s1 = (watched s)(ch_fd c := if ?ev = kNoneEvent then None else Some (?ev, p))"
    using watched_change [OF assms(1,3) _ reg, of ?c' "Some p"] by (simp add: next_index_def)
  then show w': "watched s' = (watched s)(ch_fd c := if ?ev = kNoneEvent then None else Some (?ev, p))"
    by (simp add: s')
  have "interest_of (ctl_calls s') = Some (watched s')"
    using poller_invD(3) [OF assms(1)] watched_own [OF assms(1,3,2)] ok
    unfolding w' by (auto simp: s' next_call_def channel_ok_def fun_eq_iff)
  moreover have "channel_ok s' q d" if "chan_heap s' q = Some d" for q d
  proof (cases "q = p")
    case True
    then show ?thesis using that ok by (auto simp: s' channel_ok_def next_index_def)
  next
    case False
    with that have "channel_ok s q d" using poller_invD(1) [OF assms(1)] by (simp add: s')
    then show ?thesis using reg False by (auto simp: s' channel_ok_def)
  qed
  moreover have "\<exists>d. chan_heap s' q = Some d \<and> ch_fd d = fd" if "m_channels s' fd = Some q" for fd q
    using that poller_invD(2) [OF assms(1), of fd q] assms(3) by (auto simp: s' split: if_splits)
  ultimately show "poller_inv s'" by (simp add: poller_inv_def)
qed

lemma set_events_unusable:
  assumes "poller_inv s" and "chan_heap s p = Some c" and "\<not> usable s p"
  shows "Channel_set_events f p s = Inl AssertionFailed"
  using assms
  by (auto simp: usable_def Channel_set_events_def UpdateChannel_def with_channel_def put_channel_def)

lemma Remove_ok:
  assumes "poller_inv s" and "chan_heap s p = Some c" and "m_channels s (ch_fd c) = Some p"
    and "ch_events c = kNoneEvent"
    and s': "s' = s\<lparr>chan_heap := (chan_heap s)(p \<mapsto> c\<lparr>ch_index := kNew\<rparr>),
      m_channels := (m_channels s)(ch_fd c := None)\<rparr>"
  shows "Channel_Remove p s = Inr s'" and "poller_inv s'" and "watched s' = (watched s)(ch_fd c := None)"
proof -
  note ok = poller_invD(1) [OF assms(1,2)]
  then have idx: "ch_index c \<noteq> kAdded" using assms(4) by (simp add: channel_ok_def)
  then show "Channel_Remove p s = Inr s'"
    using assms(2-4)
    by (simp add: s' Channel_Remove_def RemoveChannel_def with_channel_def put_channel_def IsNoneEvent_def)
  have w: "watched s' = watched s"
  proof
    fix fd
    have "fd \<noteq> ch_fd c \<Longrightarrow> m_channels s fd \<noteq> Some p"
      using poller_invD(2) [OF assms(1), of fd p] assms(2) by auto
    then show "watched s' fd = watched s fd"
      using assms(2,3) idx by (auto simp: s' watched_def split: option.splits)
  qed
  moreover have "watched s (ch_fd c) = None" using assms(2,3) idx by (simp add: watched_def)
  ultimately show "watched s' = (watched s)(ch_fd c := None)" by (simp add: fun_upd_idem)
  show "poller_inv s'"
    unfolding poller_inv_def w
    using assms(2-4) poller_invD(1) [OF assms(1)] poller_invD(2) [OF assms(1)] poller_invD(3) [OF assms(1)]
    by (auto simp: s' channel_ok_def) (metis option.inject)+
qed

lemma new_channel_inv:
  assumes "poller_inv s" and "chan_heap s p = None" and "new_channel p fd s = Inr s'"
  shows "poller_inv s' \<and> watched s' = watched s \<and> m_channels s' = m_channels s
    \<and> (\<exists>c. chan_heap s' = (chan_heap s)(p \<mapsto> c) \<and> ch_fd c = fd \<and> ch_events c = kNoneEvent \<and> ch_index c = kNew)"
proof -
  from assms(3) obtain c where c: "s' = s\<lparr>chan_heap := (chan_heap s)(p \<mapsto> c)\<rparr>"
      "ch_fd c = fd" "ch_events c = kNoneEvent" "ch_index c = kNew"
    by (auto simp: new_channel_def Channel_ctor_def rmap_eq_Inr_iff cpp_assert_eq_Inr_iff put_channel_def kNew_def)
  have free: "m_channels s g \<noteq> Some p" for g using poller_invD(2) [OF assms(1), of g p] assms(2) by auto
  then have w: "watched s' = watched s" by (auto simp: c(1) watched_def fun_eq_iff split: option.splits)
  have "poller_inv s'"
    unfolding poller_inv_def w
    using poller_invD(1,2) [OF assms(1)] poller_invD(3) [OF assms(1)] assms(2) c free
    by (auto simp: channel_ok_def)
  then show ?thesis using w c by auto
qed

lemma dtor_inv:
  assumes "poller_inv s" and "Channel_dtor p s = Inr s'"
    and "\<And>fd. m_channels s fd \<noteq> Some p"
  shows "poller_inv s'" and "watched s' = watched s" and "s' = s\<lparr>chan_heap := (chan_heap s)(p := None)\<rparr>"
proof -
  show s': "s' = s\<lparr>chan_heap := (chan_heap s)(p := None)\<rparr>"
    using assms(2) by (auto simp: Channel_dtor_def with_channel_def cpp_assert_eq_Inr_iff split: option.splits)
  show w: "watched s' = watched s"
    using assms(3) by (auto simp: s' watched_def fun_eq_iff split: option.splits)
  show "poller_inv s'"
    unfolding poller_inv_def w
    using poller_invD(1,2) [OF assms(1)] poller_invD(3) [OF assms(1)] assms(3)
    by (auto simp: s' channel_ok_def)
qed

section \<open>The contract of a poller\<close>

text \<open>
  What \<open>Channel\<close> and \<open>EventLoop\<close> expect of a \<open>Poller\<close>, whatever multiplexer implements it: for a
  registered channel, changing its events and removing it succeed and have the obvious effect on
  what is watched. \<open>chan\<close> gives the descriptor and the events of a live channel.
\<close>

fun run_set_events :: "((events \<Rightarrow> events) \<Rightarrow> chan_ptr \<Rightarrow> 's \<Rightarrow> 's res) \<Rightarrow> (events \<Rightarrow> events) list \<Rightarrow> chan_ptr \<Rightarrow>
    's \<Rightarrow> 's res" where
  "run_set_events set_ev [] p s = Inr s"
| "run_set_events set_ev (f # fs) p s = rbind (set_ev f p s) (run_set_events set_ev fs p)"

locale poller =
  fixes inv :: "'s \<Rightarrow> bool"
    and chan :: "'s \<Rightarrow> chan_ptr \<rightharpoonup> int \<times> events"
    and names :: "'s \<Rightarrow> int \<rightharpoonup> chan_ptr"
    and registered :: "'s \<Rightarrow> chan_ptr \<Rightarrow> bool"
    and wat :: "'s \<Rightarrow> interest"
    and set_ev :: "(events \<Rightarrow> events) \<Rightarrow> chan_ptr \<Rightarrow> 's \<Rightarrow> 's res"
    and remove :: "chan_ptr \<Rightarrow> 's \<Rightarrow> 's res"
  assumes set_ev_ok: "inv s \<Longrightarrow> registered s p \<Longrightarrow> chan s p = Some (fd, m) \<Longrightarrow>
      \<exists>s'. set_ev f p s = Inr s' \<and> inv s' \<and> registered s' p \<and> chan s' = (chan s)(p \<mapsto> (fd, f m))
        \<and> names s' = names s \<and> wat s' = (wat s)(fd := if f m = kNoneEvent then None else Some (f m, p))"
    and remove_ok: "inv s \<Longrightarrow> registered s p \<Longrightarrow> chan s p = Some (fd, kNoneEvent) \<Longrightarrow>
      \<exists>s'. remove p s = Inr s' \<and> inv s' \<and> \<not> registered s' p \<and> chan s' = chan s
        \<and> names s' = (names s)(fd := None) \<and> wat s' = (wat s)(fd := None)"
begin

lemma run_set_events_ok:
  assumes "inv s" and "registered s p" and "chan s p = Some (fd, m)"
  shows "\<exists>s'. run_set_events set_ev fs p s = Inr s' \<and> inv s' \<and> registered s' p
    \<and> chan s' = (chan s)(p \<mapsto> (fd, fold (\<lambda>f. f) fs m)) \<and> names s' = names s
    \<and> (\<forall>g. g \<noteq> fd \<longrightarrow> wat s' g = wat s g)"
  using assms
proof (induction fs arbitrary: s m)
  case Nil
  then show ?case by (simp add: fun_upd_idem)
next
  case (Cons f fs)
  from set_ev_ok [OF Cons.prems, of f] obtain s1 where s1: "set_ev f p s = Inr s1" "inv s1"
    "registered s1 p" "chan s1 = (chan s)(p \<mapsto> (fd, f m))" "names s1 = names s"
    "wat s1 = (wat s)(fd := if f m = kNoneEvent then None else Some (f m, p))" by blast
  from Cons.IH [OF s1(2,3), of "f m"] s1 show ?case by (auto simp: fun_eq_iff)
qed

text \<open>The end of every channel: whatever was enabled and disabled, \<open>DisableAll\<close> and \<open>Remove\<close> succeed
  and leave nothing watched.\<close>

lemma retire:
  assumes "inv s" and "registered s p" and "chan s p = Some (fd, m)"
  shows "\<exists>s'. rbind (run_set_events set_ev fs p s) (\<lambda>s. rbind (set_ev (\<lambda>_. kNoneEvent) p s) (remove p)) = Inr s'
    \<and> inv s' \<and> \<not> registered s' p \<and> chan s' = (chan s)(p \<mapsto> (fd, kNoneEvent))
    \<and> names s' = (names s)(fd := None) \<and> wat s' = (wat s)(fd := None)"
proof -
  from run_set_events_ok [OF assms, of fs] obtain s1 where s1: "run_set_events set_ev fs p s = Inr s1"
    "inv s1" "registered s1 p" "chan s1 = (chan s)(p \<mapsto> (fd, fold (\<lambda>f. f) fs m))" "names s1 = names s"
    "\<forall>g. g \<noteq> fd \<longrightarrow> wat s1 g = wat s g" by blast
  from set_ev_ok [OF s1(2,3), of fd _ "\<lambda>_. kNoneEvent"] s1(4) obtain s2 where s2:
    "set_ev (\<lambda>_. kNoneEvent) p s1 = Inr s2" "inv s2" "registered s2 p"
    "chan s2 = (chan s)(p \<mapsto> (fd, kNoneEvent))" "names s2 = names s" "wat s2 = (wat s1)(fd := None)"
    using s1(5) by auto
  from remove_ok [OF s2(2,3)] s2(4) obtain s3 where s3: "remove p s2 = Inr s3" "inv s3" "\<not> registered s3 p"
    "chan s3 = chan s2" "names s3 = (names s2)(fd := None)" "wat s3 = (wat s2)(fd := None)" by auto
  have "wat s3 = (wat s)(fd := None)" using s1(6) s2(6) s3(6) by (auto simp: fun_eq_iff)
  then show ?thesis using s1(1) s2 s3 by simp
qed

end

definition chan_view :: "'cb poll_state \<Rightarrow> chan_ptr \<rightharpoonup> int \<times> events" where
  "chan_view s p = map_option (\<lambda>c. (ch_fd c, ch_events c)) (chan_heap s p)"

definition is_registered :: "'cb poll_state \<Rightarrow> chan_ptr \<Rightarrow> bool" where
  "is_registered s p \<longleftrightarrow> (\<exists>c. chan_heap s p = Some c \<and> ch_index c \<noteq> kNew)"

interpretation epoll: poller poller_inv chan_view m_channels is_registered watched Channel_set_events Channel_Remove
proof
  fix s :: "'cb poll_state" and p fd m f
  assume inv: "poller_inv s" and "is_registered s p" and "chan_view s p = Some (fd, m)"
  then obtain c where c: "chan_heap s p = Some c" "ch_index c \<noteq> kNew" "ch_fd c = fd" "ch_events c = m"
    by (auto simp: is_registered_def chan_view_def)
  then have "usable s p" by (auto simp: usable_def)
  note eq = set_events_eq [OF inv this c(1), of f]
  have "m_channels s fd = Some p" using poller_invD(1) [OF inv c(1)] c by (auto simp: channel_ok_def)
  then show "\<exists>s'. Channel_set_events f p s = Inr s' \<and> poller_inv s' \<and> is_registered s' p
      \<and> chan_view s' = (chan_view s)(p \<mapsto> (fd, f m)) \<and> m_channels s' = m_channels s
      \<and> watched s' = (watched s)(fd := if f m = kNoneEvent then None else Some (f m, p))"
    using eq set_events_inv [OF inv \<open>usable s p\<close> c(1) eq] c
    by (auto simp: is_registered_def chan_view_def next_index_def fun_eq_iff)
next
  fix s :: "'cb poll_state" and p fd
  assume inv: "poller_inv s" and "is_registered s p" and "chan_view s p = Some (fd, kNoneEvent)"
  then obtain c where c: "chan_heap s p = Some c" "ch_index c \<noteq> kNew" "ch_fd c = fd" "ch_events c = kNoneEvent"
    by (auto simp: is_registered_def chan_view_def)
  then have "m_channels s (ch_fd c) = Some p" using poller_invD(1) [OF inv c(1)] by (auto simp: channel_ok_def)
  from Remove_ok [OF inv c(1) this c(4) refl] show "\<exists>s'. Channel_Remove p s = Inr s' \<and> poller_inv s'
      \<and> \<not> is_registered s' p \<and> chan_view s' = chan_view s \<and> m_channels s' = (m_channels s)(fd := None)
      \<and> watched s' = (watched s)(fd := None)"
    using c by (auto simp: is_registered_def chan_view_def fun_eq_iff)
qed

section \<open>Polling\<close>

text \<open>The documented behaviour of \<open>epoll_wait\<close> used: at most as many events as there is room for, each
  for a descriptor in the interest list and with the pointer registered there, no descriptor
  twice.\<close>

definition wait_ok :: "'cb poll_state \<Rightarrow> (nat \<Rightarrow> (events \<times> chan_ptr) list) \<Rightarrow> bool" where
  "wait_ok s epoll_wait \<longleftrightarrow>
     (let ready = epoll_wait (m_events_size s) in
      length ready \<le> m_events_size s \<and> distinct (map snd ready)
      \<and> (\<forall>p \<in> set (map snd ready). \<exists>fd m. watched s fd = Some (m, p)))"

definition same_but_revents :: "'cb poll_state \<Rightarrow> 'cb poll_state \<Rightarrow> bool" where
  "same_but_revents s s' \<longleftrightarrow>
     m_channels s' = m_channels s \<and> ctl_calls s' = ctl_calls s
     \<and> (\<forall>p. map_option (\<lambda>c. c\<lparr>ch_revents := 0\<rparr>) (chan_heap s' p) = map_option (\<lambda>c. c\<lparr>ch_revents := 0\<rparr>) (chan_heap s p))"

lemma erase_revents_eqD:
  "c\<lparr>ch_revents := 0\<rparr> = d\<lparr>ch_revents := 0\<rparr> \<Longrightarrow>
     ch_fd c = ch_fd d \<and> ch_events c = ch_events d \<and> ch_index c = ch_index d"
  by (cases c; cases d) simp

lemma same_but_revents_heap:
  assumes "same_but_revents s s'" and "chan_heap s' p = Some c"
  obtains d where "chan_heap s p = Some d" and "ch_fd c = ch_fd d" and "ch_events c = ch_events d" and "ch_index c = ch_index d"
proof -
  have "map_option (\<lambda>c. c\<lparr>ch_revents := 0\<rparr>) (chan_heap s' p) = map_option (\<lambda>c. c\<lparr>ch_revents := 0\<rparr>) (chan_heap s p)"
    using assms(1) by (simp add: same_but_revents_def)
  then show ?thesis using assms(2) that by (cases "chan_heap s p") (auto dest: erase_revents_eqD)
qed

lemma same_but_revents_sym: "same_but_revents s s' \<Longrightarrow> same_but_revents s' s"
  by (simp add: same_but_revents_def)

lemma same_but_revents_watched: "same_but_revents s s' \<Longrightarrow> watched s' = watched s"
proof
  fix fd assume "same_but_revents s s'"
  then show "watched s' fd = watched s fd"
    by (auto simp: watched_def same_but_revents_def split: option.splits
        elim: same_but_revents_heap [OF \<open>same_but_revents s s'\<close>]
          same_but_revents_heap [OF same_but_revents_sym [OF \<open>same_but_revents s s'\<close>]])
qed

lemma same_but_revents_inv:
  assumes "poller_inv s" and "same_but_revents s s'"
  shows "poller_inv s'"
proof -
  have "channel_ok s' p c" if "chan_heap s' p = Some c" for p c
  proof -
    obtain d where "chan_heap s p = Some d" "ch_fd c = ch_fd d" "ch_events c = ch_events d" "ch_index c = ch_index d"
      by (rule same_but_revents_heap [OF assms(2) \<open>chan_heap s' p = Some c\<close>])
    moreover from this have "channel_ok s p d" using poller_invD(1) [OF assms(1)] by blast
    ultimately show ?thesis using assms(2) by (auto simp: channel_ok_def same_but_revents_def)
  qed
  moreover have "\<exists>c. chan_heap s' p = Some c \<and> ch_fd c = fd" if "m_channels s' fd = Some p" for fd p
  proof -
    from that assms(2) obtain d where "chan_heap s p = Some d" "ch_fd d = fd"
      using poller_invD(2) [OF assms(1)] by (auto simp: same_but_revents_def)
    then show ?thesis using same_but_revents_heap [OF same_but_revents_sym [OF assms(2)]] by metis
  qed
  ultimately show ?thesis
    using poller_invD(3) [OF assms(1)] same_but_revents_watched [OF assms(2)] assms(2)
    by (simp add: poller_inv_def same_but_revents_def)
qed

lemma poll_fill_ok:
  assumes "\<forall>p \<in> set (map snd ready). chan_heap s p \<noteq> None" and "distinct (map snd ready)"
  shows "\<exists>s'. poll_fill ready active s = Inr (active @ map snd ready, s') \<and> same_but_revents s s'
    \<and> m_events_size s' = m_events_size s
    \<and> (\<forall>(ev, p) \<in> set ready. map_option ch_revents (chan_heap s' p) = Some ev)
    \<and> (\<forall>p. p \<notin> set (map snd ready) \<longrightarrow> chan_heap s' p = chan_heap s p)"
  using assms
proof (induction ready arbitrary: active s)
  case Nil
  then show ?case by (simp add: same_but_revents_def)
next
  case (Cons x ready)
  obtain ev p where x: "x = (ev, p)" by fastforce
  with Cons.prems obtain c where c: "chan_heap s p = Some c" by auto
  let ?s1 = "put_channel p (c\<lparr>ch_revents := ev\<rparr>) s"
  have "\<forall>q \<in> set (map snd ready). chan_heap ?s1 q \<noteq> None" "distinct (map snd ready)" "p \<notin> set (map snd ready)"
    using Cons.prems x by (auto simp: put_channel_def)
  with Cons.IH [of ?s1 "active @ [p]"] obtain s' where s': "poll_fill ready (active @ [p]) ?s1 =
      Inr ((active @ [p]) @ map snd ready, s')" "same_but_revents ?s1 s'" "m_events_size s' = m_events_size ?s1"
    "\<forall>(ev, p) \<in> set ready. map_option ch_revents (chan_heap s' p) = Some ev"
    "\<forall>p. p \<notin> set (map snd ready) \<longrightarrow> chan_heap s' p = chan_heap ?s1 p" by blast
  moreover have "same_but_revents s s'" using s'(2) c by (auto simp: same_but_revents_def put_channel_def)
  moreover have "chan_heap s' p = Some (c\<lparr>ch_revents := ev\<rparr>)"
    using s'(5) \<open>p \<notin> set (map snd ready)\<close> by (simp add: put_channel_def)
  moreover have "chan_heap s' q = chan_heap s q" if "q \<notin> set (map snd (x # ready))" for q
    using s'(5) that x by (simp add: put_channel_def)
  ultimately show ?case using x c by (intro exI [of _ s']) (simp add: with_channel_def put_channel_def)
qed

lemma watched_live: "watched s fd = Some (m, p) \<Longrightarrow> \<exists>c. chan_heap s p = Some c \<and> ch_index c = kAdded"
  by (auto simp: watched_def split: option.splits if_splits)

section \<open>Steps\<close>

datatype channel_op = ChEnableReading | ChDisableReading | ChEnableWriting | ChDisableWriting | ChDisableAll

fun do_channel_op :: "channel_op \<Rightarrow> chan_ptr \<Rightarrow> 'cb poll_state \<Rightarrow> 'cb poll_state res" where
  "do_channel_op ChEnableReading = EnableReading"
| "do_channel_op ChDisableReading = DisableReading"
| "do_channel_op ChEnableWriting = EnableWriting"
| "do_channel_op ChDisableWriting = DisableWriting"
| "do_channel_op ChDisableAll = DisableAll"

fun mask_of :: "channel_op \<Rightarrow> events \<Rightarrow> events" where
  "mask_of ChEnableReading m = m OR kReadEvent"
| "mask_of ChDisableReading m = m AND NOT kReadEvent"
| "mask_of ChEnableWriting m = m OR kWriteEvent"
| "mask_of ChDisableWriting m = m AND NOT kWriteEvent"
| "mask_of ChDisableAll m = kNoneEvent"

lemma do_channel_op_eq: "do_channel_op oper p s = Channel_set_events (mask_of oper) p s"
proof (cases oper)
qed (simp_all add: channel_op_defs, simp_all add: Channel_set_events_def)

fun run_channel_ops :: "channel_op list \<Rightarrow> chan_ptr \<Rightarrow> 'cb poll_state \<Rightarrow> 'cb poll_state res" where
  "run_channel_ops [] p s = Inr s"
| "run_channel_ops (oper # ops) p s = rbind (do_channel_op oper p s) (run_channel_ops ops p)"

lemma run_channel_ops_eq: "run_channel_ops ops p s = run_set_events Channel_set_events (map mask_of ops) p s"
proof (induction ops arbitrary: s)
  case (Cons oper ops)
  then show ?case by (cases "Channel_set_events (mask_of oper) p s") (simp_all add: do_channel_op_eq)
qed simp

datatype poll_ev =
    PNew chan_ptr int
  | PSet channel_op chan_ptr
  | PRemove chan_ptr
  | PDelete chan_ptr
  | PPoll "chan_ptr list"

text \<open>What the rest of the library does to the poller: a channel is created at an address that is not
  in use, only a channel the poller has is removed and only one it does not have is destroyed.\<close>

inductive poll_step :: "'cb poll_state \<Rightarrow> poll_ev \<Rightarrow> 'cb poll_state \<Rightarrow> bool" where
  ps_new: "chan_heap s p = None \<Longrightarrow> new_channel p fd s = Inr s' \<Longrightarrow> poll_step s (PNew p fd) s'"
| ps_set: "do_channel_op oper p s = Inr s' \<Longrightarrow> poll_step s (PSet oper p) s'"
| ps_remove: "HasChannel (Some p) s = Inr True \<Longrightarrow> Channel_Remove p s = Inr s' \<Longrightarrow> poll_step s (PRemove p) s'"
| ps_delete: "HasChannel (Some p) s = Inr False \<Longrightarrow> Channel_dtor p s = Inr s' \<Longrightarrow> poll_step s (PDelete p) s'"
| ps_poll: "wait_ok s epoll_wait \<Longrightarrow> EpollPoller_Poll epoll_wait s = Inr (active, s') \<Longrightarrow> poll_step s (PPoll active) s'"

lemma Poll_ok:
  assumes "poller_inv s" and "wait_ok s epoll_wait"
  shows "\<exists>s'. EpollPoller_Poll epoll_wait s = Inr (map snd (epoll_wait (m_events_size s)), s')
    \<and> poller_inv s' \<and> watched s' = watched s
    \<and> m_events_size s' = (if 0 < length (epoll_wait (m_events_size s))
          \<and> length (epoll_wait (m_events_size s)) = m_events_size s then m_events_size s * 2 else m_events_size s)
    \<and> (\<forall>(ev, p) \<in> set (epoll_wait (m_events_size s)).
         \<exists>c. chan_heap s' p = Some c \<and> ch_revents c = ev \<and> ch_index c = kAdded)
    \<and> same_but_revents s s'"
proof -
  let ?ready = "epoll_wait (m_events_size s)"
  have live: "\<exists>c. chan_heap s p = Some c \<and> ch_index c = kAdded" if "p \<in> set (map snd ?ready)" for p
    using assms(2) that watched_live unfolding wait_ok_def Let_def by blast
  then have "\<forall>p \<in> set (map snd ?ready). chan_heap s p \<noteq> None" by fastforce
  from poll_fill_ok [OF this, of "[]"] assms(2) obtain s1 where s1:
    "poll_fill ?ready [] s = Inr (map snd ?ready, s1)" "same_but_revents s s1"
    "m_events_size s1 = m_events_size s"
    "\<forall>(ev, p) \<in> set ?ready. map_option ch_revents (chan_heap s1 p) = Some ev"
    by (auto simp: wait_ok_def Let_def)
  have "ch_index c = kAdded" if h: "chan_heap s1 p = Some c" "p \<in> set (map snd ?ready)" for p c
    using live [OF h(2)] same_but_revents_heap [OF s1(2) h(1)] by (metis option.inject)
  then have marked: "\<exists>c. chan_heap s1 p = Some c \<and> ch_revents c = ev \<and> ch_index c = kAdded"
    if "(ev, p) \<in> set ?ready" for ev p
    using s1(4) that by (force simp: image_iff)
  let ?s' = "if 0 < length ?ready \<and> length ?ready = m_events_size s1
    then s1\<lparr>m_events_size := m_events_size s1 * 2\<rparr> else s1"
  have "same_but_revents s ?s'" using s1(2) by (simp add: same_but_revents_def)
  then show ?thesis
    using same_but_revents_inv [OF assms(1)] same_but_revents_watched marked s1(1,3)
    by (intro exI [of _ ?s']) (auto simp: EpollPoller_Poll_def Let_def)
qed

lemma poll_step_inv:
  assumes "poller_inv s" and "poll_step s ev s'"
  shows "poller_inv s'"
  using assms(2)
proof cases
  case (ps_new p fd)
  then show ?thesis using new_channel_inv [OF assms(1)] by blast
next
  case (ps_set oper p)
  then have set: "Channel_set_events (mask_of oper) p s = Inr s'" by (simp add: do_channel_op_eq)
  then obtain c where c: "chan_heap s p = Some c"
    by (auto simp: Channel_set_events_def with_channel_def split: option.splits)
  have "usable s p" using set set_events_unusable [OF assms(1) c] by fastforce
  then show ?thesis using set_events_inv(1) [OF assms(1) _ c set] by blast
next
  case (ps_remove p)
  then obtain c where "chan_heap s p = Some c" "m_channels s (ch_fd c) = Some p" "ch_events c = kNoneEvent"
    by (auto simp: HasChannel_def Channel_Remove_def with_channel_def IsNoneEvent_def cpp_assert_eq_Inr_iff
        split: option.splits)
  from Remove_ok [OF assms(1) this refl] ps_remove show ?thesis by simp
next
  case (ps_delete p)
  then have "m_channels s fd \<noteq> Some p" for fd
    using poller_invD(2) [OF assms(1), of fd p]
    by (auto simp: HasChannel_def with_channel_def split: option.splits)
  then show ?thesis using dtor_inv(1) [OF assms(1)] ps_delete by blast
next
  case (ps_poll epoll_wait active)
  then show ?thesis using Poll_ok [OF assms(1)] by fastforce
qed

section \<open>Properties\<close>

lemma first_enable:
  assumes "poller_inv s" and "chan_heap s p = None" and "m_channels s fd = None" and "0 \<le> fd"
    and "mask_of oper kNoneEvent \<noteq> kNoneEvent"
  shows "\<exists>s'. rbind (new_channel p fd s) (do_channel_op oper p) = Inr s' \<and> poller_inv s' \<and> is_registered s' p
    \<and> chan_view s' = (chan_view s)(p \<mapsto> (fd, mask_of oper kNoneEvent))
    \<and> m_channels s' = (m_channels s)(fd \<mapsto> p) \<and> (\<forall>g. g \<noteq> fd \<longrightarrow> watched s' g = watched s g)"
proof -
  obtain s1 where new: "new_channel p fd s = Inr s1"
    using assms(4) by (simp add: new_channel_def Channel_ctor_def)
  from new_channel_inv [OF assms(1,2) new] obtain c where s1: "poller_inv s1" "watched s1 = watched s"
    "m_channels s1 = m_channels s" "chan_heap s1 = (chan_heap s)(p \<mapsto> c)"
    and c: "ch_fd c = fd" "ch_events c = kNoneEvent" "ch_index c = kNew" by blast
  then have h: "chan_heap s1 p = Some c" and u: "usable s1 p" using assms(3) by (auto simp: usable_def)
  note eq = set_events_eq [OF s1(1) u h, of "mask_of oper"]
  show ?thesis
    using new eq set_events_inv [OF s1(1) u h eq] s1 c assms(5)
    by (auto simp: do_channel_op_eq is_registered_def chan_view_def next_index_def fun_eq_iff)
qed

definition two_fds :: "unit poll_state" where
  "two_fds = \<lparr>chan_heap = [1 \<mapsto> \<lparr>ch_fd = 3, ch_events = kReadEvent, ch_revents = 0, ch_index = kAdded,
        ch_tied = False, ch_tie = None, ch_read_callback = Some (), ch_write_callback = None,
        ch_close_callback = None, ch_error_callback = None\<rparr>],
     m_channels = [3 \<mapsto> 1], m_events_size = 16, ctl_calls = [(EPOLL_CTL_ADD, 3, kReadEvent, 1)]\<rparr>"

lemma two_fds_inv: "poller_inv two_fds"
proof -
  have "watched two_fds = [3 \<mapsto> (kReadEvent, 1)]"
    by (auto simp: watched_def two_fds_def fun_eq_iff)
  moreover have "interest_of (ctl_calls two_fds) = Some [3 \<mapsto> (kReadEvent, 1)]"
    using interest_of_snoc [of "[]"] by (simp add: two_fds_def)
  ultimately show ?thesis
    by (simp add: poller_inv_def channel_ok_def)
      (simp add: two_fds_def kReadEvent_def kNoneEvent_def poll_bits)
qed

text \<open>
  C4. The poller and the kernel agree. In every state that creating, enabling, disabling, removing and
  destroying channels and polling can reach from a new poller, no recorded \<open>epoll_ctl\<close> call was
  refused by the kernel (no \<open>EEXIST\<close>, no \<open>ENOENT\<close>), and the kernel's interest list is exactly the
  set of channels the poller has marked \<open>kAdded\<close>, each with its current events.
\<close>

theorem poller_agrees_with_kernel:
  assumes "ev_path poll_step EpollPoller_ctor es s"
  shows "poller_inv s \<and> interest_of (ctl_calls s) = Some (watched s)"
proof -
  have "poller_inv s"
    using assms poller_inv_ctor by (rule ev_path_invariant) (rule poll_step_inv)
  then show ?thesis using poller_invD(3) by blast
qed

theorem poller_agrees_with_kernel_witness:
  "\<exists>s :: unit poll_state. ev_path poll_step EpollPoller_ctor [PNew 1 3, PSet ChEnableReading 1] s
     \<and> interest_of (ctl_calls s) = Some [3 \<mapsto> (kReadEvent, 1)]"
proof -
  let ?ch = "\<lambda>ev i. \<lparr>ch_fd = 3, ch_events = ev, ch_revents = 0, ch_index = i, ch_tied = False, ch_tie = None,
      ch_read_callback = None, ch_write_callback = None, ch_close_callback = None, ch_error_callback = None\<rparr>"
  let ?s1 = "EpollPoller_ctor\<lparr>chan_heap := [1 \<mapsto> ?ch kNoneEvent kNew]\<rparr> :: unit poll_state"
  let ?s2 = "?s1\<lparr>chan_heap := [1 \<mapsto> ?ch kReadEvent kAdded], m_channels := [3 \<mapsto> 1],
      ctl_calls := [(EPOLL_CTL_ADD, 3, kReadEvent, 1)]\<rparr>"
  have ne: "kReadEvent \<noteq> kNoneEvent" by (simp add: kReadEvent_def kNoneEvent_def poll_bits)
  have "poll_step EpollPoller_ctor (PNew 1 3) ?s1"
    by (rule ps_new) (simp_all add: EpollPoller_ctor_def new_channel_def Channel_ctor_def put_channel_def
        kNoneEvent_def kNew_def)
  moreover have "poll_step ?s1 (PSet ChEnableReading 1) ?s2"
    using ne by (intro ps_set) (simp add: EpollPoller_ctor_def EnableReading_def Channel_set_events_def
        UpdateChannel_def with_channel_def put_channel_def IsNoneEvent_def EpollPoller_Update_def kNoneEvent_def)
  ultimately have p: "ev_path poll_step EpollPoller_ctor ([] @ [PNew 1 3] @ [PSet ChEnableReading 1]) ?s2"
    unfolding append_assoc [symmetric] by (blast intro: ev_path.intros)
  from poller_agrees_with_kernel [OF p] have "interest_of (ctl_calls ?s2) = Some (watched ?s2)" by blast
  moreover have "watched ?s2 = [3 \<mapsto> (kReadEvent, 1)]"
    by (auto simp: watched_def fun_eq_iff EpollPoller_ctor_def)
  ultimately show ?thesis using p by (intro exI [of _ ?s2]) simp
qed

text \<open>
  A channel lives and dies without trace: created for a descriptor the poller does not have, first
  enabled for reading or writing, then taken through any sequence of enabling and disabling, and
  at last disabled, removed and destroyed, it meets no failed assertion on the way, and the
  poller, the kernel's interest list and the other channels are as before.
\<close>

theorem channel_lifecycle:
  assumes "poller_inv s" and "chan_heap s p = None" and "m_channels s fd = None" and "0 \<le> fd"
    and "start = ChEnableReading \<or> start = ChEnableWriting"
  shows "\<exists>s'. rbind (new_channel p fd s) (\<lambda>s. rbind (do_channel_op start p s) (\<lambda>s.
      rbind (run_channel_ops ops p s) (\<lambda>s. rbind (DisableAll p s) (\<lambda>s. rbind (Channel_Remove p s) (Channel_dtor p))))) = Inr s'
    \<and> poller_inv s' \<and> m_channels s' = m_channels s \<and> watched s' = watched s \<and> chan_view s' = chan_view s"
proof -
  have "mask_of start kNoneEvent \<noteq> kNoneEvent"
    using assms(5) by (auto simp: kReadEvent_def kWriteEvent_def kNoneEvent_def poll_bits)
  from first_enable [OF assms(1-4) this] obtain s0 s1 where s1: "new_channel p fd s = Inr s0"
    "do_channel_op start p s0 = Inr s1" "poller_inv s1" "is_registered s1 p"
    "chan_view s1 = (chan_view s)(p \<mapsto> (fd, mask_of start kNoneEvent))" "m_channels s1 = (m_channels s)(fd \<mapsto> p)"
    "\<forall>g. g \<noteq> fd \<longrightarrow> watched s1 g = watched s g" by (auto simp: rbind_eq_Inr_iff)
  from epoll.retire [OF s1(3,4), of fd "mask_of start kNoneEvent" "map mask_of ops"] s1(5)
  obtain s2 where s2: "rbind (run_channel_ops ops p s1) (\<lambda>s. rbind (DisableAll p s) (Channel_Remove p)) = Inr s2"
    "poller_inv s2" "\<not> is_registered s2 p" "chan_view s2 = (chan_view s1)(p \<mapsto> (fd, kNoneEvent))"
    "m_channels s2 = (m_channels s1)(fd := None)" "watched s2 = (watched s1)(fd := None)"
    by (auto simp: run_channel_ops_eq DisableAll_def)
  have "chan_view s2 p = Some (fd, kNoneEvent)" using s2(4) by simp
  then obtain c where c: "chan_heap s2 p = Some c" "ch_events c = kNoneEvent" "ch_index c = kNew" "ch_fd c = fd"
    using s2(3) by (auto simp: chan_view_def is_registered_def)
  then have d: "Channel_dtor p s2 = Inr (s2\<lparr>chan_heap := (chan_heap s2)(p := None)\<rparr>)"
    by (simp add: Channel_dtor_def with_channel_def IsNoneEvent_def kNew_def)
  have none: "m_channels s2 g \<noteq> Some p" for g
    using poller_invD(2) [OF s2(2), of g p] c s2(5) by auto
  have "watched s fd = None" using assms(3) by (simp add: watched_def)
  then have "watched s2 = watched s" using s2(6) s1(7) by (auto simp: fun_eq_iff)
  moreover have "chan_view (s2\<lparr>chan_heap := (chan_heap s2)(p := None)\<rparr>) = chan_view s"
    using s2(4) s1(5) assms(2) by (auto simp: chan_view_def fun_eq_iff)
  moreover have "m_channels s2 = m_channels s" using s2(5) s1(6) assms(3) by (auto simp: fun_eq_iff)
  ultimately show ?thesis using dtor_inv [OF s2(2) d none] s1(1,2) s2(1) d
    by (auto simp: rbind_eq_Inr_iff)
qed

theorem channel_lifecycle_witness:
  "\<exists>s'. rbind (new_channel 2 5 two_fds) (\<lambda>s. rbind (do_channel_op ChEnableReading 2 s) (\<lambda>s.
      rbind (run_channel_ops [ChEnableWriting, ChDisableReading] 2 s) (\<lambda>s. rbind (DisableAll 2 s) (\<lambda>s.
      rbind (Channel_Remove 2 s) (Channel_dtor 2))))) = Inr s' \<and> watched s' = watched two_fds"
proof -
  have "chan_heap two_fds 2 = None" "m_channels two_fds 5 = None" by (simp_all add: two_fds_def)
  from channel_lifecycle [OF two_fds_inv this, of ChEnableReading "[ChEnableWriting, ChDisableReading]"]
  show ?thesis by auto
qed

text \<open>
  Which updates of a live channel succeed: those of a channel the poller has under its own index,
  and those of a new one whose descriptor is free; every other one fails the assertion of
  \<open>UpdateChannel\<close>. In particular a new channel that is first disabled is entered into the map
  with its index still \<open>kNew\<close>, and enabling it afterwards always fails that assertion.
\<close>

theorem channel_update_outcome:
  assumes "poller_inv s" and "chan_heap s p = Some c"
  shows "(if usable s p
     then \<exists>s'. do_channel_op oper p s = Inr s' \<and> poller_inv s' \<and> m_channels s' (ch_fd c) = Some p
         \<and> watched s' = (watched s)(ch_fd c := if mask_of oper (ch_events c) = kNoneEvent then None
                                      else Some (mask_of oper (ch_events c), p))
     else do_channel_op oper p s = Inl AssertionFailed)
    \<and> (usable s p \<and> ch_index c = kNew \<longrightarrow>
         rbind (DisableAll p s) (do_channel_op oper p) = Inl AssertionFailed)"
proof (cases "usable s p")
  case False
  then show ?thesis using set_events_unusable [OF assms] by (simp add: do_channel_op_eq)
next
  case True
  note eq = set_events_eq [OF assms(1) True assms(2)]
  have "rbind (DisableAll p s) (do_channel_op oper p) = Inl AssertionFailed" if new: "ch_index c = kNew"
  proof -
    obtain s1 where s1: "DisableAll p s = Inr s1" "chan_heap s1 p = Some (c\<lparr>ch_events := kNoneEvent, ch_index := kNew\<rparr>)"
      "m_channels s1 (ch_fd c) = Some p"
      using eq [of "\<lambda>_. kNoneEvent"] new by (simp add: DisableAll_def next_index_def)
    then have "poller_inv s1" "\<not> usable s1 p"
      using set_events_inv(1) [OF assms(1) True assms(2)] by (auto simp: DisableAll_def usable_def)
    then show ?thesis using set_events_unusable s1 by (simp add: do_channel_op_eq)
  qed
  then show ?thesis
    using True eq [of "mask_of oper"] set_events_inv [OF assms(1) True assms(2) eq, of "mask_of oper"]
    by (simp add: do_channel_op_eq)
qed

theorem channel_update_outcome_witness:
  "\<exists>s'. do_channel_op ChEnableWriting 1 two_fds = Inr s' \<and> watched s' 3 = Some (kReadEvent OR kWriteEvent, 1)"
proof -
  have h: "\<exists>c. chan_heap two_fds 1 = Some c \<and> ch_fd c = 3 \<and> ch_events c = kReadEvent \<and> ch_index c = kAdded"
    by (simp add: two_fds_def)
  then obtain c where c: "chan_heap two_fds 1 = Some c" "ch_fd c = 3" "ch_events c = kReadEvent" "ch_index c = kAdded"
    by blast
  then have "usable two_fds 1" by (simp add: usable_def)
  moreover have "kReadEvent OR kWriteEvent \<noteq> kNoneEvent"
    by (simp add: kReadEvent_def kWriteEvent_def kNoneEvent_def poll_bits)
  ultimately show ?thesis using channel_update_outcome [OF two_fds_inv c(1), of ChEnableWriting] c by auto
qed

text \<open>
  \<open>Poll\<close> never touches a dead channel. If \<open>epoll_wait\<close> reports what it is documented to, the active
  list is the reported channels in the reported order, each of them alive, registered and marked
  with the events reported for it; nothing else changes, except that the event array doubles
  when it was filled, so that it is never full after a call.
\<close>

theorem Poll_marks_ready_channels:
  assumes "poller_inv s" and "wait_ok s epoll_wait" and "0 < m_events_size s"
  shows "\<exists>s'. EpollPoller_Poll epoll_wait s = Inr (map snd (epoll_wait (m_events_size s)), s')
    \<and> poller_inv s' \<and> watched s' = watched s
    \<and> (\<forall>(ev, p) \<in> set (epoll_wait (m_events_size s)).
         \<exists>c. chan_heap s' p = Some c \<and> ch_revents c = ev \<and> ch_index c = kAdded)
    \<and> m_events_size s \<le> m_events_size s' \<and> length (epoll_wait (m_events_size s)) < m_events_size s'"
proof -
  have "length (epoll_wait (m_events_size s)) \<le> m_events_size s"
    using assms(2) by (simp add: wait_ok_def Let_def)
  then show ?thesis using Poll_ok [OF assms(1,2)] assms(3) by (fastforce split: if_splits)
qed

theorem Poll_marks_ready_channels_witness:
  "\<exists>s'. EpollPoller_Poll (\<lambda>n. [(POLLIN, 1)]) two_fds = Inr ([1], s') \<and> poller_inv s'"
proof -
  have "watched two_fds 3 = Some (kReadEvent, 1)" by (simp add: watched_def two_fds_def)
  then have "wait_ok two_fds (\<lambda>n. [(POLLIN, 1)])" by (auto simp: wait_ok_def two_fds_def)
  from Poll_marks_ready_channels [OF two_fds_inv this] show ?thesis by (auto simp: two_fds_def)
qed

end
