(* ===== verification/Tcp_Connection.thy ===== *)
theory Tcp_Connection
  imports Buffer Epoll_Poller
begin

text \<open>
  \<open>net/transport/tcp_connection.{h,cpp}\<close>: one connection, seen from its loop thread. The state has
  the members of the connection, the poller its channel is registered with, the functors it has
  queued on the loop and what has happened on the socket. \<open>write\<close> and \<open>readv\<close> are parameters of the
  operations that call them. What the application's callbacks do is the parameter \<open>user\<close>, which
  may change the whole state, by calling back into the connection for instance.
\<close>

section \<open>State\<close>

datatype conn_state = kConnecting | kConnected | kDisconnecting | kDisconnected

text \<open>The callbacks the constructor gives its channel, the callbacks of the application that run at
  once, and what is handed to the loop to run later.\<close>

datatype conn_cb = CbRead | CbWrite | CbClose | CbError

datatype user_event = EvConnection | EvMessage int | EvClose

datatype conn_functor =
    FWriteComplete
  | FHighWaterMark nat
  | FSend "byte list"
  | FShutdown
  | FForceClose

text \<open>\<open>tc_wire\<close> has the bytes the kernel accepted for the peer, in order; \<open>tc_wr_shut\<close> counts the calls
  of \<open>ShutdownWrite\<close>.\<close>

record 'u conn_sys =
  tc_state :: conn_state
  tc_fd :: int
  tc_chan :: chan_ptr
  tc_input :: buffer
  tc_output :: buffer
  tc_high_water_mark :: nat
  tc_has_connection_cb :: bool
  tc_has_message_cb :: bool
  tc_has_close_cb :: bool
  tc_has_write_complete_cb :: bool
  tc_has_high_water_cb :: bool
  tc_poll :: "conn_cb poll_state"
  tc_queue :: "conn_functor list"
  tc_wire :: "byte list"
  tc_wr_shut :: nat
  tc_user :: 'u

type_synonym 'u user_cb = "user_event \<Rightarrow> 'u conn_sys \<Rightarrow> 'u conn_sys res"

definition QueueInLoop_fn :: "conn_functor \<Rightarrow> 'u conn_sys \<Rightarrow> 'u conn_sys" where
  "QueueInLoop_fn f s = s\<lparr>tc_queue := tc_queue s @ [f]\<rparr>"

text \<open>A member call on \<open>m_channel\<close>.\<close>

definition on_channel :: "(chan_ptr \<Rightarrow> conn_cb poll_state \<Rightarrow> conn_cb poll_state res) \<Rightarrow> 'u conn_sys \<Rightarrow> 'u conn_sys res" where
  "on_channel oper s = rmap (\<lambda>ps. s\<lparr>tc_poll := ps\<rparr>) (oper (tc_chan s) (tc_poll s))"

definition channel_writing :: "'u conn_sys \<Rightarrow> bool res" where
  "channel_writing s = with_channel (tc_chan s) (tc_poll s) (\<lambda>c. Inr (IsWriting c))"

definition run_user :: "bool \<Rightarrow> user_event \<Rightarrow> 'u user_cb \<Rightarrow> 'u conn_sys \<Rightarrow> 'u conn_sys res" where
  "run_user has ev user s = (if has then user ev s else Inr s)"

definition EAGAIN :: errno where "EAGAIN = 11"
definition EPIPE :: errno where "EPIPE = 32"
definition ECONNRESET :: errno where "ECONNRESET = 104"

section \<open>Construction\<close>

definition TcpConnection_ctor :: "chan_ptr \<Rightarrow> int \<Rightarrow> 'u \<Rightarrow> conn_cb poll_state \<Rightarrow> 'u conn_sys res" where
  "TcpConnection_ctor p sockfd u ps =
     rbind (new_channel p sockfd ps) (\<lambda>ps.
     rbind Buffer_default (\<lambda>inp.
     rbind Buffer_default (\<lambda>outp.
       with_channel p ps (\<lambda>c.
         Inr \<lparr>tc_state = kConnecting, tc_fd = sockfd, tc_chan = p, tc_input = inp, tc_output = outp,
              tc_high_water_mark = 64 * 1024, tc_has_connection_cb = False, tc_has_message_cb = False,
              tc_has_close_cb = False, tc_has_write_complete_cb = False, tc_has_high_water_cb = False,
              tc_poll = put_channel p (c\<lparr>ch_read_callback := Some CbRead, ch_write_callback := Some CbWrite,
                ch_close_callback := Some CbClose, ch_error_callback := Some CbError\<rparr>) ps,
              tc_queue = [], tc_wire = [], tc_wr_shut = 0, tc_user = u\<rparr>))))"

text \<open>The setters; \<open>has\<close> tells whether the function given is not empty.\<close>

definition SetConnectionCallback :: "bool \<Rightarrow> 'u conn_sys \<Rightarrow> 'u conn_sys" where
  "SetConnectionCallback has s = s\<lparr>tc_has_connection_cb := has\<rparr>"

definition SetMessageCallback :: "bool \<Rightarrow> 'u conn_sys \<Rightarrow> 'u conn_sys" where
  "SetMessageCallback has s = s\<lparr>tc_has_message_cb := has\<rparr>"

definition SetCloseCallback :: "bool \<Rightarrow> 'u conn_sys \<Rightarrow> 'u conn_sys" where
  "SetCloseCallback has s = s\<lparr>tc_has_close_cb := has\<rparr>"

definition SetWriteCompleteCallback :: "bool \<Rightarrow> 'u conn_sys \<Rightarrow> 'u conn_sys" where
  "SetWriteCompleteCallback has s = s\<lparr>tc_has_write_complete_cb := has\<rparr>"

definition SetHighWaterMarkCallback :: "bool \<Rightarrow> nat \<Rightarrow> 'u conn_sys \<Rightarrow> 'u conn_sys" where
  "SetHighWaterMarkCallback has high_water_mark s = s\<lparr>tc_high_water_mark := high_water_mark, tc_has_high_water_cb := has\<rparr>"

definition IsConnected :: "'u conn_sys \<Rightarrow> bool" where
  "IsConnected s \<longleftrightarrow> tc_state s = kConnected"

definition IsDisconnected :: "'u conn_sys \<Rightarrow> bool" where
  "IsDisconnected s \<longleftrightarrow> tc_state s = kDisconnected"

text \<open>The destructor's assertions; destroying the channel repeats the last two.\<close>

definition TcpConnection_dtor :: "'u conn_sys \<Rightarrow> conn_cb poll_state res" where
  "TcpConnection_dtor s =
     cpp_assert (tc_state s = kDisconnected)
       (with_channel (tc_chan s) (tc_poll s) (\<lambda>c.
          cpp_assert (IsNoneEvent c) (cpp_assert (ch_index c = - 1) (Channel_dtor (tc_chan s) (tc_poll s)))))"

section \<open>Sending\<close>

text \<open>The direct write of \<open>SendInLoop\<close>: whether it met a broken connection, how many bytes were
  taken, and the new state.\<close>

definition direct_write :: "write_fun \<Rightarrow> byte list \<Rightarrow> 'u conn_sys \<Rightarrow> bool \<times> nat \<times> 'u conn_sys" where
  "direct_write write message s =
     (case write message of
        Inr n \<Rightarrow>
          (let s1 = s\<lparr>tc_wire := tc_wire s @ take n message\<rparr>
           in (False, n, if sz_sub (length message) n = 0 \<and> tc_has_write_complete_cb s
                         then QueueInLoop_fn FWriteComplete s1 else s1))
      | Inl err \<Rightarrow> (err \<noteq> EAGAIN \<and> (err = EPIPE \<or> err = ECONNRESET), 0, s))"

definition append_output :: "byte list \<Rightarrow> nat \<Rightarrow> 'u conn_sys \<Rightarrow> 'u conn_sys res" where
  "append_output message nwrote s =
     (let old_len = ReadableBytes (tc_output s);
          new_len = sz_add old_len (sz_sub (length message) nwrote)
      in rbind (Buffer_Append_string (tc_output s) (drop nwrote message)) (\<lambda>b.
         let s1 = s\<lparr>tc_output := b\<rparr>;
             s2 = (if old_len < tc_high_water_mark s \<and> new_len \<ge> tc_high_water_mark s \<and> tc_has_high_water_cb s
                   then QueueInLoop_fn (FHighWaterMark new_len) s1 else s1)
         in rbind (channel_writing s2) (\<lambda>w. if \<not> w then on_channel EnableWriting s2 else Inr s2)))"

definition SendInLoop :: "write_fun \<Rightarrow> byte list \<Rightarrow> 'u conn_sys \<Rightarrow> 'u conn_sys res" where
  "SendInLoop write message s =
     (if tc_state s \<noteq> kConnected then Inr s
      else rbind (channel_writing s) (\<lambda>w.
        case (if \<not> w \<and> ReadableBytes (tc_output s) = 0 then direct_write write message s else (False, 0, s)) of
          (fault, nwrote, s1) \<Rightarrow>
            if \<not> fault \<and> sz_sub (length message) nwrote > 0 then append_output message nwrote s1 else Inr s1))"

text \<open>\<open>Send\<close> from the loop thread or from another one.\<close>

definition Send :: "bool \<Rightarrow> write_fun \<Rightarrow> byte list \<Rightarrow> 'u conn_sys \<Rightarrow> 'u conn_sys res" where
  "Send in_loop write message s =
     (if message = [] then Inr s
      else if in_loop then SendInLoop write message s
      else Inr (QueueInLoop_fn (FSend message) s))"

definition Send_raw :: "bool \<Rightarrow> write_fun \<Rightarrow> byte list \<Rightarrow> size_t \<Rightarrow> 'u conn_sys \<Rightarrow> 'u conn_sys res" where
  "Send_raw in_loop write data len s = Send in_loop write (take len data) s"

text \<open>\<open>Send(Buffer*)\<close>: the buffer is the caller's and is emptied.\<close>

definition Send_buffer :: "bool \<Rightarrow> write_fun \<Rightarrow> buffer option \<Rightarrow> 'u conn_sys \<Rightarrow> (buffer option \<times> 'u conn_sys) res" where
  "Send_buffer in_loop write buf s =
     (case buf of
        None \<Rightarrow> Inr (None, s)
      | Some b \<Rightarrow>
          if ReadableBytes b = 0 then Inr (Some b, s)
          else if in_loop
          then rbind (ToStringView b) (\<lambda>view.
                 rmap (\<lambda>s'. (Some (RetrieveAll b), s')) (SendInLoop write view s))
          else rmap (\<lambda>(message, b'). (Some b', QueueInLoop_fn (FSend message) s)) (RetrieveAllAsString b))"

section \<open>Closing\<close>

definition ShutdownInLoop :: "'u conn_sys \<Rightarrow> 'u conn_sys res" where
  "ShutdownInLoop s =
     (let s1 = (if tc_state s = kConnected then s\<lparr>tc_state := kDisconnecting\<rparr> else s)
      in rbind (channel_writing s1) (\<lambda>w. Inr (if \<not> w then s1\<lparr>tc_wr_shut := tc_wr_shut s1 + 1\<rparr> else s1)))"

definition Shutdown :: "bool \<Rightarrow> 'u conn_sys \<Rightarrow> 'u conn_sys res" where
  "Shutdown in_loop s =
     (if tc_state s = kConnected \<or> tc_state s = kDisconnecting
      then (if in_loop then ShutdownInLoop s else Inr (QueueInLoop_fn FShutdown s))
      else Inr s)"

definition HandleClose :: "'u user_cb \<Rightarrow> 'u conn_sys \<Rightarrow> 'u conn_sys res" where
  "HandleClose user s =
     cpp_assert (tc_state s = kConnected \<or> tc_state s = kDisconnecting)
       (rbind (on_channel DisableAll (s\<lparr>tc_state := kDisconnected\<rparr>)) (\<lambda>s.
        rbind (run_user (tc_has_close_cb s) EvClose user s) (\<lambda>s.
          run_user (tc_has_connection_cb s) EvConnection user s)))"

definition ForceCloseInLoop :: "'u user_cb \<Rightarrow> 'u conn_sys \<Rightarrow> 'u conn_sys res" where
  "ForceCloseInLoop user s =
     (if tc_state s = kConnected \<or> tc_state s = kDisconnecting then HandleClose user s else Inr s)"

definition ForceClose :: "bool \<Rightarrow> 'u user_cb \<Rightarrow> 'u conn_sys \<Rightarrow> 'u conn_sys res" where
  "ForceClose in_loop user s =
     (if tc_state s = kConnected \<or> tc_state s = kDisconnecting
      then (if in_loop then ForceCloseInLoop user s else Inr (QueueInLoop_fn FForceClose s))
      else Inr s)"

section \<open>Life cycle\<close>

definition set_tie :: "nat \<Rightarrow> 'u conn_sys \<Rightarrow> 'u conn_sys res" where
  "set_tie obj s = with_channel (tc_chan s) (tc_poll s) (\<lambda>c.
     Inr (s\<lparr>tc_poll := put_channel (tc_chan s) (SetTie obj c) (tc_poll s)\<rparr>))"

definition ConnectEstablished :: "nat \<Rightarrow> 'u user_cb \<Rightarrow> 'u conn_sys \<Rightarrow> 'u conn_sys res" where
  "ConnectEstablished self user s =
     cpp_assert (tc_state s = kConnecting)
       (rbind (set_tie self (s\<lparr>tc_state := kConnected\<rparr>)) (\<lambda>s.
        rbind (on_channel EnableReading s) (\<lambda>s.
          run_user (tc_has_connection_cb s) EvConnection user s)))"

definition ConnectDestroyed :: "'u user_cb \<Rightarrow> 'u conn_sys \<Rightarrow> 'u conn_sys res" where
  "ConnectDestroyed user s =
     rbind (if tc_state s = kConnected
            then rbind (on_channel DisableAll (s\<lparr>tc_state := kDisconnected\<rparr>)) (\<lambda>s.
                   run_user (tc_has_connection_cb s) EvConnection user s)
            else Inr s) (\<lambda>s.
       with_channel (tc_chan s) (tc_poll s) (\<lambda>c.
         if ch_index c \<noteq> - 1 then on_channel Channel_Remove s else Inr s))"

section \<open>Events\<close>

text \<open>\<open>HandleError\<close> asks for the socket's error and logs it.\<close>

definition HandleError :: "'u conn_sys \<Rightarrow> 'u conn_sys res" where
  "HandleError s = Inr s"

definition Conn_HandleRead :: "readv_fun \<Rightarrow> 'u user_cb \<Rightarrow> int \<Rightarrow> 'u conn_sys \<Rightarrow> 'u conn_sys res" where
  "Conn_HandleRead readv user receive_time s =
     rbind (ReadFd readv (tc_input s) 0) (\<lambda>(n, saved_errno, b).
       let s1 = s\<lparr>tc_input := b\<rparr>
       in if n > 0 then run_user (tc_has_message_cb s1) (EvMessage receive_time) user s1
          else if n = 0 then HandleClose user s1
          else if saved_errno \<noteq> EAGAIN then HandleError s1 else Inr s1)"

text \<open>\<open>WriteFd\<close> has already taken the written bytes out of the buffer when \<open>HandleWrite\<close> retrieves
  them again.\<close>

definition Conn_HandleWrite :: "write_fun \<Rightarrow> 'u conn_sys \<Rightarrow> 'u conn_sys res" where
  "Conn_HandleWrite write s =
     rbind (channel_writing s) (\<lambda>w.
       if \<not> w then Inr s
       else rbind (WriteFd write (tc_output s) 0) (\<lambda>(n, saved_errno, b).
         if n > 0
         then (let s1 = s\<lparr>tc_output := Retrieve b (nat n),
                         tc_wire := tc_wire s @ take (nat n) (content (tc_output s))\<rparr>
               in if ReadableBytes (tc_output s1) = 0
                  then rbind (on_channel DisableWriting s1) (\<lambda>s2.
                         let s3 = (if tc_has_write_complete_cb s2 then QueueInLoop_fn FWriteComplete s2 else s2)
                         in if tc_state s3 = kDisconnecting then ShutdownInLoop s3 else Inr s3)
                  else Inr s1)
         else Inr (s\<lparr>tc_output := b\<rparr>)))"

text \<open>A functor that comes up on the loop. The two that only call the application do so through
  \<open>late\<close>.\<close>

definition run_functor ::
  "write_fun \<Rightarrow> 'u user_cb \<Rightarrow> (conn_functor \<Rightarrow> 'u conn_sys \<Rightarrow> 'u conn_sys res) \<Rightarrow> conn_functor \<Rightarrow>
   'u conn_sys \<Rightarrow> 'u conn_sys res" where
  "run_functor write user late f s =
     (case f of
        FSend message \<Rightarrow> SendInLoop write message s
      | FShutdown \<Rightarrow> ShutdownInLoop s
      | FForceClose \<Rightarrow> ForceCloseInLoop user s
      | _ \<Rightarrow> late f s)"

text \<open>An event of the connection's channel, dispatched by \<open>Channel::HandleEvent\<close>.\<close>

definition conn_call :: "readv_fun \<Rightarrow> write_fun \<Rightarrow> 'u user_cb \<Rightarrow> int option \<Rightarrow> conn_cb \<Rightarrow> 'u conn_sys \<Rightarrow> 'u conn_sys res" where
  "conn_call readv write user t cb s =
     (case cb of
        CbRead \<Rightarrow> Conn_HandleRead readv user (case t of None \<Rightarrow> 0 | Some x \<Rightarrow> x) s
      | CbWrite \<Rightarrow> Conn_HandleWrite write s
      | CbClose \<Rightarrow> HandleClose user s
      | CbError \<Rightarrow> HandleError s)"

definition Conn_HandleEvent :: "readv_fun \<Rightarrow> write_fun \<Rightarrow> 'u user_cb \<Rightarrow> int \<Rightarrow> 'u conn_sys \<Rightarrow> 'u conn_sys res" where
  "Conn_HandleEvent readv write user t s =
     HandleEvent (\<lambda>_ _. True) (\<lambda>s. chan_heap (tc_poll s) (tc_chan s)) (conn_call readv write user) t s"

definition StateToString :: "conn_state \<Rightarrow> string" where
  "StateToString st =
     (case st of kConnecting \<Rightarrow> ''connecting'' | kConnected \<Rightarrow> ''connected''
      | kDisconnecting \<Rightarrow> ''disconnecting'' | kDisconnected \<Rightarrow> ''disconnected'')"

section \<open>Invariant\<close>

text \<open>
  The channel is registered exactly as the state asks for: while the connection is open it waits
  for input, and for output if and only if there is output left. \<open>is_open\<close> are the two states in
  which there is something to close.
\<close>

definition is_open :: "conn_state \<Rightarrow> bool" where
  "is_open st \<longleftrightarrow> st = kConnected \<or> st = kDisconnecting"

definition open_events :: "byte list \<Rightarrow> events" where
  "open_events pending = (if pending = [] then kReadEvent else kReadEvent OR kWriteEvent)"

definition chan_inv :: "'u conn_sys \<Rightarrow> conn_cb channel \<Rightarrow> bool" where
  "chan_inv s c \<longleftrightarrow> ch_fd c = tc_fd s \<and>
     (case tc_state s of
        kConnecting \<Rightarrow> ch_index c = kNew \<and> ch_events c = kNoneEvent
          \<and> m_channels (tc_poll s) (tc_fd s) = None \<and> content (tc_output s) = []
      | kDisconnected \<Rightarrow> ch_events c = kNoneEvent
      | _ \<Rightarrow> ch_index c = kAdded \<and> ch_events c = open_events (content (tc_output s)))"

definition conn_inv :: "'u conn_sys \<Rightarrow> bool" where
  "conn_inv s \<longleftrightarrow> poller_inv (tc_poll s) \<and> buf_wf (tc_input s) \<and> buf_wf (tc_output s)
     \<and> (\<exists>c. chan_heap (tc_poll s) (tc_chan s) = Some c \<and> chan_inv s c)
     \<and> (tc_wr_shut s > 0 \<longrightarrow> tc_state s = kDisconnecting \<or> tc_state s = kDisconnected)"

fun state_rank :: "conn_state \<Rightarrow> nat" where
  "state_rank kConnecting = 0"
| "state_rank kConnected = 1"
| "state_rank kDisconnecting = 2"
| "state_rank kDisconnected = 3"

lemma event_facts [simp]:
  "has_event kReadEvent kWriteEvent = False" "has_event (kReadEvent OR kWriteEvent) kWriteEvent"
  "kReadEvent \<noteq> kNoneEvent" "kReadEvent OR kWriteEvent \<noteq> kNoneEvent"
  "kNoneEvent OR kReadEvent = kReadEvent" "(kReadEvent OR kWriteEvent) AND NOT kWriteEvent = kReadEvent"
  "has_event kNoneEvent kWriteEvent = False"
  by (simp_all add: has_event_def kReadEvent_def kWriteEvent_def kNoneEvent_def poll_bits)

lemma conn_invE:
  assumes "conn_inv s"
  obtains c where "poller_inv (tc_poll s)" and "buf_wf (tc_input s)" and "buf_wf (tc_output s)"
    and "chan_heap (tc_poll s) (tc_chan s) = Some c" and "chan_inv s c"
    and "tc_wr_shut s > 0 \<longrightarrow> tc_state s = kDisconnecting \<or> tc_state s = kDisconnected"
  using assms by (auto simp: conn_inv_def)

lemma channel_writing_eq:
  "chan_heap (tc_poll s) (tc_chan s) = Some c \<Longrightarrow> channel_writing s = Inr (has_event (ch_events c) kWriteEvent)"
  by (simp add: channel_writing_def with_channel_def IsWriting_def)

lemma open_writing:
  assumes "conn_inv s" and "is_open (tc_state s)"
  shows "channel_writing s = Inr (content (tc_output s) \<noteq> [])"
  using assms
  by (auto elim!: conn_invE simp: channel_writing_eq chan_inv_def is_open_def open_events_def)

lemma not_writing:
  assumes "conn_inv s" and "\<not> is_open (tc_state s)"
  shows "channel_writing s = Inr False"
  using assms
  by (cases "tc_state s") (auto elim!: conn_invE simp: channel_writing_eq chan_inv_def is_open_def)

text \<open>Changing the channel's events.\<close>

lemma on_channel_op:
  assumes "poller_inv (tc_poll s)" and "chan_heap (tc_poll s) (tc_chan s) = Some c"
    and "ch_index c \<noteq> kNew \<or> m_channels (tc_poll s) (ch_fd c) = None"
  obtains ps where "on_channel (do_channel_op oper) s = Inr (s\<lparr>tc_poll := ps\<rparr>)" and "poller_inv ps"
    and "chan_heap ps (tc_chan s) = Some (c\<lparr>ch_events := mask_of oper (ch_events c),
           ch_index := next_index (ch_index c) (mask_of oper (ch_events c))\<rparr>)"
proof -
  have u: "usable (tc_poll s) (tc_chan s)" using assms(2,3) by (auto simp: usable_def)
  note eq = set_events_eq [OF assms(1) u assms(2), of "mask_of oper"]
  have "on_channel (do_channel_op oper) s = rmap (\<lambda>ps. s\<lparr>tc_poll := ps\<rparr>)
      (Channel_set_events (mask_of oper) (tc_chan s) (tc_poll s))"
    by (simp add: on_channel_def do_channel_op_eq)
  then show ?thesis
    using eq set_events_inv(1) [OF assms(1) u assms(2) eq] by (intro that) auto
qed

lemma enable_writing:
  assumes "poller_inv (tc_poll s)" and "chan_heap (tc_poll s) (tc_chan s) = Some c" and "ch_index c = kAdded"
    and "ch_events c = kReadEvent"
  obtains ps where "on_channel EnableWriting s = Inr (s\<lparr>tc_poll := ps\<rparr>)" and "poller_inv ps"
    and "chan_heap ps (tc_chan s) = Some (c\<lparr>ch_events := kReadEvent OR kWriteEvent, ch_index := kAdded\<rparr>)"
  using on_channel_op [OF assms(1,2), of ChEnableWriting] assms(3,4) by (auto simp: next_index_def)

lemma disable_writing:
  assumes "poller_inv (tc_poll s)" and "chan_heap (tc_poll s) (tc_chan s) = Some c" and "ch_index c = kAdded"
    and "ch_events c = kReadEvent OR kWriteEvent"
  obtains ps where "on_channel DisableWriting s = Inr (s\<lparr>tc_poll := ps\<rparr>)" and "poller_inv ps"
    and "chan_heap ps (tc_chan s) = Some (c\<lparr>ch_events := kReadEvent, ch_index := kAdded\<rparr>)"
  using on_channel_op [OF assms(1,2), of ChDisableWriting] assms(3,4) by (auto simp: next_index_def)

lemma disable_all:
  assumes "poller_inv (tc_poll s)" and "chan_heap (tc_poll s) (tc_chan s) = Some c" and "ch_index c = kAdded"
  obtains ps where "on_channel DisableAll s = Inr (s\<lparr>tc_poll := ps\<rparr>)" and "poller_inv ps"
    and "chan_heap ps (tc_chan s) = Some (c\<lparr>ch_events := kNoneEvent, ch_index := kDeleted\<rparr>)"
  using on_channel_op [OF assms(1,2), of ChDisableAll] assms(3) by (auto simp: next_index_def)

section \<open>Sending\<close>

text \<open>The high-water notification that goes with a new output buffer.\<close>

definition high_water_fn :: "'u conn_sys \<Rightarrow> buffer \<Rightarrow> conn_functor list" where
  "high_water_fn s b =
     (if length (content (tc_output s)) < tc_high_water_mark s \<and> tc_high_water_mark s \<le> length (content b) \<and> tc_has_high_water_cb s
      then [FHighWaterMark (length (content b))] else [])"

definition watch_output :: "'u conn_sys \<Rightarrow> 'u conn_sys res" where
  "watch_output s = rbind (channel_writing s) (\<lambda>w. if \<not> w then on_channel EnableWriting s else Inr s)"

lemma append_output_eq:
  assumes wf: "buf_wf (tc_output s)" and lt: "nwrote < length message" and mem: "m_writer_index (tc_output s) + length message \<le> vec_max"
  obtains b where "buf_wf b" and "content b = content (tc_output s) @ drop nwrote message"
    and "append_output message nwrote s = watch_output (s\<lparr>tc_output := b, tc_queue := tc_queue s @ high_water_fn s b\<rparr>)"
proof -
  let ?old = "content (tc_output s)" and ?rest = "drop nwrote message"
  have "m_writer_index (tc_output s) + length ?rest \<le> vec_max" using lt mem by simp
  from bufq.app_ok [OF wf this] obtain b where b: "Buffer_Append (tc_output s) ?rest = Inr b" "buf_wf b"
    "content b = ?old @ ?rest" by blast
  have len: "length ?old \<le> m_writer_index (tc_output s)" using wf by simp
  have "sz_sub (length message) nwrote = length message - nwrote"
    using lt mem by (intro sz_sub_eq) (simp_all add: vec_max_def)
  moreover have "sz_add (ReadableBytes (tc_output s)) (length message - nwrote) = length (content b)"
    using wf b(3) lt mem len
    by (simp add: ReadableBytes_content sz_add_eq vec_max_def del: length_content ReadableBytes_wf)
  ultimately have new: "sz_add (ReadableBytes (tc_output s)) (sz_sub (length message) nwrote) = length (content b)"
    by simp
  have s2: "(if length ?old < tc_high_water_mark s \<and> tc_high_water_mark s \<le> length (content b) \<and> tc_has_high_water_cb s
      then QueueInLoop_fn (FHighWaterMark (length (content b))) (s\<lparr>tc_output := b\<rparr>) else s\<lparr>tc_output := b\<rparr>)
      = s\<lparr>tc_output := b, tc_queue := tc_queue s @ high_water_fn s b\<rparr>"
    by (simp add: QueueInLoop_fn_def high_water_fn_def)
  show ?thesis
    by (rule that [OF b(2,3)], unfold append_output_def Let_def Buffer_Append_string_def b(1) rbind_Inr
        ReadableBytes_content [OF wf] new [unfolded ReadableBytes_content [OF wf]] s2 watch_output_def) (rule refl)
qed

lemma watch_output_ok:
  assumes "conn_inv s" and "tc_state s = kConnected" and b: "buf_wf b" "content b \<noteq> []"
  obtains ps where "watch_output (s\<lparr>tc_output := b, tc_queue := q\<rparr>) = Inr (s\<lparr>tc_output := b, tc_poll := ps, tc_queue := q\<rparr>)"
    and "conn_inv (s\<lparr>tc_output := b, tc_poll := ps\<rparr>)"
proof -
  from assms(1) obtain c where inv: "poller_inv (tc_poll s)" "buf_wf (tc_input s)" "buf_wf (tc_output s)"
    "chan_heap (tc_poll s) (tc_chan s) = Some c" "chan_inv s c"
    "tc_wr_shut s > 0 \<longrightarrow> tc_state s = kDisconnecting \<or> tc_state s = kDisconnected"
    by (rule conn_invE)
  let ?old = "content (tc_output s)" and ?s1 = "s\<lparr>tc_output := b, tc_queue := q\<rparr>"
  have idx: "ch_index c = kAdded" and ev: "ch_events c = open_events ?old" and fd: "ch_fd c = tc_fd s"
    using inv(5) assms(2) by (auto simp: chan_inv_def)
  have w: "channel_writing ?s1 = Inr (?old \<noteq> [])"
    using inv(4) ev by (auto simp: channel_writing_eq open_events_def)
  show ?thesis
  proof (cases "?old = []")
    case True
    then have "ch_events c = kReadEvent" using ev by (simp add: open_events_def)
    from enable_writing [of ?s1 c] inv(1,4) idx this obtain ps where ps:
      "on_channel EnableWriting ?s1 = Inr (?s1\<lparr>tc_poll := ps\<rparr>)" "poller_inv ps"
      "chan_heap ps (tc_chan s) = Some (c\<lparr>ch_events := kReadEvent OR kWriteEvent, ch_index := kAdded\<rparr>)" by auto
    have "conn_inv (s\<lparr>tc_output := b, tc_poll := ps\<rparr>)"
      using ps inv b assms(2) fd by (auto simp: conn_inv_def chan_inv_def open_events_def)
    then show ?thesis using w True ps(1) by (intro that [of ps]) (simp_all add: watch_output_def)
  next
    case False
    have "conn_inv (s\<lparr>tc_output := b, tc_poll := tc_poll s\<rparr>)"
      using inv b assms(2) fd idx ev False by (auto simp: conn_inv_def chan_inv_def open_events_def)
    then show ?thesis using w False by (intro that [of "tc_poll s"]) (simp_all add: watch_output_def)
  qed
qed

lemma append_output_ok:
  assumes "conn_inv s" and "tc_state s = kConnected" and "nwrote < length message"
    and "m_writer_index (tc_output s) + length message \<le> vec_max"
  obtains b ps where "append_output message nwrote s =
      Inr (s\<lparr>tc_output := b, tc_poll := ps, tc_queue := tc_queue s @ high_water_fn s b\<rparr>)"
    and "content b = content (tc_output s) @ drop nwrote message" and "conn_inv (s\<lparr>tc_output := b, tc_poll := ps\<rparr>)"
proof -
  have "buf_wf (tc_output s)" using assms(1) by (auto elim: conn_invE)
  from append_output_eq [OF this assms(3,4)] obtain b where b: "buf_wf b" "content b = content (tc_output s) @ drop nwrote message"
    "append_output message nwrote s = watch_output (s\<lparr>tc_output := b, tc_queue := tc_queue s @ high_water_fn s b\<rparr>)" .
  have "content b \<noteq> []" using b(2) assms(3) by simp
  from watch_output_ok [OF assms(1,2) b(1) this, of "tc_queue s @ high_water_fn s b"] show ?thesis
    using that b(2,3) by metis
qed

text \<open>Parts of the state the invariant does not depend on.\<close>

lemma conn_inv_wire [simp]: "conn_inv (s\<lparr>tc_wire := x\<rparr>) = conn_inv s"
  by (simp add: conn_inv_def chan_inv_def cong: conn_state.case_cong)

lemma conn_inv_queue [simp]: "conn_inv (s\<lparr>tc_queue := x\<rparr>) = conn_inv s"
  by (simp add: conn_inv_def chan_inv_def cong: conn_state.case_cong)

lemma conn_inv_QueueInLoop [simp]: "conn_inv (QueueInLoop_fn f s) = conn_inv s"
  by (simp add: QueueInLoop_fn_def)

definition broken_pipe :: "errno \<Rightarrow> bool" where
  "broken_pipe err \<longleftrightarrow> err = EPIPE \<or> err = ECONNRESET"

text \<open>What the direct write of \<open>SendInLoop\<close> takes, and what it drops.\<close>

definition took :: "write_fun \<Rightarrow> byte list \<Rightarrow> 'u conn_sys \<Rightarrow> nat" where
  "took write message s =
     (if content (tc_output s) = [] then (case write message of Inr n \<Rightarrow> n | Inl _ \<Rightarrow> 0) else 0)"

definition drops :: "write_fun \<Rightarrow> byte list \<Rightarrow> 'u conn_sys \<Rightarrow> bool" where
  "drops write message s \<longleftrightarrow> content (tc_output s) = [] \<and> (\<exists>err. write message = Inl err \<and> broken_pipe err)"

text \<open>The write-complete notification of a direct write.\<close>

definition complete_fn :: "write_fun \<Rightarrow> byte list \<Rightarrow> 'u conn_sys \<Rightarrow> conn_functor list" where
  "complete_fn write message s =
     (if content (tc_output s) = [] \<and> write message = Inr (length message) \<and> tc_has_write_complete_cb s
      then [FWriteComplete] else [])"

text \<open>The state after the direct write.\<close>

definition sent_directly :: "write_fun \<Rightarrow> byte list \<Rightarrow> 'u conn_sys \<Rightarrow> 'u conn_sys" where
  "sent_directly write message s = s\<lparr>tc_wire := tc_wire s @ take (took write message s) message,
     tc_queue := tc_queue s @ complete_fn write message s\<rparr>"

lemma sent_directly_sel [simp]:
  "conn_inv (sent_directly write message s) = conn_inv s" "tc_state (sent_directly write message s) = tc_state s"
  "tc_output (sent_directly write message s) = tc_output s" "tc_chan (sent_directly write message s) = tc_chan s"
  "tc_wire (sent_directly write message s) = tc_wire s @ take (took write message s) message"
  "tc_queue (sent_directly write message s) = tc_queue s @ complete_fn write message s"
  "high_water_fn (sent_directly write message s) b = high_water_fn s b"
  by (simp_all add: sent_directly_def high_water_fn_def)

lemma SendInLoop_eq:
  assumes "conn_inv s" and "tc_state s = kConnected" and "write_contract write" and "length message \<le> vec_max"
  shows "SendInLoop write message s =
    (if drops write message s \<or> length message \<le> took write message s then Inr (sent_directly write message s)
     else append_output message (took write message s) (sent_directly write message s))"
proof -
  note defs = took_def drops_def Let_def sent_directly_def complete_fn_def
  from assms(1) have wf: "buf_wf (tc_output s)" by (auto elim: conn_invE)
  have w: "channel_writing s = Inr (content (tc_output s) \<noteq> [])"
    using open_writing [OF assms(1)] assms(2) by (simp add: is_open_def)
  have sub: "sz_sub (length message) n = length message - n" if "n \<le> length message" for n
    using that assms(4) by (intro sz_sub_eq) (simp_all add: vec_max_def)
  have rb: "ReadableBytes (tc_output s) = 0 \<longleftrightarrow> content (tc_output s) = []"
    using wf by (simp add: ReadableBytes_content del: length_content ReadableBytes_wf)
  show ?thesis
  proof (cases "content (tc_output s) = []")
    case False
    then show ?thesis using assms(2) w rb sub [of 0] by (simp add: SendInLoop_def defs)
  next
    case True
    show ?thesis
    proof (cases "write message")
      case (Inl err)
      have "err \<noteq> EAGAIN \<and> (err = EPIPE \<or> err = ECONNRESET) \<longleftrightarrow> broken_pipe err"
        by (auto simp: broken_pipe_def EAGAIN_def EPIPE_def ECONNRESET_def)
      then show ?thesis
        using assms(2) w rb True Inl sub [of 0] by (simp add: SendInLoop_def direct_write_def defs)
    next
      case (Inr n)
      then have n: "n \<le> length message" using assms(3) by (auto simp: write_contract_def)
      then have full: "length message \<le> n \<longleftrightarrow> n = length message" by auto
      show ?thesis
        using assms(2) w rb True Inr n sub [OF n]
        by (auto simp: SendInLoop_def direct_write_def defs QueueInLoop_fn_def full)
    qed
  qed
qed

lemma took_le: "write_contract write \<Longrightarrow> took write message s \<le> length message"
  by (auto simp: took_def write_contract_def split: sum.splits)

lemma took_all_stream:
  assumes "drops write message s \<or> length message \<le> took write message s"
  shows "tc_wire s @ take (took write message s) message @ content (tc_output s) =
    tc_wire s @ content (tc_output s) @ (if drops write message s then [] else message)"
proof (cases "drops write message s \<or> message = []")
  case True
  then show ?thesis by (auto simp: drops_def took_def)
next
  case False
  then have "0 < took write message s" using assms by (cases "took write message s") auto
  then have "content (tc_output s) = []" by (auto simp: took_def split: if_splits)
  then show ?thesis using False assms by simp
qed

lemma SendInLoop_ok:
  assumes "conn_inv s" and "tc_state s = kConnected" and "write_contract write"
    and "m_writer_index (tc_output s) + length message \<le> vec_max"
  shows "\<exists>s'. SendInLoop write message s = Inr s' \<and> conn_inv s' \<and> tc_state s' = kConnected
    \<and> tc_chan s' = tc_chan s
    \<and> tc_wire s' @ content (tc_output s') =
        tc_wire s @ content (tc_output s) @ (if drops write message s then [] else message)
    \<and> tc_queue s' = tc_queue s @ complete_fn write message s @ high_water_fn s (tc_output s')
    \<and> tc_input s' = tc_input s \<and> tc_has_message_cb s' = tc_has_message_cb s"
proof -
  let ?n = "took write message s" and ?s1 = "sent_directly write message s"
  note eq = SendInLoop_eq [OF assms(1-3) add_leD2 [OF assms(4)]]
  show ?thesis
  proof (cases "drops write message s \<or> length message \<le> ?n")
    case True
    then show ?thesis
      using eq assms(1,2) took_all_stream [OF True] by (intro exI [of _ ?s1]) (simp add: high_water_fn_def sent_directly_def)
  next
    case False
    then have lt: "?n < length message" by simp
    have inv1: "conn_inv ?s1" "tc_state ?s1 = kConnected" "m_writer_index (tc_output ?s1) + length message \<le> vec_max"
      using assms(1,2,4) by simp_all
    from append_output_ok [OF inv1(1,2) lt inv1(3)] obtain b ps where app: "append_output message ?n ?s1 =
        Inr (?s1\<lparr>tc_output := b, tc_poll := ps, tc_queue := tc_queue ?s1 @ high_water_fn ?s1 b\<rparr>)"
      and b: "content b = content (tc_output ?s1) @ drop ?n message" and inv: "conn_inv (?s1\<lparr>tc_output := b, tc_poll := ps\<rparr>)" .
    define s' where "s' = ?s1\<lparr>tc_output := b, tc_poll := ps, tc_queue := tc_queue ?s1 @ high_water_fn ?s1 b\<rparr>"
    have "content (tc_output s) = [] \<or> ?n = 0" by (simp add: took_def)
    then have "tc_wire s' @ content (tc_output s') = tc_wire s @ content (tc_output s) @ message"
      using b by (auto simp: s'_def)
    moreover have "conn_inv s'" using inv by (simp add: s'_def)
    moreover have "SendInLoop write message s = Inr s'" using eq False app by (simp add: s'_def)
    moreover have "tc_input s' = tc_input s" "tc_has_message_cb s' = tc_has_message_cb s" by (simp_all add: s'_def sent_directly_def)
    ultimately show ?thesis using False assms(2) by (intro exI [of _ s']) (simp add: s'_def)
  qed
qed

section \<open>Writing the rest\<close>

lemma ShutdownInLoop_eq:
  assumes "conn_inv s" and "is_open (tc_state s)"
  shows "ShutdownInLoop s = Inr (s\<lparr>tc_state := kDisconnecting,
    tc_wr_shut := tc_wr_shut s + (if content (tc_output s) = [] then 1 else 0)\<rparr>)"
proof -
  let ?s1 = "if tc_state s = kConnected then s\<lparr>tc_state := kDisconnecting\<rparr> else s"
  have s1: "?s1 = s\<lparr>tc_state := kDisconnecting\<rparr>"
    using assms(2) by (cases s) (auto simp: is_open_def)
  have "channel_writing ?s1 = channel_writing s" by (simp add: channel_writing_def)
  then show ?thesis
    using open_writing [OF assms] unfolding ShutdownInLoop_def Let_def s1 by (simp add: fun_upd_idem)
qed

lemma ShutdownInLoop_inv:
  assumes "conn_inv s" and "is_open (tc_state s)"
  shows "conn_inv (s\<lparr>tc_state := kDisconnecting, tc_wr_shut := n\<rparr>)"
  using assms by (auto simp: conn_inv_def chan_inv_def is_open_def)

lemma WriteFd_wf:
  assumes "buf_wf b"
  shows "WriteFd write b saved = (case write (content b) of Inl err \<Rightarrow> Inr (-1, err, b)
    | Inr n \<Rightarrow> Inr (int n, saved, Retrieve b n))"
  using assms buf_wfD [OF assms]
  by (simp add: WriteFd_def ReaderBegin_def content_def [of b, symmetric])

text \<open>The state after \<open>n\<close> bytes were written: the buffer loses twice as many.\<close>

definition written :: "nat \<Rightarrow> 'u conn_sys \<Rightarrow> 'u conn_sys" where
  "written n s = s\<lparr>tc_output := Retrieve (Retrieve (tc_output s) n) n,
     tc_wire := tc_wire s @ take n (content (tc_output s))\<rparr>"

lemma HandleWrite_writes:
  assumes "conn_inv s" and "is_open (tc_state s)" and "content (tc_output s) \<noteq> []"
    and "write (content (tc_output s)) = Inr n" and "0 < n"
  shows "Conn_HandleWrite write s =
    (if ReadableBytes (tc_output (written n s)) = 0
     then rbind (on_channel DisableWriting (written n s)) (\<lambda>s2.
            let s3 = (if tc_has_write_complete_cb s2 then QueueInLoop_fn FWriteComplete s2 else s2)
            in if tc_state s3 = kDisconnecting then ShutdownInLoop s3 else Inr s3)
     else Inr (written n s))"
proof -
  have wf: "buf_wf (tc_output s)" using assms(1) by (auto elim: conn_invE)
  have w: "channel_writing s = Inr True" using open_writing [OF assms(1,2)] assms(3) by simp
  show ?thesis
    using assms(4,5) w by (simp add: Conn_HandleWrite_def WriteFd_wf [OF wf] written_def Let_def)
qed

lemma written_sel [simp]:
  "tc_poll (written n s) = tc_poll s" "tc_chan (written n s) = tc_chan s" "tc_state (written n s) = tc_state s"
  "tc_fd (written n s) = tc_fd s" "tc_queue (written n s) = tc_queue s" "tc_wr_shut (written n s) = tc_wr_shut s"
  "tc_input (written n s) = tc_input s" "tc_wire (written n s) = tc_wire s @ take n (content (tc_output s))"
  "tc_has_write_complete_cb (written n s) = tc_has_write_complete_cb s" "tc_has_message_cb (written n s) = tc_has_message_cb s"
  by (simp_all add: written_def)

lemma written_output:
  assumes "buf_wf (tc_output s)"
  shows "buf_wf (tc_output (written n s))" "content (tc_output (written n s)) = drop (n + n) (content (tc_output s))"
    "ReadableBytes (tc_output (written n s)) = 0 \<longleftrightarrow> length (content (tc_output s)) \<le> n + n"
proof -
  show "buf_wf (tc_output (written n s))" "content (tc_output (written n s)) = drop (n + n) (content (tc_output s))"
    using assms by (simp_all add: written_def wf_intros)
  then show "ReadableBytes (tc_output (written n s)) = 0 \<longleftrightarrow> length (content (tc_output s)) \<le> n + n"
    by (simp add: ReadableBytes_content del: length_content ReadableBytes_wf)
qed

text \<open>Nothing is left: the write interest is given up.\<close>

lemma output_done:
  assumes "conn_inv s" and "is_open (tc_state s)" and "content (tc_output s) \<noteq> []" and "length (content (tc_output s)) \<le> n + n"
  obtains ps where "on_channel DisableWriting (written n s) = Inr ((written n s)\<lparr>tc_poll := ps\<rparr>)"
    and "conn_inv ((written n s)\<lparr>tc_poll := ps\<rparr>)"
proof -
  from assms(1) obtain c where inv: "poller_inv (tc_poll s)" "buf_wf (tc_input s)" "buf_wf (tc_output s)"
    "chan_heap (tc_poll s) (tc_chan s) = Some c" "chan_inv s c"
    "tc_wr_shut s > 0 \<longrightarrow> tc_state s = kDisconnecting \<or> tc_state s = kDisconnected"
    by (rule conn_invE)
  have c: "ch_index c = kAdded" "ch_events c = kReadEvent OR kWriteEvent" "ch_fd c = tc_fd s"
    using inv(5) assms(2,3) by (auto simp: chan_inv_def is_open_def open_events_def)
  have "poller_inv (tc_poll (written n s))" "chan_heap (tc_poll (written n s)) (tc_chan (written n s)) = Some c" using inv by simp_all
  from disable_writing [OF this c(1,2)] obtain ps where ps:
    "on_channel DisableWriting (written n s) = Inr ((written n s)\<lparr>tc_poll := ps\<rparr>)" "poller_inv ps"
    "chan_heap ps (tc_chan s) = Some (c\<lparr>ch_events := kReadEvent, ch_index := kAdded\<rparr>)" by auto
  have "conn_inv ((written n s)\<lparr>tc_poll := ps\<rparr>)"
    using inv c assms(2,4) written_output(1,2) [OF inv(3), of n] ps
    by (auto simp: conn_inv_def chan_inv_def is_open_def open_events_def)
  then show ?thesis using ps(1) that by blast
qed

lemma HandleWrite_ok:
  assumes "conn_inv s" and "is_open (tc_state s)" and "content (tc_output s) \<noteq> []"
    and "write (content (tc_output s)) = Inr n" and "0 < n"
  shows "\<exists>s'. Conn_HandleWrite write s = Inr s' \<and> conn_inv s' \<and> tc_state s' = tc_state s
    \<and> tc_chan s' = tc_chan s
    \<and> tc_wire s' = tc_wire s @ take n (content (tc_output s))
    \<and> content (tc_output s') = drop (n + n) (content (tc_output s))
    \<and> tc_queue s' = tc_queue s @ (if length (content (tc_output s)) \<le> n + n \<and> tc_has_write_complete_cb s
          then [FWriteComplete] else [])
    \<and> tc_wr_shut s' = tc_wr_shut s + (if length (content (tc_output s)) \<le> n + n \<and> tc_state s = kDisconnecting
          then 1 else 0)
    \<and> tc_input s' = tc_input s \<and> tc_has_message_cb s' = tc_has_message_cb s"
proof -
  have wf: "buf_wf (tc_output s)" using assms(1) by (auto elim: conn_invE)
  let ?C = "content (tc_output s)" and ?s1 = "written n s"
  note out = written_output [OF wf, of n]
  note eq = HandleWrite_writes [OF assms(1-3), of "write" n, OF assms(4,5)]
  show ?thesis
  proof (cases "length ?C \<le> n + n")
    case False
    have "conn_inv ?s1"
      using assms(1-3) out False by (auto simp: conn_inv_def chan_inv_def is_open_def open_events_def)
    then show ?thesis using eq out False by (intro exI [of _ ?s1]) simp
  next
    case True
    from output_done [OF assms(1-3) True] obtain ps where ps: "on_channel DisableWriting ?s1 = Inr (?s1\<lparr>tc_poll := ps\<rparr>)"
      "conn_inv (?s1\<lparr>tc_poll := ps\<rparr>)" .
    define s3 where "s3 = (if tc_has_write_complete_cb s then QueueInLoop_fn FWriteComplete (?s1\<lparr>tc_poll := ps\<rparr>)
        else ?s1\<lparr>tc_poll := ps\<rparr>)"
    have s3: "tc_state s3 = tc_state s" "tc_chan s3 = tc_chan s" "tc_wire s3 = tc_wire ?s1"
      "tc_output s3 = tc_output ?s1" "tc_wr_shut s3 = tc_wr_shut s" "tc_input s3 = tc_input s"
      "tc_has_message_cb s3 = tc_has_message_cb s" "tc_queue s3 = tc_queue s @ (if tc_has_write_complete_cb s then [FWriteComplete] else [])"
      by (simp_all add: s3_def QueueInLoop_fn_def)
    have inv3: "conn_inv s3" "is_open (tc_state s3)" using ps(2) assms(2) by (simp_all add: s3_def QueueInLoop_fn_def)
    have "Conn_HandleWrite write s = (if tc_state s = kDisconnecting then ShutdownInLoop s3 else Inr s3)"
      using eq out True ps(1) s3(1) by (simp add: Let_def s3_def)
    then show ?thesis
      using ShutdownInLoop_eq [OF inv3] ShutdownInLoop_inv [OF inv3] inv3 s3 out True assms(2)
      by (cases "tc_state s = kDisconnecting") (auto simp: is_open_def)
  qed
qed

lemma HandleWrite_idle:
  assumes "conn_inv s" and "\<not> (is_open (tc_state s) \<and> content (tc_output s) \<noteq> [])"
  shows "Conn_HandleWrite write s = Inr s"
proof -
  have "channel_writing s = Inr False"
    using open_writing [OF assms(1)] not_writing [OF assms(1)] assms(2) by (cases "is_open (tc_state s)") auto
  then show ?thesis by (simp add: Conn_HandleWrite_def)
qed

lemma HandleWrite_fails:
  assumes "conn_inv s" and "is_open (tc_state s)" and "content (tc_output s) \<noteq> []"
    and "\<And>n. write (content (tc_output s)) = Inr n \<Longrightarrow> n = 0"
  shows "\<exists>b. Conn_HandleWrite write s = Inr (s\<lparr>tc_output := b\<rparr>) \<and> conn_inv (s\<lparr>tc_output := b\<rparr>) \<and> content b = content (tc_output s)"
proof -
  have wf: "buf_wf (tc_output s)" using assms(1) by (auto elim: conn_invE)
  have w: "channel_writing s = Inr True" using open_writing [OF assms(1,2)] assms(3) by simp
  define b where "b = (case write (content (tc_output s)) of Inl err \<Rightarrow> tc_output s | Inr n \<Rightarrow> Retrieve (tc_output s) n)"
  have "buf_wf b \<and> content b = content (tc_output s)"
    using wf assms(4) by (auto simp: b_def wf_intros split: sum.splits)
  moreover have "Conn_HandleWrite write s = Inr (s\<lparr>tc_output := b\<rparr>)"
    using assms(4) w by (auto simp: Conn_HandleWrite_def WriteFd_wf [OF wf] b_def split: sum.splits)
  ultimately show ?thesis
    using assms(1) by (auto simp: conn_inv_def chan_inv_def cong: conn_state.case_cong)
qed

section \<open>Closing and tearing down\<close>

text \<open>What is asked of the application's callbacks: on a connection in order they return, leave it in
  order, and do not turn its life back.\<close>

definition user_ok :: "'u user_cb \<Rightarrow> bool" where
  "user_ok user \<longleftrightarrow>
     (\<forall>ev s. conn_inv s \<and> tc_state s \<noteq> kConnecting \<longrightarrow>
        (\<exists>s'. user ev s = Inr s' \<and> conn_inv s' \<and> state_rank (tc_state s) \<le> state_rank (tc_state s')))"

abbreviation moves_on :: "'u conn_sys \<Rightarrow> 'u conn_sys res \<Rightarrow> bool" where
  "moves_on s r \<equiv> \<exists>s'. r = Inr s' \<and> conn_inv s' \<and> state_rank (tc_state s) \<le> state_rank (tc_state s')"

lemma run_user_ok:
  assumes "user_ok user" and "conn_inv s" and "tc_state s \<noteq> kConnecting"
  shows "moves_on s (run_user has ev user s)"
  using assms by (auto simp: user_ok_def run_user_def)

lemma moves_on_bind:
  assumes "moves_on s r" and "\<And>s'. r = Inr s' \<Longrightarrow> conn_inv s' \<Longrightarrow> state_rank (tc_state s) \<le> state_rank (tc_state s') \<Longrightarrow> moves_on s' (k s')"
  shows "moves_on s (rbind r k)"
  using assms by fastforce

lemma rank_final: "state_rank kDisconnected \<le> state_rank st \<longleftrightarrow> st = kDisconnected"
  by (cases st) simp_all

lemma close_channel:
  assumes "conn_inv s" and "is_open (tc_state s)"
  obtains s' where "on_channel DisableAll (s\<lparr>tc_state := kDisconnected\<rparr>) = Inr s'" and "conn_inv s'"
    and "tc_state s' = kDisconnected"
    and "\<exists>ps. s' = s\<lparr>tc_state := kDisconnected, tc_poll := ps\<rparr>"
proof -
  from assms(1) obtain c where inv: "poller_inv (tc_poll s)" "buf_wf (tc_input s)" "buf_wf (tc_output s)"
    "chan_heap (tc_poll s) (tc_chan s) = Some c" "chan_inv s c"
    "tc_wr_shut s > 0 \<longrightarrow> tc_state s = kDisconnecting \<or> tc_state s = kDisconnected"
    by (rule conn_invE)
  have idx: "ch_index c = kAdded" and fd: "ch_fd c = tc_fd s"
    using inv(5) assms(2) by (auto simp: chan_inv_def is_open_def)
  let ?s = "s\<lparr>tc_state := kDisconnected\<rparr>"
  have "poller_inv (tc_poll ?s)" "chan_heap (tc_poll ?s) (tc_chan ?s) = Some c" using inv by simp_all
  from disable_all [OF this idx] obtain ps where ps: "on_channel DisableAll ?s = Inr (?s\<lparr>tc_poll := ps\<rparr>)"
    "poller_inv ps" "chan_heap ps (tc_chan s) = Some (c\<lparr>ch_events := kNoneEvent, ch_index := kDeleted\<rparr>)" by auto
  have "conn_inv (?s\<lparr>tc_poll := ps\<rparr>)" using ps inv fd by (auto simp: conn_inv_def chan_inv_def)
  then show ?thesis using ps(1) by (intro that [of "?s\<lparr>tc_poll := ps\<rparr>"]) auto
qed

lemma HandleClose_ok:
  assumes "user_ok user" and "conn_inv s" and "is_open (tc_state s)"
  shows "\<exists>s'. HandleClose user s = Inr s' \<and> conn_inv s' \<and> tc_state s' = kDisconnected"
proof -
  from assms(2,3) obtain s1 where s1: "on_channel DisableAll (s\<lparr>tc_state := kDisconnected\<rparr>) = Inr s1"
    "conn_inv s1" "tc_state s1 = kDisconnected" by (rule close_channel)
  from run_user_ok [OF assms(1) s1(2), of "tc_has_close_cb s1" EvClose] s1(3) obtain s2 where s2:
    "run_user (tc_has_close_cb s1) EvClose user s1 = Inr s2" "conn_inv s2" "tc_state s2 = kDisconnected"
    unfolding s1(3) rank_final by auto
  from run_user_ok [OF assms(1) s2(2), of "tc_has_connection_cb s2" EvConnection] s2(3) obtain s3 where
    "run_user (tc_has_connection_cb s2) EvConnection user s2 = Inr s3" "conn_inv s3" "tc_state s3 = kDisconnected"
    unfolding s2(3) rank_final by auto
  then show ?thesis using assms(3) s1(1) s2(1) by (simp add: HandleClose_def is_open_def)
qed

lemma ForceCloseInLoop_ok:
  assumes "user_ok user" and "conn_inv s"
  shows "moves_on s (ForceCloseInLoop user s)"
  using HandleClose_ok [OF assms] assms(2)
  by (cases "is_open (tc_state s)") (auto simp: ForceCloseInLoop_def is_open_def)

lemma ConnectEstablished_opens:
  assumes "conn_inv s" and "tc_state s = kConnecting"
  obtains s1 where "ConnectEstablished self user s = run_user (tc_has_connection_cb s) EvConnection user s1"
    and "conn_inv s1" and "tc_state s1 = kConnected" and "\<exists>ps. s1 = s\<lparr>tc_state := kConnected, tc_poll := ps\<rparr>"
proof -
  from assms(1) obtain c where inv: "poller_inv (tc_poll s)" "buf_wf (tc_input s)" "buf_wf (tc_output s)"
    "chan_heap (tc_poll s) (tc_chan s) = Some c" "chan_inv s c"
    "tc_wr_shut s > 0 \<longrightarrow> tc_state s = kDisconnecting \<or> tc_state s = kDisconnected"
    by (rule conn_invE)
  have c: "ch_index c = kNew" "ch_events c = kNoneEvent" "m_channels (tc_poll s) (tc_fd s) = None"
    "ch_fd c = tc_fd s" "content (tc_output s) = []"
    using inv(5) assms(2) by (auto simp: chan_inv_def)
  let ?c = "SetTie self c" and ?p = "put_channel (tc_chan s) (SetTie self c) (tc_poll s)"
  let ?s = "s\<lparr>tc_state := kConnected, tc_poll := ?p\<rparr>"
  have same_but_tie: "ch_fd ?c = ch_fd c" "ch_events ?c = ch_events c" "ch_index ?c = ch_index c"
    by (simp_all add: SetTie_def)
  have "watched ?p = watched (tc_poll s)"
    using same_but_tie inv(4) by (auto simp: watched_def put_channel_def fun_eq_iff split: option.splits)
  then have "poller_inv ?p"
    using inv(1,4) same_but_tie
    by (auto simp: poller_inv_def put_channel_def channel_ok_def) (metis option.inject)
  moreover have "chan_heap ?p (tc_chan s) = Some ?c" by (simp add: put_channel_def)
  moreover have "m_channels ?p (tc_fd s) = None" using c by (simp add: put_channel_def)
  ultimately obtain ps where ps: "on_channel EnableReading ?s = Inr (?s\<lparr>tc_poll := ps\<rparr>)" "poller_inv ps"
    "chan_heap ps (tc_chan s) = Some (?c\<lparr>ch_events := kReadEvent, ch_index := kAdded\<rparr>)"
    using on_channel_op [of ?s ?c ChEnableReading] c same_but_tie by (auto simp: next_index_def)
  have "conn_inv (?s\<lparr>tc_poll := ps\<rparr>)"
    using ps inv c same_but_tie assms(2) by (auto simp: conn_inv_def chan_inv_def open_events_def)
  then show ?thesis
    using assms(2) inv(4) ps(1) by (intro that [of "?s\<lparr>tc_poll := ps\<rparr>"]) (auto simp: ConnectEstablished_def set_tie_def with_channel_def)
qed

lemma ConnectEstablished_ok:
  assumes "user_ok user" and "conn_inv s" and "tc_state s = kConnecting"
  shows "moves_on s (ConnectEstablished self user s)"
proof -
  from assms(2,3) obtain s1 where s1: "ConnectEstablished self user s = run_user (tc_has_connection_cb s) EvConnection user s1"
    "conn_inv s1" "tc_state s1 = kConnected" by (rule ConnectEstablished_opens)
  then show ?thesis using run_user_ok [OF assms(1) s1(2), of "tc_has_connection_cb s" EvConnection] assms(3) by auto
qed

lemma ConnectDestroyed_closed:
  assumes "conn_inv s" and "tc_state s = kDisconnected"
  shows "\<exists>ps. (with_channel (tc_chan s) (tc_poll s) (\<lambda>c.
      if ch_index c \<noteq> - 1 then on_channel Channel_Remove s else Inr s)) = Inr (s\<lparr>tc_poll := ps\<rparr>)
    \<and> conn_inv (s\<lparr>tc_poll := ps\<rparr>)
    \<and> (\<exists>c. chan_heap ps (tc_chan s) = Some c \<and> ch_events c = kNoneEvent \<and> ch_index c = kNew)"
proof -
  from assms(1) obtain c where inv: "poller_inv (tc_poll s)" "buf_wf (tc_input s)" "buf_wf (tc_output s)"
    "chan_heap (tc_poll s) (tc_chan s) = Some c" "chan_inv s c"
    "tc_wr_shut s > 0 \<longrightarrow> tc_state s = kDisconnecting \<or> tc_state s = kDisconnected"
    by (rule conn_invE)
  have c: "ch_events c = kNoneEvent" "ch_fd c = tc_fd s" using inv(5) assms(2) by (auto simp: chan_inv_def)
  show ?thesis
  proof (cases "ch_index c = kNew")
    case True
    then have "with_channel (tc_chan s) (tc_poll s) (\<lambda>c.
        if ch_index c \<noteq> - 1 then on_channel Channel_Remove s else Inr s) = Inr (s\<lparr>tc_poll := tc_poll s\<rparr>)"
      using inv(4) by (simp add: with_channel_def kNew_def)
    then show ?thesis using assms(1) inv(4) c True by (intro exI [of _ "tc_poll s"]) simp
  next
    case False
    then have "m_channels (tc_poll s) (ch_fd c) = Some (tc_chan s)"
      using poller_invD(1) [OF inv(1,4)] by (simp add: channel_ok_def)
    define ps where "ps = tc_poll s\<lparr>chan_heap := (chan_heap (tc_poll s))(tc_chan s \<mapsto> c\<lparr>ch_index := kNew\<rparr>),
        m_channels := (m_channels (tc_poll s))(ch_fd c := None)\<rparr>"
    from Remove_ok [OF inv(1,4) \<open>m_channels (tc_poll s) (ch_fd c) = Some (tc_chan s)\<close> c(1) ps_def]
    have "Channel_Remove (tc_chan s) (tc_poll s) = Inr ps" "poller_inv ps" by simp_all
    moreover have "chan_heap ps (tc_chan s) = Some (c\<lparr>ch_index := kNew\<rparr>)" by (simp add: ps_def)
    moreover from this have "conn_inv (s\<lparr>tc_poll := ps\<rparr>)"
      using \<open>poller_inv ps\<close> inv c assms(2) by (auto simp: conn_inv_def chan_inv_def)
    ultimately show ?thesis
      using inv(4) False c by (intro exI [of _ ps]) (simp add: with_channel_def on_channel_def kNew_def)
  qed
qed

lemma ConnectDestroyed_ok:
  assumes "user_ok user" and "conn_inv s" and "tc_state s \<noteq> kDisconnecting"
  shows "moves_on s (ConnectDestroyed user s)"
proof (cases "tc_state s")
  case kConnecting
  then show ?thesis
    using assms(2) by (elim conn_invE) (auto simp: ConnectDestroyed_def with_channel_def chan_inv_def kNew_def assms(2))
next
  case kConnected
  then have "is_open (tc_state s)" by (simp add: is_open_def)
  with assms(2) obtain s1 where s1: "on_channel DisableAll (s\<lparr>tc_state := kDisconnected\<rparr>) = Inr s1"
    "conn_inv s1" "tc_state s1 = kDisconnected" by (rule close_channel)
  from run_user_ok [OF assms(1) s1(2), of "tc_has_connection_cb s1" EvConnection] s1(3) obtain s2 where
    s2: "run_user (tc_has_connection_cb s1) EvConnection user s1 = Inr s2" "conn_inv s2" "tc_state s2 = kDisconnected"
    unfolding s1(3) rank_final by auto
  show ?thesis
    using kConnected s1(1) s2(1) ConnectDestroyed_closed [OF s2(2,3)] s2(3) by (auto simp: ConnectDestroyed_def)
next
  case kDisconnecting
  then show ?thesis using assms(3) by simp
next
  case kDisconnected
  then show ?thesis using ConnectDestroyed_closed [OF assms(2)] by (auto simp: ConnectDestroyed_def)
qed

lemma ConnectDestroyed_disconnecting:
  assumes "conn_inv s" and "tc_state s = kDisconnecting"
  shows "ConnectDestroyed user s = Inl AssertionFailed"
  using assms
  by (auto elim!: conn_invE simp: ConnectDestroyed_def with_channel_def chan_inv_def on_channel_def
      Channel_Remove_def IsNoneEvent_def open_events_def kAdded_def)

section \<open>Reading\<close>

text \<open>There is memory for what one \<open>readv\<close> can deliver.\<close>

definition read_room :: "'u conn_sys \<Rightarrow> bool" where
  "read_room s \<longleftrightarrow> length (m_data (tc_input s)) + extrabuf_size \<le> vec_max"

lemma HandleRead_eq:
  assumes "conn_inv s" and "readv_contract readv" and "read_room s"
  shows "\<exists>b. conn_inv (s\<lparr>tc_input := b\<rparr>)
    \<and> content b = content (tc_input s) @ (case readv (read_vec (tc_input s)) of Inl _ \<Rightarrow> [] | Inr bs \<Rightarrow> bs)
    \<and> Conn_HandleRead readv user t s =
        (case readv (read_vec (tc_input s)) of
           Inl err \<Rightarrow> Inr (s\<lparr>tc_input := b\<rparr>)
         | Inr bs \<Rightarrow> if bs = [] then HandleClose user (s\<lparr>tc_input := b\<rparr>)
             else run_user (tc_has_message_cb s) (EvMessage t) user (s\<lparr>tc_input := b\<rparr>))"
proof -
  have wf: "buf_wf (tc_input s)" using assms(1) by (auto elim: conn_invE)
  have upd: "conn_inv (s\<lparr>tc_input := b\<rparr>)" if "buf_wf b" for b
    using assms(1) that by (auto simp: conn_inv_def chan_inv_def cong: conn_state.case_cong)
  note out = ReadFd_outcome [OF wf assms(2), of 0] assms(3) [unfolded read_room_def]
  show ?thesis
  proof (cases "readv (read_vec (tc_input s))")
    case (Inl err)
    then show ?thesis
      using out upd [OF wf] by (intro exI [of _ "tc_input s"]) (simp add: Conn_HandleRead_def HandleError_def)
  next
    case (Inr bs)
    then obtain b where b: "ReadFd readv (tc_input s) 0 = Inr (int (length bs), 0, b)" "buf_wf b"
      "content b = content (tc_input s) @ bs"
      using out by auto
    then show ?thesis using upd [OF b(2)] Inr by (intro exI [of _ b]) (simp add: Conn_HandleRead_def Let_def)
  qed
qed

lemma HandleRead_ok:
  assumes "user_ok user" and "conn_inv s" and "readv_contract readv" and "read_room s" and "is_open (tc_state s)"
  shows "moves_on s (Conn_HandleRead readv user t s)"
proof -
  from HandleRead_eq [OF assms(2-4), of user t] obtain b where b: "conn_inv (s\<lparr>tc_input := b\<rparr>)"
    "Conn_HandleRead readv user t s = (case readv (read_vec (tc_input s)) of
           Inl err \<Rightarrow> Inr (s\<lparr>tc_input := b\<rparr>)
         | Inr bs \<Rightarrow> if bs = [] then HandleClose user (s\<lparr>tc_input := b\<rparr>)
             else run_user (tc_has_message_cb s) (EvMessage t) user (s\<lparr>tc_input := b\<rparr>))" by blast
  have "moves_on s (HandleClose user (s\<lparr>tc_input := b\<rparr>))"
    using HandleClose_ok [OF assms(1) b(1)] assms(5) by (auto simp: is_open_def)
  moreover have "moves_on s (run_user (tc_has_message_cb s) (EvMessage t) user (s\<lparr>tc_input := b\<rparr>))"
    using run_user_ok [OF assms(1) b(1)] assms(5) by (auto simp: is_open_def)
  ultimately show ?thesis using b by (auto split: sum.splits)
qed

section \<open>All operations\<close>

datatype conn_op =
    OpSend "byte list"
  | OpShutdown
  | OpForceClose
  | OpEstablish nat
  | OpDestroy
  | OpRead int
  | OpWrite
  | OpClose
  | OpError

fun do_conn_op :: "readv_fun \<Rightarrow> write_fun \<Rightarrow> 'u user_cb \<Rightarrow> conn_op \<Rightarrow> 'u conn_sys \<Rightarrow> 'u conn_sys res" where
  "do_conn_op readv write user (OpSend message) s = Send True write message s"
| "do_conn_op readv write user OpShutdown s = Shutdown True s"
| "do_conn_op readv write user OpForceClose s = ForceClose True user s"
| "do_conn_op readv write user (OpEstablish self) s = ConnectEstablished self user s"
| "do_conn_op readv write user OpDestroy s = ConnectDestroyed user s"
| "do_conn_op readv write user (OpRead t) s = Conn_HandleRead readv user t s"
| "do_conn_op readv write user OpWrite s = Conn_HandleWrite write s"
| "do_conn_op readv write user OpClose s = HandleClose user s"
| "do_conn_op readv write user OpError s = HandleError s"

text \<open>When an operation may be called: \<open>ConnectEstablished\<close> once at the beginning, the end of the stream
  and \<open>HandleClose\<close> only while the connection is open, \<open>ConnectDestroyed\<close> not while it waits for its
  output to drain; sending and reading need memory.\<close>

fun conn_pre :: "conn_op \<Rightarrow> 'u conn_sys \<Rightarrow> bool" where
  "conn_pre (OpSend message) s \<longleftrightarrow> m_writer_index (tc_output s) + length message \<le> vec_max"
| "conn_pre (OpEstablish self) s \<longleftrightarrow> tc_state s = kConnecting"
| "conn_pre OpDestroy s \<longleftrightarrow> tc_state s \<noteq> kDisconnecting"
| "conn_pre (OpRead t) s \<longleftrightarrow> is_open (tc_state s) \<and> read_room s"
| "conn_pre OpClose s \<longleftrightarrow> is_open (tc_state s)"
| "conn_pre _ s \<longleftrightarrow> True"

lemma Send_moves_on:
  assumes "conn_inv s" and "write_contract write" and "m_writer_index (tc_output s) + length message \<le> vec_max"
  shows "moves_on s (Send True write message s)"
proof (cases "tc_state s = kConnected \<and> message \<noteq> []")
  case True
  then show ?thesis using SendInLoop_ok [OF assms(1) _ assms(2,3)] by (auto simp: Send_def)
next
  case False
  then show ?thesis using assms(1) by (auto simp: Send_def SendInLoop_def)
qed

lemma HandleWrite_moves_on:
  assumes "conn_inv s"
  shows "moves_on s (Conn_HandleWrite write s)"
proof (cases "is_open (tc_state s) \<and> content (tc_output s) \<noteq> []")
  case False
  then show ?thesis using HandleWrite_idle [OF assms] assms by auto
next
  case True
  show ?thesis
  proof (cases "\<exists>n. write (content (tc_output s)) = Inr n \<and> 0 < n")
    case w: True
    then obtain n where "write (content (tc_output s)) = Inr n" "0 < n" by blast
    then show ?thesis using HandleWrite_ok [OF assms, of "write" n] True by fastforce
  next
    case False
    then have "\<exists>b. Conn_HandleWrite write s = Inr (s\<lparr>tc_output := b\<rparr>) \<and> conn_inv (s\<lparr>tc_output := b\<rparr>)
        \<and> content b = content (tc_output s)"
      using True by (intro HandleWrite_fails [OF assms]) auto
    then show ?thesis by auto
  qed
qed

lemma Shutdown_moves_on:
  assumes "conn_inv s"
  shows "moves_on s (Shutdown True s)"
  using ShutdownInLoop_eq [OF assms] ShutdownInLoop_inv [OF assms] assms
  by (cases "is_open (tc_state s)") (auto simp: Shutdown_def is_open_def)

text \<open>A connection is in order from its construction on.\<close>

lemma TcpConnection_ctor_inv:
  assumes "poller_inv ps" and "chan_heap ps p = None" and "m_channels ps fd = None" and "0 \<le> fd"
  shows "\<exists>s. TcpConnection_ctor p fd u ps = Inr s \<and> conn_inv s \<and> tc_state s = kConnecting
    \<and> content (tc_input s) = [] \<and> content (tc_output s) = [] \<and> tc_wire s = [] \<and> tc_queue s = []"
proof -
  obtain ps1 where new: "new_channel p fd ps = Inr ps1" using assms(4) by (simp add: new_channel_def Channel_ctor_def)
  from new_channel_inv [OF assms(1,2) new] obtain c where ps1: "poller_inv ps1" "m_channels ps1 = m_channels ps"
    "chan_heap ps1 = (chan_heap ps)(p \<mapsto> c)" and c: "ch_fd c = fd" "ch_events c = kNoneEvent" "ch_index c = kNew" by blast
  have "kInitialSize + 8 \<le> vec_max" by (simp add: kInitialSize_def vec_max_def)
  then obtain b where b: "Buffer_default = Inr b" "buf_wf b" "content b = []"
    by (metis Buffer_ctor_wf Buffer_default_def)
  define c2 where "c2 = c\<lparr>ch_read_callback := Some CbRead, ch_write_callback := Some CbWrite,
      ch_close_callback := Some CbClose, ch_error_callback := Some CbError\<rparr>"
  let ?ps = "put_channel p c2 ps1"
  have c2: "ch_fd c2 = fd" "ch_events c2 = kNoneEvent" "ch_index c2 = kNew" using c by (simp_all add: c2_def)
  have "watched ?ps = watched ps1"
    using c c2 ps1(3) by (auto simp: watched_def put_channel_def fun_eq_iff split: option.splits)
  moreover have "m_channels ps1 g \<noteq> Some p" for g
    using poller_invD(2) [OF assms(1), of g p] assms(2) ps1(2) by auto
  ultimately have "poller_inv ?ps"
    using ps1(1) c2 by (auto simp: poller_inv_def put_channel_def channel_ok_def)
  moreover obtain s where s: "TcpConnection_ctor p fd u ps = Inr s" "tc_state s = kConnecting" "tc_fd s = fd"
    "tc_chan s = p" "tc_input s = b" "tc_output s = b" "tc_poll s = ?ps" "tc_wr_shut s = 0"
    "tc_wire s = []" "tc_queue s = []"
    using ps1(3) by (simp add: TcpConnection_ctor_def new b(1) with_channel_def c2_def)
  ultimately have "conn_inv s"
    using b c2 assms(3) ps1(2) by (simp add: conn_inv_def chan_inv_def put_channel_def)
  then show ?thesis using s b(3) by auto
qed

definition conn_step :: "readv_fun \<Rightarrow> write_fun \<Rightarrow> 'u user_cb \<Rightarrow> 'u conn_sys \<Rightarrow> conn_op \<Rightarrow> 'u conn_sys \<Rightarrow> bool" where
  "conn_step readv write user s oper s' \<longleftrightarrow> conn_pre oper s \<and> do_conn_op readv write user oper s = Inr s'"

lemma conn_op_moves_on:
  assumes "conn_inv s" and "conn_pre oper s" and "user_ok user" and "readv_contract readv" and "write_contract write"
  shows "moves_on s (do_conn_op readv write user oper s)"
proof (cases oper)
  case (OpSend message)
  then show ?thesis using Send_moves_on [OF assms(1,5)] assms(2) by simp
next
  case OpForceClose
  then show ?thesis
    using ForceCloseInLoop_ok [OF assms(3,1)] assms(1) by (auto simp: ForceClose_def)
next
  case (OpEstablish self)
  then show ?thesis using ConnectEstablished_ok [OF assms(3,1)] assms(2) by simp
next
  case OpDestroy
  then show ?thesis using ConnectDestroyed_ok [OF assms(3,1)] assms(2) by simp
next
  case (OpRead t)
  then show ?thesis using HandleRead_ok [OF assms(3,1,4)] assms(2) by simp
next
  case OpClose
  then show ?thesis using HandleClose_ok [OF assms(3,1)] assms(2) by (auto simp: rank_final is_open_def)
qed (use Shutdown_moves_on [OF assms(1)] HandleWrite_moves_on [OF assms(1)] assms(1) in \<open>auto simp: HandleError_def\<close>)

section \<open>Properties\<close>

text \<open>An open connection on descriptor 3 with three bytes of output pending, or with none, for concrete runs.\<close>

definition sample_poll :: "events \<Rightarrow> conn_cb poll_state" where
  "sample_poll ev = \<lparr>chan_heap = [1 \<mapsto> \<lparr>ch_fd = 3, ch_events = ev, ch_revents = POLLHUP OR POLLPRI, ch_index = kAdded,
        ch_tied = True, ch_tie = Some 0, ch_read_callback = Some CbRead, ch_write_callback = Some CbWrite,
        ch_close_callback = Some CbClose, ch_error_callback = Some CbError\<rparr>],
     m_channels = [3 \<mapsto> 1], m_events_size = 16, ctl_calls = [(EPOLL_CTL_ADD, 3, ev, 1)]\<rparr>"

definition sample_conn :: "conn_state \<Rightarrow> buffer \<Rightarrow> unit conn_sys" where
  "sample_conn st outp = \<lparr>tc_state = st, tc_fd = 3, tc_chan = 1, tc_input = buf10, tc_output = outp,
     tc_high_water_mark = 64 * 1024, tc_has_connection_cb = True, tc_has_message_cb = True, tc_has_close_cb = True,
     tc_has_write_complete_cb = True, tc_has_high_water_cb = False,
     tc_poll = sample_poll (open_events (content outp)), tc_queue = [], tc_wire = [], tc_wr_shut = 0, tc_user = ()\<rparr>"

lemma sample_poll_inv: "ev \<noteq> kNoneEvent \<Longrightarrow> poller_inv (sample_poll ev)"
proof -
  assume "ev \<noteq> kNoneEvent"
  moreover have "watched (sample_poll ev) = [3 \<mapsto> (ev, 1)]"
    by (auto simp: watched_def sample_poll_def fun_eq_iff)
  moreover have "interest_of (ctl_calls (sample_poll ev)) = Some [3 \<mapsto> (ev, 1)]"
    using interest_of_snoc [of "[]"] by (simp add: sample_poll_def)
  ultimately show ?thesis
    by (simp add: poller_inv_def channel_ok_def) (simp add: sample_poll_def)
qed

lemma sample_conn_inv: "buf_wf outp \<Longrightarrow> is_open st \<Longrightarrow> conn_inv (sample_conn st outp)"
  using sample_poll_inv [of "open_events (content outp)"] buf10_facts(1)
  by (auto simp: conn_inv_def sample_conn_def sample_poll_def chan_inv_def open_events_def is_open_def)

text \<open>
  C5. Sending on a connected connection loses nothing and reorders nothing: the bytes the kernel has
  accepted followed by the bytes still in the output buffer are what they were before, followed
  by the message. The one exception is a direct write that finds the peer gone (\<open>EPIPE\<close>,
  \<open>ECONNRESET\<close>), where the message is dropped. The write-complete notification is queued exactly when
  a direct write took the whole message, the high-water notification exactly when the buffered
  output crosses the mark from below; the connection stays in order, so that output left in the
  buffer has its write interest registered.
\<close>

theorem Send_keeps_stream:
  assumes "conn_inv s" and "tc_state s = kConnected" and "write_contract write"
    and "m_writer_index (tc_output s) + length message \<le> vec_max" and "message \<noteq> []"
  shows "\<exists>s'. Send True write message s = Inr s' \<and> conn_inv s' \<and> tc_state s' = kConnected
    \<and> tc_wire s' @ content (tc_output s') =
        tc_wire s @ content (tc_output s) @ (if drops write message s then [] else message)
    \<and> tc_queue s' = tc_queue s
        @ (if content (tc_output s) = [] \<and> write message = Inr (length message) \<and> tc_has_write_complete_cb s
           then [FWriteComplete] else [])
        @ (if length (content (tc_output s)) < tc_high_water_mark s
              \<and> tc_high_water_mark s \<le> length (content (tc_output s')) \<and> tc_has_high_water_cb s
           then [FHighWaterMark (length (content (tc_output s')))] else [])"
proof -
  have eq: "Send True write message s = SendInLoop write message s" using assms(5) by (simp add: Send_def)
  show ?thesis
    unfolding eq using SendInLoop_ok [OF assms(1-4)] unfolding complete_fn_def high_water_fn_def
    by (elim exE conjE) (intro exI conjI; assumption)
qed

theorem Send_keeps_stream_witness:
  "\<exists>s'. Send True (\<lambda>bs. Inr (min 2 (length bs))) [97, 98, 99] (sample_conn kConnected buf10) = Inr s'
     \<and> tc_wire s' @ content (tc_output s') = [97, 98, 99]"
proof -
  have "conn_inv (sample_conn kConnected buf10)"
    by (rule sample_conn_inv) (simp_all add: buf10_facts is_open_def)
  moreover have "write_contract (\<lambda>bs. Inr (min 2 (length bs)))" by (simp add: write_contract_def)
  moreover have "tc_state (sample_conn kConnected buf10) = kConnected" "tc_wire (sample_conn kConnected buf10) = []"
    "tc_output (sample_conn kConnected buf10) = buf10" by (simp_all add: sample_conn_def)
  ultimately show ?thesis
    using Send_keeps_stream [of "sample_conn kConnected buf10" "\<lambda>bs. Inr (min 2 (length bs))" "[97, 98, 99]"]
    by (auto simp: buf10_facts vec_max_def drops_def)
qed

text \<open>
  When the socket becomes writable and takes all of the pending output, \<open>HandleWrite\<close> has sent
  exactly that output, leaves the buffer empty and the write interest off, and queues the
  write-complete notification; if \<open>Shutdown\<close> was called before, which did not close the
  sending side while output was pending, it is closed now.
\<close>

theorem HandleWrite_drains:
  assumes "conn_inv s" and "is_open (tc_state s)" and "content (tc_output s) \<noteq> []"
    and "write (content (tc_output s)) = Inr (length (content (tc_output s)))"
  shows "\<exists>s1 s2. Shutdown True s = Inr s1 \<and> tc_state s1 = kDisconnecting \<and> tc_wr_shut s1 = tc_wr_shut s
    \<and> Conn_HandleWrite write s1 = Inr s2 \<and> conn_inv s2 \<and> tc_state s2 = kDisconnecting
    \<and> tc_wire s2 = tc_wire s @ content (tc_output s) \<and> content (tc_output s2) = []
    \<and> channel_writing s2 = Inr False
    \<and> tc_queue s2 = tc_queue s @ (if tc_has_write_complete_cb s then [FWriteComplete] else [])
    \<and> tc_wr_shut s2 = tc_wr_shut s + 1"
proof -
  let ?s1 = "s\<lparr>tc_state := kDisconnecting, tc_wr_shut := tc_wr_shut s\<rparr>"
  have sd: "Shutdown True s = Inr ?s1"
    using ShutdownInLoop_eq [OF assms(1,2)] assms(2,3) by (auto simp: Shutdown_def is_open_def)
  have inv: "conn_inv ?s1" "is_open (tc_state ?s1)"
    using ShutdownInLoop_inv [OF assms(1,2), of "tc_wr_shut s"] by (simp_all add: is_open_def)
  have "0 < length (content (tc_output s))" using assms(3) by blast
  then obtain s2 where s2: "Conn_HandleWrite write ?s1 = Inr s2" "conn_inv s2" "tc_state s2 = kDisconnecting"
    "tc_wire s2 = tc_wire s @ content (tc_output s)" "content (tc_output s2) = []"
    "tc_queue s2 = tc_queue s @ (if tc_has_write_complete_cb s then [FWriteComplete] else [])"
    "tc_wr_shut s2 = tc_wr_shut s + 1"
    using HandleWrite_ok [OF inv, of "write" "length (content (tc_output s))"] assms(3,4)
    by (auto simp del: length_content)
  then show ?thesis using sd open_writing [OF s2(2)] by (auto simp: is_open_def)
qed

theorem HandleWrite_drains_witness:
  "\<exists>s1 s2. Shutdown True (sample_conn kConnected buf_abc) = Inr s1 \<and> tc_wr_shut s1 = 0
     \<and> Conn_HandleWrite (\<lambda>bs. Inr (length bs)) s1 = Inr s2 \<and> tc_wire s2 = [97, 98, 99] \<and> tc_wr_shut s2 = 1"
proof -
  have "conn_inv (sample_conn kConnected buf_abc)"
    by (rule sample_conn_inv) (simp_all add: buf_abc_facts is_open_def)
  moreover have "tc_state (sample_conn kConnected buf_abc) = kConnected" "tc_wire (sample_conn kConnected buf_abc) = []"
    "tc_output (sample_conn kConnected buf_abc) = buf_abc" "tc_wr_shut (sample_conn kConnected buf_abc) = 0"
    by (simp_all add: sample_conn_def)
  ultimately show ?thesis
    using HandleWrite_drains [of "sample_conn kConnected buf_abc" "\<lambda>bs. Inr (length bs)"]
    by (auto simp: buf_abc_facts is_open_def)
qed

text \<open>
  C30. When the socket takes only the first \<open>n\<close> bytes of the pending output, the \<open>n\<close> bytes after them
  are lost: \<open>WriteFd\<close> has already retrieved what was written when \<open>HandleWrite\<close> retrieves it
  again. They reach neither the kernel nor the buffer, and if no more than those were left, the
  connection even reports the output as completely written.
\<close>

theorem HandleWrite_partial_write_loses:
  assumes "conn_inv s" and "is_open (tc_state s)" and "write (content (tc_output s)) = Inr n"
    and "0 < n" and "n < length (content (tc_output s))"
  shows "\<exists>s'. Conn_HandleWrite write s = Inr s'
    \<and> tc_wire s' @ content (tc_output s') =
        tc_wire s @ take n (content (tc_output s)) @ drop (n + n) (content (tc_output s))
    \<and> length (tc_wire s' @ content (tc_output s')) < length (tc_wire s @ content (tc_output s))
    \<and> (length (content (tc_output s)) \<le> n + n \<and> tc_has_write_complete_cb s \<longrightarrow>
         tc_queue s' = tc_queue s @ [FWriteComplete])"
proof -
  have "content (tc_output s) \<noteq> []" using assms(4,5) by auto
  from HandleWrite_ok [OF assms(1,2) this, of "write" n, OF assms(3,4)] obtain s' where
    "Conn_HandleWrite write s = Inr s'" "tc_wire s' = tc_wire s @ take n (content (tc_output s))"
    "content (tc_output s') = drop (n + n) (content (tc_output s))"
    "tc_queue s' = tc_queue s @ (if length (content (tc_output s)) \<le> n + n \<and> tc_has_write_complete_cb s
          then [FWriteComplete] else [])" by blast
  then show ?thesis using assms(4,5) by (intro exI [of _ s']) (auto simp del: length_content)
qed

theorem HandleWrite_partial_write_loses_witness:
  "\<exists>s'. Conn_HandleWrite (\<lambda>bs. Inr 2) (sample_conn kConnected buf_abc) = Inr s'
     \<and> tc_wire s' @ content (tc_output s') = [97, 98] \<and> tc_queue s' = [FWriteComplete]"
proof -
  have "conn_inv (sample_conn kConnected buf_abc)"
    by (rule sample_conn_inv) (simp_all add: buf_abc_facts is_open_def)
  moreover have "tc_state (sample_conn kConnected buf_abc) = kConnected" "tc_wire (sample_conn kConnected buf_abc) = []"
    "tc_output (sample_conn kConnected buf_abc) = buf_abc" "tc_queue (sample_conn kConnected buf_abc) = []"
    "tc_has_write_complete_cb (sample_conn kConnected buf_abc)"
    by (simp_all add: sample_conn_def)
  ultimately show ?thesis
    using HandleWrite_partial_write_loses [of "sample_conn kConnected buf_abc" "\<lambda>bs. Inr 2" 2]
    by (auto simp: buf_abc_facts is_open_def simp del: length_content)
qed



text \<open>
  C23. The end of a connection: after \<open>HandleClose\<close>, \<open>ConnectDestroyed\<close> takes the channel out of the
  poller, a second \<open>ConnectDestroyed\<close> changes nothing, and the destructor's assertions hold.
  Called instead on a connection that is still draining its output after \<open>Shutdown\<close>,
  \<open>ConnectDestroyed\<close> fails the assertion of \<open>Channel::Remove\<close>, whatever the callbacks.
\<close>

theorem connection_teardown:
  assumes "conn_inv s" and "is_open (tc_state s)" and "user_ok user"
  shows "(\<exists>s1 s2. HandleClose user s = Inr s1 \<and> ConnectDestroyed user s1 = Inr s2
      \<and> ConnectDestroyed user s2 = Inr s2 \<and> (\<exists>ps. TcpConnection_dtor s2 = Inr ps))
    \<and> (tc_state s = kDisconnecting \<longrightarrow> ConnectDestroyed user s = Inl AssertionFailed)"
proof
  from HandleClose_ok [OF assms(3,1,2)] obtain s1 where s1: "HandleClose user s = Inr s1" "conn_inv s1"
    "tc_state s1 = kDisconnected" by blast
  from ConnectDestroyed_closed [OF s1(2,3)] obtain ps c where ps: "ConnectDestroyed user s1 = Inr (s1\<lparr>tc_poll := ps\<rparr>)"
    "chan_heap ps (tc_chan s1) = Some c" "ch_events c = kNoneEvent" "ch_index c = kNew"
    using s1(3) by (auto simp: ConnectDestroyed_def)
  then have "ConnectDestroyed user (s1\<lparr>tc_poll := ps\<rparr>) = Inr (s1\<lparr>tc_poll := ps\<rparr>)"
    and "\<exists>ps'. TcpConnection_dtor (s1\<lparr>tc_poll := ps\<rparr>) = Inr ps'"
    using s1(3) by (simp_all add: ConnectDestroyed_def TcpConnection_dtor_def Channel_dtor_def with_channel_def
        IsNoneEvent_def kNew_def)
  then show "\<exists>s1 s2. HandleClose user s = Inr s1 \<and> ConnectDestroyed user s1 = Inr s2
      \<and> ConnectDestroyed user s2 = Inr s2 \<and> (\<exists>ps. TcpConnection_dtor s2 = Inr ps)"
    using s1(1) ps(1) by blast
qed (use ConnectDestroyed_disconnecting [OF assms(1)] in blast)

theorem connection_teardown_witness:
  "ConnectDestroyed (\<lambda>ev s. Inr s) (sample_conn kDisconnecting buf_abc) = Inl AssertionFailed"
proof -
  have inv: "conn_inv (sample_conn kDisconnecting buf_abc)"
    by (rule sample_conn_inv) (simp_all add: buf_abc_facts is_open_def)
  have "user_ok (\<lambda>ev s. Inr s :: unit conn_sys res)" by (simp add: user_ok_def)
  from connection_teardown [OF inv _ this] show ?thesis by (simp add: sample_conn_def is_open_def)
qed



end
