(* ===== verification/Event_Loop.thy ===== *)
theory Event_Loop
  imports Timer_Queue Epoll_Poller
begin

text \<open>
  \<open>net/event_loop.{h,cpp}\<close>: the loop of one thread and the calls other threads may make. The flags,
  the functor queue and the counter of the eventfd are the state; the loop thread is at one of
  the points of \<open>Loop\<close> and \<open>DoPendingFunctors\<close>, and a step is one access to the shared state, so
  that every interleaving with \<open>QueueInLoop\<close> and \<open>Quit\<close> of other threads is a sequence of steps.
  Construction, destruction and what one round does with the poller and the timers are in
  \<open>Loop_Object\<close>.
\<close>

section \<open>State\<close>

text \<open>What code running in the loop thread can ask of the loop. \<open>RunInLoop\<close> called there runs its
  functor at once, so its actions are those of the caller.\<close>

datatype 'f act = AQueue 'f | AQuit

text \<open>A channel in the active list: the wakeup channel, whose callback reads the eventfd, or another
  one with what its callbacks do.\<close>

datatype 'f handler = WakeupRead | UserHandler "'f act list"

datatype 'f loop_pc =
    BeforeLoop
  | LoopTop
  | InPoll
  | Handling "'f handler list"
  | BeforeSwap
  | Running "'f act list" "'f list"
  | CheckQuit
  | LoopDone

text \<open>\<open>wakeups_due\<close> counts the calls by other threads that have queued a functor or stored \<open>m_quit\<close> and
  have not reached \<open>Wakeup\<close> yet. \<open>submitted\<close> and \<open>executed\<close> record history: functors in the order they
  were queued, and in the order they were started.\<close>

record 'f loop_state =
  m_looping :: bool
  m_quit :: bool
  m_event_handling :: bool
  m_calling_pending_functors :: bool
  m_pending_functors :: "'f list"
  wakeup_count :: nat
  wakeups_due :: nat
  loop_pc :: "'f loop_pc"
  submitted :: "'f list"
  executed :: "'f list"

definition loop_init :: "'f loop_state" where
  "loop_init = \<lparr>m_looping = False, m_quit = False, m_event_handling = False, m_calling_pending_functors = False,
     m_pending_functors = [], wakeup_count = 0, wakeups_due = 0, loop_pc = BeforeLoop,
     submitted = [], executed = []\<rparr>"

section \<open>Operations\<close>

definition Wakeup :: "'f loop_state \<Rightarrow> 'f loop_state" where
  "Wakeup s = s\<lparr>wakeup_count := wakeup_count s + 1\<rparr>"

text \<open>\<open>HandleRead\<close>: reading an eventfd resets its counter.\<close>

definition Loop_HandleRead :: "'f loop_state \<Rightarrow> 'f loop_state" where
  "Loop_HandleRead s = s\<lparr>wakeup_count := 0\<rparr>"

text \<open>The locked \<open>push_back\<close> of \<open>QueueInLoop\<close>.\<close>

definition push_functor :: "'f \<Rightarrow> 'f loop_state \<Rightarrow> 'f loop_state" where
  "push_functor f s = s\<lparr>m_pending_functors := m_pending_functors s @ [f], submitted := submitted s @ [f]\<rparr>"

text \<open>The two calls as a whole, in the loop thread and, with the second step still to come, in
  another one.\<close>

definition QueueInLoop :: "bool \<Rightarrow> 'f \<Rightarrow> 'f loop_state \<Rightarrow> 'f loop_state" where
  "QueueInLoop in_loop f s =
     (let s1 = push_functor f s
      in if \<not> in_loop \<or> m_calling_pending_functors s1
         then (if in_loop then Wakeup s1 else s1\<lparr>wakeups_due := wakeups_due s1 + 1\<rparr>)
         else s1)"

definition Quit :: "bool \<Rightarrow> 'f loop_state \<Rightarrow> 'f loop_state" where
  "Quit in_loop s =
     (let s1 = s\<lparr>m_quit := True\<rparr>
      in if \<not> in_loop then s1\<lparr>wakeups_due := wakeups_due s1 + 1\<rparr> else s1)"

fun do_act :: "'f act \<Rightarrow> 'f loop_state \<Rightarrow> 'f loop_state" where
  "do_act (AQueue f) s = QueueInLoop True f s"
| "do_act AQuit s = Quit True s"

text \<open>\<open>DoPendingFunctors\<close>, up to the end of the locked swap.\<close>

definition swap_functors :: "'f loop_state \<Rightarrow> 'f loop_state" where
  "swap_functors s = s\<lparr>m_calling_pending_functors := True, m_pending_functors := [],
     loop_pc := Running [] (m_pending_functors s)\<rparr>"

datatype loop_ev = LoopThread | OtherThread | QueuedBeforeLoop

text \<open>\<open>body f\<close> is what the functor \<open>f\<close> does. Only \<open>ls_early\<close>, a call of \<open>QueueInLoop\<close> in the loop
  thread before \<open>Loop\<close>, has a label of its own.\<close>

inductive loop_step :: "('f \<Rightarrow> 'f act list) \<Rightarrow> 'f loop_state \<Rightarrow> loop_ev \<Rightarrow> 'f loop_state \<Rightarrow> bool" for body where
  ls_enter: "loop_pc s = BeforeLoop \<Longrightarrow> \<not> m_looping s \<Longrightarrow>
    loop_step body s LoopThread (s\<lparr>m_looping := True, loop_pc := LoopTop\<rparr>)"
| ls_skip_poll: "loop_pc s = LoopTop \<Longrightarrow> m_quit s \<Longrightarrow> loop_step body s LoopThread (s\<lparr>loop_pc := BeforeSwap\<rparr>)"
| ls_poll: "loop_pc s = LoopTop \<Longrightarrow> \<not> m_quit s \<Longrightarrow> loop_step body s LoopThread (s\<lparr>loop_pc := InPoll\<rparr>)"
| ls_polled: "loop_pc s = InPoll \<Longrightarrow> WakeupRead \<in> set active \<longleftrightarrow> 0 < wakeup_count s \<Longrightarrow>
    loop_step body s LoopThread (s\<lparr>m_event_handling := True, loop_pc := Handling active\<rparr>)"
| ls_wakeup_read: "loop_pc s = Handling (WakeupRead # hs) \<Longrightarrow>
    loop_step body s LoopThread (Loop_HandleRead s\<lparr>loop_pc := Handling hs\<rparr>)"
| ls_handler_act: "loop_pc s = Handling (UserHandler (a # acts) # hs) \<Longrightarrow>
    loop_step body s LoopThread (do_act a s\<lparr>loop_pc := Handling (UserHandler acts # hs)\<rparr>)"
| ls_handler_end: "loop_pc s = Handling (UserHandler [] # hs) \<Longrightarrow>
    loop_step body s LoopThread (s\<lparr>loop_pc := Handling hs\<rparr>)"
| ls_handled: "loop_pc s = Handling [] \<Longrightarrow>
    loop_step body s LoopThread (s\<lparr>m_event_handling := False, loop_pc := BeforeSwap\<rparr>)"
| ls_swap: "loop_pc s = BeforeSwap \<Longrightarrow> loop_step body s LoopThread (swap_functors s)"
| ls_run: "loop_pc s = Running [] (f # fs) \<Longrightarrow>
    loop_step body s LoopThread (s\<lparr>executed := executed s @ [f], loop_pc := Running (body f) fs\<rparr>)"
| ls_functor_act: "loop_pc s = Running (a # acts) fs \<Longrightarrow>
    loop_step body s LoopThread (do_act a s\<lparr>loop_pc := Running acts fs\<rparr>)"
| ls_ran: "loop_pc s = Running [] [] \<Longrightarrow>
    loop_step body s LoopThread (s\<lparr>m_calling_pending_functors := False, loop_pc := CheckQuit\<rparr>)"
| ls_again: "loop_pc s = CheckQuit \<Longrightarrow> \<not> m_quit s \<Longrightarrow> loop_step body s LoopThread (s\<lparr>loop_pc := LoopTop\<rparr>)"
| ls_leave: "loop_pc s = CheckQuit \<Longrightarrow> m_quit s \<Longrightarrow>
    loop_step body s LoopThread (s\<lparr>m_looping := False, loop_pc := LoopDone\<rparr>)"
| ls_queue: "loop_step body s OtherThread (QueueInLoop False f s)"
| ls_quit: "loop_step body s OtherThread (Quit False s)"
| ls_wakeup: "0 < wakeups_due s \<Longrightarrow>
    loop_step body s OtherThread (Wakeup (s\<lparr>wakeups_due := wakeups_due s - 1\<rparr>))"
| ls_early: "loop_pc s = BeforeLoop \<Longrightarrow> loop_step body s QueuedBeforeLoop (QueueInLoop True f s)"

inductive_cases loop_stepE: "loop_step body s ev s'"

section \<open>Invariants\<close>

text \<open>A wakeup is on its way, or is already in the eventfd.\<close>

definition woken :: "'f loop_state \<Rightarrow> bool" where
  "woken s \<longleftrightarrow> 0 < wakeup_count s \<or> 0 < wakeups_due s"

definition wake_inv :: "'f loop_state \<Rightarrow> bool" where
  "wake_inv s \<longleftrightarrow>
     (m_calling_pending_functors s \<longleftrightarrow> (\<exists>acts fs. loop_pc s = Running acts fs))
     \<and> (case loop_pc s of
          Handling hs \<Rightarrow> True
        | BeforeSwap \<Rightarrow> True
        | LoopDone \<Rightarrow> True
        | InPoll \<Rightarrow> m_pending_functors s \<noteq> [] \<or> m_quit s \<longrightarrow> woken s
        | _ \<Rightarrow> m_pending_functors s \<noteq> [] \<longrightarrow> woken s)"

definition unstarted :: "'f loop_pc \<Rightarrow> 'f list" where
  "unstarted pc = (case pc of Running acts fs \<Rightarrow> fs | _ \<Rightarrow> [])"

definition fifo_inv :: "'f loop_state \<Rightarrow> bool" where
  "fifo_inv s \<longleftrightarrow> submitted s = executed s @ unstarted (loop_pc s) @ m_pending_functors s"

lemmas loop_op_defs = QueueInLoop_def Quit_def push_functor_def Wakeup_def Loop_HandleRead_def swap_functors_def Let_def

lemma do_act_simps [simp]:
  "loop_pc (do_act a s) = loop_pc s" "executed (do_act a s) = executed s"
  "m_calling_pending_functors (do_act a s) = m_calling_pending_functors s"
  by (cases a; simp add: loop_op_defs)+

lemma do_act_woken:
  "m_calling_pending_functors s \<Longrightarrow> m_pending_functors s \<noteq> [] \<longrightarrow> woken s \<Longrightarrow>
   m_pending_functors (do_act a s) \<noteq> [] \<longrightarrow> woken (do_act a s)"
  by (cases a) (auto simp: loop_op_defs woken_def)

lemma do_act_fifo: "fifo_inv s \<Longrightarrow> fifo_inv (do_act a s)"
  by (cases a) (auto simp: loop_op_defs fifo_inv_def)

lemma fifo_step:
  assumes "loop_step body s ev s'" and "fifo_inv s"
  shows "fifo_inv s'"
  using assms
proof cases
  case (ls_handler_act a acts hs)
  then show ?thesis using do_act_fifo [OF assms(2), of a] by (simp add: fifo_inv_def unstarted_def)
next
  case (ls_functor_act a acts fs)
  then show ?thesis using do_act_fifo [OF assms(2), of a] by (simp add: fifo_inv_def unstarted_def)
qed (use assms(2) in \<open>auto simp: fifo_inv_def loop_op_defs unstarted_def split: loop_pc.splits\<close>)

lemma wake_step:
  assumes "loop_step body s ev s'" and "ev \<noteq> QueuedBeforeLoop" and "wake_inv s"
  shows "wake_inv s'"
  using assms(1)
proof cases
  case (ls_handler_act a acts hs)
  then show ?thesis using assms(3) by (simp add: wake_inv_def)
next
  case (ls_functor_act a acts fs)
  have "m_calling_pending_functors s" "m_pending_functors s \<noteq> [] \<longrightarrow> woken s"
    using assms(3) ls_functor_act by (auto simp: wake_inv_def)
  from do_act_woken [OF this, of a] this(1) show ?thesis
    using ls_functor_act by (simp add: wake_inv_def woken_def)
qed (use assms(2,3) in \<open>auto simp: wake_inv_def woken_def loop_op_defs split: loop_pc.splits\<close>)

lemma loop_init_inv: "wake_inv loop_init" "fifo_inv loop_init"
  by (simp_all add: loop_init_def wake_inv_def fifo_inv_def unstarted_def)

section \<open>The loop makes progress\<close>

abbreviation alone :: "('f \<Rightarrow> 'f act list) \<Rightarrow> 'f loop_state \<Rightarrow> 'f loop_state \<Rightarrow> bool" where
  "alone body s s' \<equiv> \<exists>es. set es \<subseteq> {LoopThread} \<and> ev_path (loop_step body) s es s'"

lemma alone_step: "loop_step body s LoopThread s' \<Longrightarrow> alone body s' s'' \<Longrightarrow> alone body s s''"
  by (metis ev_path_Cons insert_subset list.set(2) singletonI)

lemma alone_refl: "alone body s s"
  using ev_nil by (metis empty_set empty_subsetI)

lemma run_acts:
  assumes "loop_pc s = Running acts fs"
  shows "\<exists>s'. alone body s s' \<and> loop_pc s' = Running [] fs \<and> executed s' = executed s"
  using assms
proof (induction acts arbitrary: s)
  case Nil
  then show ?case using alone_refl by blast
next
  case (Cons a acts)
  let ?s1 = "do_act a s\<lparr>loop_pc := Running acts fs\<rparr>"
  from Cons.IH [of ?s1] obtain s' where "alone body ?s1 s'" "loop_pc s' = Running [] fs" "executed s' = executed s"
    by auto
  then show ?case using alone_step [OF ls_functor_act [OF Cons.prems]] by blast
qed

lemma alone_trans:
  assumes "alone body s s'" and "alone body s' s''"
  shows "alone body s s''"
proof -
  from assms obtain es es' where "set es \<subseteq> {LoopThread}" "ev_path (loop_step body) s es s'"
    "set es' \<subseteq> {LoopThread}" "ev_path (loop_step body) s' es' s''" by blast
  then show ?thesis using ev_path_append by (intro exI [of _ "es @ es'"]) auto
qed

lemma run_functors:
  assumes "loop_pc s = Running acts fs"
  shows "\<exists>s'. alone body s s' \<and> loop_pc s' = CheckQuit \<and> executed s' = executed s @ fs"
  using assms
proof (induction fs arbitrary: s acts)
  case Nil
  from run_acts [OF Nil, of body] obtain s1 where s1: "alone body s s1" "loop_pc s1 = Running [] []" "executed s1 = executed s"
    by blast
  have "alone body s1 (s1\<lparr>m_calling_pending_functors := False, loop_pc := CheckQuit\<rparr>)"
    using alone_step [OF ls_ran [OF s1(2)] alone_refl] .
  from alone_trans [OF s1(1) this] show ?case
    using s1(3) by (intro exI [of _ "s1\<lparr>m_calling_pending_functors := False, loop_pc := CheckQuit\<rparr>"]) simp
next
  case (Cons f fs)
  from run_acts [OF Cons.prems, of body] obtain s1 where s1: "alone body s s1" "loop_pc s1 = Running [] (f # fs)"
    "executed s1 = executed s" by blast
  let ?s2 = "s1\<lparr>executed := executed s1 @ [f], loop_pc := Running (body f) fs\<rparr>"
  from Cons.IH [of ?s2 "body f"] obtain s' where s': "alone body ?s2 s'" "loop_pc s' = CheckQuit"
    "executed s' = executed s @ f # fs" using s1(3) by auto
  have "alone body s s'" using alone_trans [OF s1(1) alone_step [OF ls_run [OF s1(2)] s'(1)]] .
  then show ?case using s' by blast
qed

section \<open>Properties\<close>


lemma queue_while_polling:
  "ev_path (loop_step (\<lambda>_. [])) loop_init [LoopThread, LoopThread, OtherThread]
     (QueueInLoop False f (loop_init\<lparr>m_looping := True, loop_pc := InPoll\<rparr>))"
proof -
  let ?step = "loop_step (\<lambda>_. [])"
  let ?s1 = "loop_init\<lparr>m_looping := True, loop_pc := LoopTop\<rparr>"
  have "?step loop_init LoopThread ?s1" by (rule ls_enter) (simp_all add: loop_init_def)
  moreover have "?step ?s1 LoopThread (?s1\<lparr>loop_pc := InPoll\<rparr>)" by (rule ls_poll) (simp_all add: loop_init_def)
  moreover have "?step (?s1\<lparr>loop_pc := InPoll\<rparr>) OtherThread (QueueInLoop False f (?s1\<lparr>loop_pc := InPoll\<rparr>))"
    by (rule ls_queue)
  ultimately have "ev_path ?step loop_init [LoopThread, LoopThread, OtherThread] (QueueInLoop False f (?s1\<lparr>loop_pc := InPoll\<rparr>))"
    by (blast intro: ev_path_Cons ev_nil)
  then show ?thesis by simp
qed


text \<open>
  C17. Functors run in the order in which they were queued, each exactly once: at any moment, the functors
  queued so far are, in order, those already started, those taken out of the queue and not
  started yet, and those in the queue. After the loop has been left, nothing is between the
  queue and execution.
\<close>

theorem functors_run_in_order:
  assumes "ev_path (loop_step body) loop_init es s"
  shows "submitted s = executed s @ unstarted (loop_pc s) @ m_pending_functors s
    \<and> (loop_pc s = LoopDone \<longrightarrow> submitted s = executed s @ m_pending_functors s)"
proof -
  have "fifo_inv s"
    using assms loop_init_inv(2) by (rule ev_path_invariant) (rule fifo_step)
  then show ?thesis by (simp add: fifo_inv_def unstarted_def)
qed

theorem functors_run_in_order_witness:
  "submitted (QueueInLoop False (7 :: nat) (loop_init\<lparr>m_looping := True, loop_pc := InPoll\<rparr>)) = [7]"
  using functors_run_in_order [OF queue_while_polling [of "7 :: nat"]]
  by (simp add: loop_op_defs loop_init_def unstarted_def)

text \<open>
  A loop that has been woken up does its work: from \<open>Poll\<close> with the eventfd readable, the loop thread
  alone gets to the end of a round in which it has started every functor that was in the queue,
  in order, whatever those functors do.
\<close>

theorem woken_loop_runs_functors:
  assumes "loop_pc s = InPoll" and "0 < wakeup_count s"
  shows "\<exists>es s'. set es \<subseteq> {LoopThread} \<and> ev_path (loop_step body) s es s'
    \<and> loop_pc s' = CheckQuit \<and> executed s' = executed s @ m_pending_functors s"
proof -
  let ?s1 = "s\<lparr>m_event_handling := True, loop_pc := Handling [WakeupRead]\<rparr>"
  let ?s2 = "Loop_HandleRead ?s1\<lparr>loop_pc := Handling []\<rparr>"
  let ?s3 = "?s2\<lparr>m_event_handling := False, loop_pc := BeforeSwap\<rparr>"
  have steps: "loop_step body s LoopThread ?s1" "loop_step body ?s1 LoopThread ?s2" "loop_step body ?s2 LoopThread ?s3"
    "loop_step body ?s3 LoopThread (swap_functors ?s3)"
    using assms by (intro ls_polled ls_wakeup_read ls_handled ls_swap; simp)+
  have "loop_pc (swap_functors ?s3) = Running [] (m_pending_functors s)" "executed (swap_functors ?s3) = executed s"
    by (simp_all add: loop_op_defs)
  with run_functors obtain s' where s': "alone body (swap_functors ?s3) s'" "loop_pc s' = CheckQuit"
    "executed s' = executed s @ m_pending_functors s" by metis
  have "alone body s s'"
    by (rule alone_step [OF steps(1)], rule alone_step [OF steps(2)], rule alone_step [OF steps(3)],
        rule alone_step [OF steps(4)], rule s'(1))
  then show ?thesis using s' by blast
qed

theorem woken_loop_runs_functors_witness:
  "\<exists>es s'. ev_path (loop_step (\<lambda>_. [])) (loop_init\<lparr>loop_pc := InPoll, wakeup_count := 1, m_pending_functors := [7 :: nat, 8]\<rparr>) es s'
     \<and> executed s' = [7, 8]"
  using woken_loop_runs_functors [of "loop_init\<lparr>loop_pc := InPoll, wakeup_count := 1, m_pending_functors := [7 :: nat, 8]\<rparr>"
      "\<lambda>_. []"]
  by (auto simp: loop_init_def)

text \<open>
  The exception: a functor the loop thread queues before it calls \<open>Loop\<close> wakes nobody up. The
  loop then goes to sleep in \<open>Poll\<close> with the functor waiting, the eventfd not readable and no
  thread about to write it.
\<close>

theorem early_functor_sleeps:
  "\<exists>s. ev_path (loop_step body) loop_init [QueuedBeforeLoop, LoopThread, LoopThread] s
     \<and> loop_pc s = InPoll \<and> m_pending_functors s = [f] \<and> wakeup_count s = 0 \<and> wakeups_due s = 0"
proof -
  let ?s1 = "QueueInLoop True f loop_init"
  let ?s2 = "?s1\<lparr>m_looping := True, loop_pc := LoopTop\<rparr>"
  have "loop_step body loop_init QueuedBeforeLoop ?s1" by (rule ls_early) (simp add: loop_init_def)
  moreover have "loop_step body ?s1 LoopThread ?s2" by (rule ls_enter) (simp_all add: loop_init_def loop_op_defs)
  moreover have "loop_step body ?s2 LoopThread (?s2\<lparr>loop_pc := InPoll\<rparr>)"
    by (rule ls_poll) (simp_all add: loop_init_def loop_op_defs)
  ultimately have "ev_path (loop_step body) loop_init [QueuedBeforeLoop, LoopThread, LoopThread] (?s2\<lparr>loop_pc := InPoll\<rparr>)"
    by (blast intro: ev_path_Cons ev_nil)
  then show ?thesis by (intro exI conjI) (assumption, simp_all add: loop_init_def loop_op_defs)
qed

end
