(* ===== verification/Thread_Object.thy ===== *)
theory Thread_Object
  imports Net_Prelude
begin

text \<open>
  \<open>base/thread.{h,cpp}\<close>: the wrapper around \<open>std::thread\<close>. \<open>th_joinable\<close> says whether \<open>m_thread\<close>
  holds a thread that has been neither joined nor detached; destroying such a \<open>std::thread\<close> ends
  the process. The body of the thread is not observable here.
\<close>

definition kMaxThreadNameLength :: nat where
  "kMaxThreadNameLength = 15"

definition TruncateThreadName :: "string \<Rightarrow> string" where
  "TruncateThreadName name =
     (if name = [] then []
      else if length name > kMaxThreadNameLength then take kMaxThreadNameLength name
      else name)"

record thread_obj =
  th_name :: string
  th_started :: bool
  th_joined :: bool
  th_detached :: bool
  th_joinable :: bool

definition Thread_ctor :: "string \<Rightarrow> thread_obj" where
  "Thread_ctor name = \<lparr>th_name = name, th_started = False, th_joined = False, th_detached = False, th_joinable = False\<rparr>"

definition Thread_Start :: "thread_obj \<Rightarrow> thread_obj" where
  "Thread_Start t = (if th_started t then t else t\<lparr>th_started := True, th_joinable := True\<rparr>)"

definition Thread_Join :: "thread_obj \<Rightarrow> thread_obj" where
  "Thread_Join t = (if th_joined t then t
     else let t1 = t\<lparr>th_joined := True\<rparr> in if th_joinable t1 then t1\<lparr>th_joinable := False\<rparr> else t1)"

definition Thread_Detach :: "thread_obj \<Rightarrow> thread_obj" where
  "Thread_Detach t = (if th_detached t then t
     else let t1 = t\<lparr>th_detached := True\<rparr> in if th_joinable t1 then t1\<lparr>th_joinable := False\<rparr> else t1)"

text \<open>The destructor, and the destruction of the member \<open>m_thread\<close> after it.\<close>

definition Thread_dtor :: "thread_obj \<Rightarrow> thread_obj res" where
  "Thread_dtor t =
     (let t1 = (if th_started t \<and> \<not> th_joined t \<and> \<not> th_detached t then Thread_Join t else t)
      in if th_joinable t1 then Inl Terminated else Inr t1)"

definition IsStarted :: "thread_obj \<Rightarrow> bool" where
  "IsStarted t = th_started t"

definition Thread_GetName :: "thread_obj \<Rightarrow> string" where
  "Thread_GetName t = th_name t"

text \<open>The names the system has for its threads. \<open>pthread_setname_np\<close> takes a C string, which ends at its first null character, and rejects names
  of more than 15 characters; \<open>pthread_getname_np\<close> gives the name back.\<close>

definition pthread_setname :: "nat \<Rightarrow> string \<Rightarrow> (nat \<Rightarrow> string) \<Rightarrow> nat \<Rightarrow> string" where
  "pthread_setname self name names =
     (let c_str = takeWhile (\<lambda>c. c \<noteq> CHR 0x00) name
      in if length c_str > kMaxThreadNameLength then names else names(self := c_str))"

definition SetCurrentThreadName :: "nat \<Rightarrow> string \<Rightarrow> (nat \<Rightarrow> string) \<Rightarrow> nat \<Rightarrow> string" where
  "SetCurrentThreadName self name names =
     (let truncated = TruncateThreadName name
      in if truncated = [] then names else pthread_setname self truncated names)"

definition GetCurrentThreadName :: "nat \<Rightarrow> (nat \<Rightarrow> string) \<Rightarrow> string" where
  "GetCurrentThreadName self names = names self"

datatype thread_op = TStart | TJoin | TDetach

fun do_thread_op :: "thread_op \<Rightarrow> thread_obj \<Rightarrow> thread_obj" where
  "do_thread_op TStart = Thread_Start"
| "do_thread_op TJoin = Thread_Join"
| "do_thread_op TDetach = Thread_Detach"

abbreviation run_thread_ops :: "thread_op list \<Rightarrow> thread_obj \<Rightarrow> thread_obj" where
  "run_thread_ops \<equiv> fold do_thread_op"

lemmas thread_op_defs = Thread_Start_def Thread_Join_def Thread_Detach_def Let_def

text \<open>Before \<open>Start\<close>, joining and detaching only set their flags.\<close>

lemma before_start:
  assumes "TStart \<notin> set ops" and "\<not> th_started t" and "\<not> th_joinable t"
  shows "run_thread_ops ops t = t\<lparr>th_joined := th_joined t \<or> TJoin \<in> set ops,
     th_detached := th_detached t \<or> TDetach \<in> set ops\<rparr>"
  using assms
proof (induction ops arbitrary: t)
  case (Cons oper ops)
  then show ?case by (cases oper) (auto simp: thread_op_defs)
qed simp

lemma after_start:
  assumes "th_started t"
  shows "run_thread_ops ops t = t\<lparr>th_joined := th_joined t \<or> TJoin \<in> set ops,
     th_detached := th_detached t \<or> TDetach \<in> set ops,
     th_joinable := th_joinable t \<and> (TJoin \<in> set ops \<longrightarrow> th_joined t) \<and> (TDetach \<in> set ops \<longrightarrow> th_detached t)\<rparr>"
  using assms
proof (induction ops arbitrary: t)
  case (Cons oper ops)
  then show ?case by (cases oper) (auto simp: thread_op_defs)
qed simp

text \<open>
  When destroying a \<open>Thread\<close> ends the process: exactly if it was joined or detached before it was
  started and no later call released the thread. For then the flag is already set when the
  thread exists, the later call of the same kind does nothing, and the destructor takes the
  thread for joined or detached. Every other sequence of calls is safe.
\<close>

theorem thread_destruction:
  assumes "TStart \<notin> set pre"
  shows "Thread_dtor (run_thread_ops (pre @ TStart # post) (Thread_ctor name)) = Inl Terminated \<longleftrightarrow>
      (TJoin \<in> set pre \<or> TDetach \<in> set pre)
      \<and> (TJoin \<in> set post \<longrightarrow> TJoin \<in> set pre) \<and> (TDetach \<in> set post \<longrightarrow> TDetach \<in> set pre)"
    (is "?L \<longleftrightarrow> ?R")
proof -
  let ?t = "run_thread_ops pre (Thread_ctor name)"
  have t: "?t = (Thread_ctor name)\<lparr>th_joined := TJoin \<in> set pre, th_detached := TDetach \<in> set pre\<rparr>"
    using before_start [OF assms, of "Thread_ctor name"] by (simp add: Thread_ctor_def)
  show ?thesis
    unfolding fold_append fold_Cons o_apply t do_thread_op.simps
    by (subst after_start) (auto simp: thread_op_defs Thread_ctor_def Thread_dtor_def)
qed

theorem thread_destruction_witness:
  "Thread_dtor (run_thread_ops ([TJoin] @ TStart # [TJoin]) (Thread_ctor ''worker'')) = Inl Terminated"
  using thread_destruction [of "[TJoin]" "[TJoin]" "''worker''"] by simp

lemma TruncateThreadName_le: "length (TruncateThreadName name) \<le> 15 \<and> TruncateThreadName name = take 15 name"
  by (auto simp: TruncateThreadName_def kMaxThreadNameLength_def)

text \<open>The name that was set is read back, cut to 15 characters: because of the cut, the system never rejects it.\<close>

lemma thread_name_roundtrip:
  assumes "CHR 0x00 \<notin> set name" and "name \<noteq> []"
  shows "GetCurrentThreadName self (SetCurrentThreadName self name names) = take 15 name"
    and "other \<noteq> self \<Longrightarrow> GetCurrentThreadName other (SetCurrentThreadName self name names) = GetCurrentThreadName other names"
proof -
  have tr: "TruncateThreadName name = take 15 name" "take 15 name \<noteq> []" using TruncateThreadName_le [of name] assms(2) by auto
  have "\<forall>c \<in> set (take 15 name). c \<noteq> CHR 0x00" using assms(1) by (auto dest: in_set_takeD)
  then have nul: "takeWhile (\<lambda>c. c \<noteq> CHR 0x00) (take 15 name) = take 15 name" by (subst takeWhile_eq_all_conv)
  have "SetCurrentThreadName self name names = names(self := take 15 name)"
    unfolding SetCurrentThreadName_def pthread_setname_def Let_def tr(1) nul using tr(2) by (simp add: kMaxThreadNameLength_def)
  then show "GetCurrentThreadName self (SetCurrentThreadName self name names) = take 15 name"
    and "other \<noteq> self \<Longrightarrow> GetCurrentThreadName other (SetCurrentThreadName self name names) = GetCurrentThreadName other names"
    by (simp_all add: GetCurrentThreadName_def)
qed

end
