(* ===== verification/Thread_Pool.thy ===== *)
theory Thread_Pool
  imports Thread_Object Net_Time "HOL-Library.Multiset"
begin

text \<open>
  \<open>base/thread_pool.{h,cpp}\<close>: workers that take tasks from a queue under a mutex and a condition
  variable. A step is one critical section or one notification, so that every interleaving of
  the workers with \<open>Submit\<close>, \<open>Start\<close>, \<open>Stop\<close> and \<open>Wait\<close> of any number of threads is a sequence of
  steps. Testing the predicate and going to sleep is one step, since the mutex is held until the
  condition variable has released it; a worker may also wake up without being notified.
\<close>

section \<open>State\<close>

datatype 't worker = WReady | WWaiting | WRunning 't | WExited

text \<open>\<open>notifies\<close> and \<open>notify_alls\<close> count the calls of \<open>Submit\<close> and \<open>Stop\<close> that have not reached their
  notification yet. \<open>accepted\<close>, \<open>taken\<close> and \<open>finished\<close> record the tasks submitted with success, those
  a worker has taken from the queue and those that have run.\<close>

record 't pool =
  m_thread_count :: nat
  m_started :: bool
  m_stopping :: bool
  m_stopped :: bool
  m_tasks :: "'t list"
  workers :: "'t worker list"
  notifies :: nat
  notify_alls :: nat
  accepted :: "'t list"
  taken :: "'t list"
  finished :: "'t list"

definition ThreadPool_ctor :: "nat \<Rightarrow> 't pool" where
  "ThreadPool_ctor thread_count =
     \<lparr>m_thread_count = (if thread_count = 0 then 1 else thread_count), m_started = False, m_stopping = False,
      m_stopped = False, m_tasks = [], workers = [], notifies = 0, notify_alls = 0,
      accepted = [], taken = [], finished = []\<rparr>"

definition BuildWorkerName :: "string \<Rightarrow> nat \<Rightarrow> string" where
  "BuildWorkerName base_name i = (if base_name = [] then ''worker-'' @ nat_digits i else base_name @ ''-'' @ nat_digits i)"

definition IsRunning :: "'t pool \<Rightarrow> bool" where
  "IsRunning s \<longleftrightarrow> m_started s \<and> \<not> m_stopping s"

section \<open>Operations\<close>

text \<open>\<open>Submit\<close> up to the notification; an empty \<open>std::function\<close> is \<open>None\<close>.\<close>

definition Submit :: "'t option \<Rightarrow> 't pool \<Rightarrow> bool \<times> 't pool" where
  "Submit task s =
     (case task of
        None \<Rightarrow> (False, s)
      | Some t \<Rightarrow>
          if m_stopping s then (False, s)
          else (True, s\<lparr>m_tasks := m_tasks s @ [t], accepted := accepted s @ [t], notifies := notifies s + 1\<rparr>))"

text \<open>\<open>Start\<close>: the flag, then one thread after the other.\<close>

definition Start_flag :: "'t pool \<Rightarrow> 't pool" where
  "Start_flag s = (if m_started s then s else s\<lparr>m_started := True\<rparr>)"

definition Start_thread :: "'t pool \<Rightarrow> 't pool" where
  "Start_thread s = s\<lparr>workers := workers s @ [WReady]\<rparr>"

text \<open>\<open>Stop\<close> up to the notification.\<close>

definition Stop_flag :: "'t pool \<Rightarrow> 't pool" where
  "Stop_flag s = (if m_stopping s then s else s\<lparr>m_stopping := True, notify_alls := notify_alls s + 1\<rparr>)"

definition wake :: "'t worker \<Rightarrow> 't worker" where
  "wake w = (case w of WWaiting \<Rightarrow> WReady | _ \<Rightarrow> w)"

definition set_worker :: "nat \<Rightarrow> 't worker \<Rightarrow> 't pool \<Rightarrow> 't pool" where
  "set_worker i w s = s\<lparr>workers := (workers s)[i := w]\<rparr>"

text \<open>The critical section of \<open>RunWorker\<close>: wait while there is nothing to do, leave when the queue is
  drained, otherwise take the first task.\<close>

definition worker_check :: "nat \<Rightarrow> 't pool \<Rightarrow> 't pool" where
  "worker_check i s =
     (if \<not> (m_stopping s \<or> m_tasks s \<noteq> []) then set_worker i WWaiting s
      else case m_tasks s of
             [] \<Rightarrow> set_worker i WExited s
           | t # rest \<Rightarrow> set_worker i (WRunning t) (s\<lparr>m_tasks := rest, taken := taken s @ [t]\<rparr>))"

definition worker_finish :: "nat \<Rightarrow> 't \<Rightarrow> 't pool \<Rightarrow> 't pool" where
  "worker_finish i t s = set_worker i WReady (s\<lparr>finished := finished s @ [t]\<rparr>)"

text \<open>\<open>Wait\<close> returns when every thread there is has ended.\<close>

definition Wait_done :: "'t pool \<Rightarrow> 't pool" where
  "Wait_done s = s\<lparr>m_stopped := True\<rparr>"

text \<open>The destructor before it waits; its \<open>Wait\<close> and the destruction of the threads then join every worker.\<close>

definition ThreadPool_dtor :: "'t pool \<Rightarrow> 't pool" where
  "ThreadPool_dtor s = (if \<not> m_stopped s then Stop_flag s else s)"

definition PendingTaskCount :: "'t pool \<Rightarrow> nat" where
  "PendingTaskCount s = length (m_tasks s)"

datatype 't pool_ev = PSubmit "'t option" bool | PStart | PSpawn | PStop | PNotify | PWorker nat | PWaited

inductive pool_step :: "'t pool \<Rightarrow> 't pool_ev \<Rightarrow> 't pool \<Rightarrow> bool" where
  p_submit: "Submit task s = (b, s') \<Longrightarrow> pool_step s (PSubmit task b) s'"
| p_start: "pool_step s PStart (Start_flag s)"
| p_spawn: "m_started s \<Longrightarrow> length (workers s) < m_thread_count s \<Longrightarrow> pool_step s PSpawn (Start_thread s)"
| p_stop: "pool_step s PStop (Stop_flag s)"
| p_notify_one: "0 < notifies s \<Longrightarrow> i < length (workers s) \<Longrightarrow> workers s ! i = WWaiting \<Longrightarrow>
    pool_step s PNotify (set_worker i WReady (s\<lparr>notifies := notifies s - 1\<rparr>))"
| p_notify_none: "0 < notifies s \<Longrightarrow> WWaiting \<notin> set (workers s) \<Longrightarrow>
    pool_step s PNotify (s\<lparr>notifies := notifies s - 1\<rparr>)"
| p_notify_all: "0 < notify_alls s \<Longrightarrow>
    pool_step s PNotify (s\<lparr>notify_alls := notify_alls s - 1, workers := map wake (workers s)\<rparr>)"
| p_spurious: "i < length (workers s) \<Longrightarrow> workers s ! i = WWaiting \<Longrightarrow> pool_step s (PWorker i) (set_worker i WReady s)"
| p_check: "i < length (workers s) \<Longrightarrow> workers s ! i = WReady \<Longrightarrow> pool_step s (PWorker i) (worker_check i s)"
| p_finish: "i < length (workers s) \<Longrightarrow> workers s ! i = WRunning t \<Longrightarrow> pool_step s (PWorker i) (worker_finish i t s)"
| p_waited: "\<forall>w \<in> set (workers s). w = WExited \<Longrightarrow> pool_step s PWaited (Wait_done s)"

section \<open>Invariant\<close>

definition running_tasks :: "'t worker list \<Rightarrow> 't multiset" where
  "running_tasks ws = mset (concat (map (\<lambda>w. case w of WRunning t \<Rightarrow> [t] | _ \<Rightarrow> []) ws))"

definition busy :: "'t worker \<Rightarrow> bool" where
  "busy w \<longleftrightarrow> w = WReady \<or> (\<exists>t. w = WRunning t)"

text \<open>Some worker is up or will be woken.\<close>

definition attended :: "'t pool \<Rightarrow> bool" where
  "attended s \<longleftrightarrow> 0 < notifies s \<or> 0 < notify_alls s \<or> (\<exists>w \<in> set (workers s). busy w)"

definition pool_inv :: "'t pool \<Rightarrow> bool" where
  "pool_inv s \<longleftrightarrow>
     accepted s = taken s @ m_tasks s
     \<and> mset (taken s) = mset (finished s) + running_tasks (workers s)
     \<and> (WExited \<in> set (workers s) \<longrightarrow> m_stopping s \<and> m_tasks s = [])
     \<and> (m_stopping s \<and> WWaiting \<in> set (workers s) \<longrightarrow> 0 < notify_alls s)
     \<and> (m_tasks s \<noteq> [] \<and> WWaiting \<in> set (workers s) \<longrightarrow> attended s)"

lemma running_tasks_simps [simp]:
  "running_tasks [] = {#}"
  "running_tasks (w # ws) = (case w of WRunning t \<Rightarrow> {#t#} | _ \<Rightarrow> {#}) + running_tasks ws"
  "running_tasks (ws @ vs) = running_tasks ws + running_tasks vs"
  by (simp_all add: running_tasks_def split: worker.splits)

lemma running_tasks_update:
  assumes "i < length ws"
  shows "running_tasks (ws[i := w]) + (case ws ! i of WRunning t \<Rightarrow> {#t#} | _ \<Rightarrow> {#}) =
    running_tasks ws + (case w of WRunning t \<Rightarrow> {#t#} | _ \<Rightarrow> {#})"
  using assms
proof (induction ws arbitrary: i)
  case (Cons v ws)
  then show ?case by (cases i) (auto simp: ac_simps)
qed simp

lemma running_tasks_wake [simp]: "running_tasks (map wake ws) = running_tasks ws"
  by (induction ws) (auto simp: wake_def split: worker.splits)

lemma wake_WExited: "WExited = wake w \<longleftrightarrow> w = WExited"
  by (auto simp: wake_def split: worker.splits)

lemma busy_simps [simp]: "busy WReady" "busy (WRunning t)" "\<not> busy WWaiting" "\<not> busy WExited"
  by (simp_all add: busy_def)

lemma set_update_cases: "v \<in> set (xs[i := w]) \<Longrightarrow> v = w \<or> v \<in> set xs"
  using set_update_subset_insert by fastforce

lemma updated_in: "i < length xs \<Longrightarrow> w \<in> set (xs[i := w])"
  by (rule set_update_memI)

lemma attended_busy: "i < length (workers s) \<Longrightarrow> busy w \<Longrightarrow> attended (set_worker i w s)"
  by (auto simp: attended_def set_worker_def intro!: bexI [OF _ updated_in])

lemma pool_inv_worker:
  assumes "pool_inv s" and "i < length (workers s)" and "busy w"
    and "accepted s' = accepted s" and "m_stopping s' = m_stopping s" and "notify_alls s' = notify_alls s"
    and "workers s' = (workers s)[i := w]" and "accepted s = taken s' @ m_tasks s'"
    and "m_tasks s = [] \<longrightarrow> m_tasks s' = []"
    and "mset (taken s') = mset (finished s') + running_tasks (workers s')"
  shows "pool_inv s'"
proof -
  have "attended s'"
    using assms(2,3,7) updated_in [OF assms(2)] by (auto simp: attended_def)
  moreover have "WExited \<in> set (workers s') \<Longrightarrow> WExited \<in> set (workers s)"
    and "WWaiting \<in> set (workers s') \<Longrightarrow> WWaiting \<in> set (workers s)"
    using set_update_cases [of _ "workers s" i w] assms(3,7) busy_simps(3,4) by metis+
  ultimately show ?thesis using assms by (auto simp: pool_inv_def)
qed

lemma check_inv:
  assumes "pool_inv s" and "i < length (workers s)" and "workers s ! i = WReady"
  shows "pool_inv (worker_check i s)"
proof -
  note upd = running_tasks_update [OF assms(2)]
  consider "\<not> (m_stopping s \<or> m_tasks s \<noteq> [])" | "m_stopping s" "m_tasks s = []" | t rest where "m_tasks s = t # rest"
    by (cases "m_tasks s") auto
  then show ?thesis
  proof cases
    case 1
    then show ?thesis
      using assms upd [of WWaiting] set_update_cases [of WExited "workers s" i WWaiting]
      by (auto simp: worker_check_def pool_inv_def set_worker_def attended_def)
  next
    case 2
    then show ?thesis
      using assms upd [of WExited] set_update_cases [of WWaiting "workers s" i WExited]
      by (auto simp: worker_check_def pool_inv_def set_worker_def)
  next
    case 3
    then show ?thesis
      using assms upd [of "WRunning t"]
      by (intro pool_inv_worker [OF assms(1,2), of "WRunning t"])
        (auto simp: worker_check_def set_worker_def pool_inv_def)
  qed
qed

lemma pool_step_inv:
  assumes "pool_step s ev s'" and "pool_inv s"
  shows "pool_inv s'"
  using assms(1)
proof cases
  case (p_submit task b)
  then show ?thesis
    using assms(2) by (auto simp: Submit_def pool_inv_def attended_def split: option.splits if_splits)
next
  case p_spawn
  then show ?thesis using assms(2) by (auto simp: Start_thread_def pool_inv_def attended_def)
next
  case (p_notify_one i)
  then show ?thesis
    using assms(2) running_tasks_update [of i "workers s" WReady]
    by (intro pool_inv_worker [OF assms(2), of i WReady]) (auto simp: set_worker_def pool_inv_def)
next
  case p_notify_all
  have "WWaiting \<notin> set (map wake (workers s))" by (auto simp: wake_def split: worker.splits)
  moreover have "WExited \<in> set (map wake (workers s)) \<longleftrightarrow> WExited \<in> set (workers s)"
    using wake_WExited by (metis (no_types, lifting) image_iff list.set_map)
  ultimately show ?thesis using assms(2) p_notify_all by (auto simp: pool_inv_def)
next
  case (p_spurious i)
  then show ?thesis
    using assms(2) running_tasks_update [of i "workers s" WReady]
    by (intro pool_inv_worker [OF assms(2), of i WReady]) (auto simp: set_worker_def pool_inv_def)
next
  case (p_check i)
  then show ?thesis using check_inv [OF assms(2)] by simp
next
  case (p_finish i t)
  then show ?thesis
    using assms(2) running_tasks_update [of i "workers s" WReady]
    by (intro pool_inv_worker [OF assms(2), of i WReady])
      (auto simp: worker_finish_def set_worker_def pool_inv_def)
qed (use assms(2) in \<open>auto simp: pool_inv_def attended_def Start_flag_def Stop_flag_def Wait_done_def\<close>)

lemma pool_reachable_inv: "ev_path pool_step (ThreadPool_ctor n) es s \<Longrightarrow> pool_inv s"
  by (erule ev_path_invariant) (simp add: ThreadPool_ctor_def pool_inv_def, rule pool_step_inv)

lemma all_exited_finished:
  assumes inv: "pool_inv s" and "workers s \<noteq> []" and all: "\<forall>w \<in> set (workers s). w = WExited"
  shows "mset (finished s) = mset (accepted s)"
proof -
  have "running_tasks ws = {#}" if "\<forall>w \<in> set ws. w = (WExited :: 'a worker)" for ws
    using that by (induction ws) auto
  then have "running_tasks (workers s) = {#}" using all by blast
  moreover have "WExited \<in> set (workers s)" using assms(2,3) by (cases "workers s") auto
  ultimately show ?thesis using inv by (simp add: pool_inv_def)
qed

section \<open>Properties\<close>

text \<open>
  C10. Tasks are taken in the order in which they were accepted, each exactly once, in every
  interleaving: those taken and those still queued are together the accepted ones, in order, and
  the taken ones are those that have run and those that are running. Once a worker has
  ended, \<open>Stop\<close> has been called, the queue is empty and \<open>Submit\<close> rejects; once all workers there
  are have ended, which is when \<open>Wait\<close> returns, and there is one, every accepted task has run to
  its end exactly once.
\<close>

theorem pool_runs_every_task_once:
  assumes "ev_path pool_step (ThreadPool_ctor n) es s"
  shows "accepted s = taken s @ m_tasks s \<and> mset (taken s) = mset (finished s) + running_tasks (workers s)
    \<and> (WExited \<in> set (workers s) \<longrightarrow> m_stopping s \<and> m_tasks s = [] \<and> Submit (Some t) s = (False, s))
    \<and> (workers s \<noteq> [] \<and> (\<forall>w \<in> set (workers s). w = WExited) \<longrightarrow> mset (finished s) = mset (accepted s))"
proof -
  have inv: "pool_inv s" by (rule pool_reachable_inv [OF assms])
  show ?thesis using inv all_exited_finished [OF inv] by (auto simp: pool_inv_def Submit_def)
qed

text \<open>A pool of one thread that ran one task and was stopped.\<close>

definition pool1 :: "nat pool" where
  "pool1 = (ThreadPool_ctor 1)\<lparr>m_started := True, m_stopping := True, workers := [WExited], accepted := [5], taken := [5],
     finished := [5]\<rparr>"

lemma pool1_reachable:
  "ev_path pool_step (ThreadPool_ctor 1)
     [PStart, PSpawn, PSubmit (Some 5) True, PNotify, PWorker 0, PWorker 0, PStop, PNotify, PWorker 0] pool1"
proof -
  let ?s0 = "ThreadPool_ctor 1 :: nat pool"
  let ?s1 = "?s0\<lparr>m_started := True\<rparr>"
  let ?s2 = "?s1\<lparr>workers := [WReady]\<rparr>"
  let ?s3 = "?s2\<lparr>m_tasks := [5], accepted := [5], notifies := 1\<rparr>"
  let ?s4 = "?s2\<lparr>m_tasks := [5], accepted := [5]\<rparr>"
  let ?s5 = "?s1\<lparr>workers := [WRunning 5], accepted := [5], taken := [5]\<rparr>"
  let ?s6 = "?s2\<lparr>accepted := [5], taken := [5], finished := [5]\<rparr>"
  let ?s7 = "?s6\<lparr>m_stopping := True, notify_alls := 1\<rparr>"
  let ?s8 = "?s6\<lparr>m_stopping := True\<rparr>"
  note d = ThreadPool_ctor_def Start_flag_def Start_thread_def Submit_def Stop_flag_def worker_check_def
    worker_finish_def set_worker_def pool1_def wake_def
  have "pool_step ?s0 PStart ?s1" using p_start [of ?s0] by (simp add: d)
  moreover have "pool_step ?s1 PSpawn ?s2" using p_spawn [of ?s1] by (simp add: d)
  moreover have "pool_step ?s2 (PSubmit (Some 5) True) ?s3" by (rule p_submit) (simp add: d)
  moreover have "pool_step ?s3 PNotify ?s4" using p_notify_none [of ?s3] by (simp add: d)
  moreover have "pool_step ?s4 (PWorker 0) ?s5" using p_check [of 0 ?s4] by (simp add: d)
  moreover have "pool_step ?s5 (PWorker 0) ?s6" using p_finish [of 0 ?s5 5] by (simp add: d)
  moreover have "pool_step ?s6 PStop ?s7" using p_stop [of ?s6] by (simp add: d)
  moreover have "pool_step ?s7 PNotify ?s8" using p_notify_all [of ?s7] by (simp add: d)
  moreover have "pool_step ?s8 (PWorker 0) pool1" using p_check [of 0 ?s8] by (simp add: d)
  ultimately show ?thesis by (blast intro: ev_path_Cons ev_nil)
qed

theorem pool_runs_every_task_once_witness: "mset (finished pool1) = mset (accepted pool1) \<and> Submit (Some 6) pool1 = (False, pool1)"
  using pool_runs_every_task_once [OF pool1_reachable, of 6] by (simp add: pool1_def)

text \<open>
  C19. The pool never sleeps on its work: in every reachable state in which a task is queued or \<open>Stop\<close> has
  been called, and some worker has not ended, a worker is up, or a thread is about to notify one.
  So no notification is lost, and \<open>Stop\<close> gets every worker to its end.
\<close>

theorem pool_never_stuck:
  assumes "ev_path pool_step (ThreadPool_ctor n) es s" and "m_tasks s \<noteq> [] \<or> m_stopping s"
    and "\<exists>w \<in> set (workers s). w \<noteq> WExited"
  shows "(\<exists>w \<in> set (workers s). w = WReady \<or> (\<exists>t. w = WRunning t)) \<or> 0 < notifies s \<or> 0 < notify_alls s"
proof -
  have inv: "pool_inv s" by (rule pool_reachable_inv [OF assms(1)])
  show ?thesis
  proof (cases "WWaiting \<in> set (workers s)")
    case True
    then show ?thesis using inv assms(2) by (auto simp: pool_inv_def attended_def busy_def)
  next
    case False
    obtain w where "w \<in> set (workers s)" "w \<noteq> WExited" using assms(3) by blast
    then have "w = WReady \<or> (\<exists>t. w = WRunning t)" using False by (metis worker.exhaust)
    then show ?thesis using \<open>w \<in> set (workers s)\<close> by blast
  qed
qed

theorem pool_never_stuck_witness:
  "\<exists>s. ev_path pool_step (ThreadPool_ctor 2) [PSubmit (Some (5 :: nat)) True, PStart, PSpawn] s
     \<and> ((\<exists>w \<in> set (workers s). w = WReady \<or> (\<exists>t. w = WRunning t)) \<or> 0 < notifies s \<or> 0 < notify_alls s)"
proof -
  let ?s0 = "ThreadPool_ctor 2 :: nat pool"
  let ?s1 = "?s0\<lparr>m_tasks := [5], accepted := [5], notifies := 1\<rparr>"
  let ?s2 = "?s1\<lparr>m_started := True\<rparr>"
  let ?s3 = "?s2\<lparr>workers := [WReady]\<rparr>"
  have "pool_step ?s0 (PSubmit (Some 5) True) ?s1" by (rule p_submit) (simp add: Submit_def ThreadPool_ctor_def)
  moreover have "pool_step ?s1 PStart ?s2" using p_start [of ?s1] by (simp add: Start_flag_def ThreadPool_ctor_def)
  moreover have "pool_step ?s2 PSpawn ?s3" using p_spawn [of ?s2] by (simp add: Start_thread_def ThreadPool_ctor_def)
  ultimately have p: "ev_path pool_step ?s0 [PSubmit (Some 5) True, PStart, PSpawn] ?s3"
    by (blast intro: ev_path_Cons ev_nil)
  with pool_never_stuck [OF p] show ?thesis by (auto simp: ThreadPool_ctor_def)
qed

end
