(* ===== verification/Channel_Owner.thy ===== *)
theory Channel_Owner
  imports Epoll_Poller
begin

text \<open>
  What the owners of a read channel (\<open>EventLoop\<close>, \<open>TimerQueue\<close>, \<open>Acceptor\<close>) have in common: a channel is
  allocated for a descriptor and given a read callback, reading is enabled, and at the end the
  channel is disabled, removed and destroyed. The lemmas say what each part does to the poller.
\<close>

definition SetReadCallback :: "'cb \<Rightarrow> chan_ptr \<Rightarrow> 'cb poll_state \<Rightarrow> 'cb poll_state res" where
  "SetReadCallback cb p s = with_channel p s (\<lambda>c. Inr (put_channel p (c\<lparr>ch_read_callback := Some cb\<rparr>) s))"

definition make_read_channel :: "chan_ptr \<Rightarrow> int \<Rightarrow> 'cb \<Rightarrow> 'cb poll_state \<Rightarrow> 'cb poll_state res" where
  "make_read_channel p fd cb s = rbind (new_channel p fd s) (SetReadCallback cb p)"

definition retire_channel :: "chan_ptr \<Rightarrow> 'cb poll_state \<Rightarrow> 'cb poll_state res" where
  "retire_channel p s = rbind (DisableAll p s) (\<lambda>s. rbind (Channel_Remove p s) (Channel_dtor p))"

text \<open>A channel that is in the poller's map under its own descriptor, or whose descriptor is free and
  that has never been enabled.\<close>

definition held :: "chan_ptr \<Rightarrow> int \<Rightarrow> 'cb poll_state \<Rightarrow> bool" where
  "held p fd s \<longleftrightarrow> usable s p \<and> (\<exists>c. chan_heap s p = Some c \<and> ch_fd c = fd)"

text \<open>A channel with no callback but the one for reading, not tied to an object.\<close>

definition plain :: "'cb channel \<Rightarrow> bool" where
  "plain c \<longleftrightarrow> \<not> ch_tied c \<and> ch_close_callback c = None \<and> ch_error_callback c = None \<and> ch_write_callback c = None"

definition reading :: "chan_ptr \<Rightarrow> int \<Rightarrow> 'cb \<Rightarrow> 'cb poll_state \<Rightarrow> bool" where
  "reading p fd cb s \<longleftrightarrow> (\<exists>c. chan_heap s p = Some c \<and> ch_fd c = fd \<and> ch_events c = kReadEvent
     \<and> ch_index c = kAdded \<and> ch_read_callback c = Some cb \<and> plain c)"

text \<open>The poller does not look at callbacks.\<close>

lemma put_channel_same:
  assumes "poller_inv s" and "chan_heap s p = Some c"
    and "ch_fd c' = ch_fd c" and "ch_events c' = ch_events c" and "ch_index c' = ch_index c"
  shows "poller_inv (put_channel p c' s)" and "watched (put_channel p c' s) = watched s"
proof -
  let ?s = "put_channel p c' s"
  show w: "watched ?s = watched s"
    using assms(2-5) by (auto simp: watched_def put_channel_def fun_eq_iff split: option.splits)
  have "channel_ok ?s q d" if "chan_heap ?s q = Some d" for q d
    using that poller_invD(1) [OF assms(1)] assms(2-5)
    by (cases "q = p") (auto simp: put_channel_def channel_ok_def)
  moreover have "\<exists>d. chan_heap ?s q = Some d \<and> ch_fd d = fd" if "m_channels ?s fd = Some q" for fd q
    using that poller_invD(2) [OF assms(1), of fd q] assms(2,3) by (cases "q = p") (auto simp: put_channel_def)
  moreover have "interest_of (ctl_calls ?s) = Some (watched ?s)"
    using poller_invD(3) [OF assms(1)] w by (simp add: put_channel_def)
  ultimately show "poller_inv ?s" by (simp add: poller_inv_def)
qed

lemma make_read_channel_ok:
  assumes "poller_inv s" and "chan_heap s p = None" and "0 \<le> fd"
  shows "\<exists>s' c. make_read_channel p fd cb s = Inr s' \<and> poller_inv s' \<and> watched s' = watched s
    \<and> m_channels s' = m_channels s \<and> chan_heap s' = (chan_heap s)(p \<mapsto> c)
    \<and> ch_fd c = fd \<and> ch_events c = kNoneEvent \<and> ch_index c = kNew \<and> ch_read_callback c = Some cb \<and> plain c"
proof -
  obtain s1 where new: "new_channel p fd s = Inr s1"
    using assms(3) by (simp add: new_channel_def Channel_ctor_def)
  from new_channel_inv [OF assms(1,2) new] obtain c where s1: "poller_inv s1" "watched s1 = watched s"
    "m_channels s1 = m_channels s" "chan_heap s1 = (chan_heap s)(p \<mapsto> c)"
    and c: "ch_fd c = fd" "ch_events c = kNoneEvent" "ch_index c = kNew" by blast
  have "chan_heap s1 p = Some c" using s1(4) by simp
  then have "plain c" using new
    by (auto simp: plain_def new_channel_def Channel_ctor_def rmap_eq_Inr_iff cpp_assert_eq_Inr_iff put_channel_def)
  let ?c = "c\<lparr>ch_read_callback := Some cb\<rparr>"
  let ?s2 = "put_channel p ?c s1"
  note same = put_channel_same [OF s1(1), of p c ?c]
  show ?thesis
    using new s1 c same \<open>plain c\<close>
    by (intro exI [of _ ?s2] exI [of _ ?c])
      (simp add: make_read_channel_def SetReadCallback_def with_channel_def, simp add: put_channel_def plain_def)
qed

lemma EnableReading_ok:
  assumes "poller_inv s" and "chan_heap s p = Some c" and "ch_index c = kNew" and "ch_events c = kNoneEvent"
    and "m_channels s (ch_fd c) = None"
  shows "\<exists>s'. EnableReading p s = Inr s' \<and> poller_inv s' \<and> watched s' = (watched s)(ch_fd c \<mapsto> (kReadEvent, p))
    \<and> m_channels s' = (m_channels s)(ch_fd c \<mapsto> p)
    \<and> chan_heap s' = (chan_heap s)(p \<mapsto> c\<lparr>ch_events := kReadEvent, ch_index := kAdded\<rparr>)"
proof -
  have u: "usable s p" using assms by (auto simp: usable_def)
  have ev: "kNoneEvent OR kReadEvent = kReadEvent" "kReadEvent \<noteq> kNoneEvent"
    by (simp_all add: kReadEvent_def kNoneEvent_def poll_bits)
  note eq = set_events_eq [OF assms(1) u assms(2), of "\<lambda>m. m OR kReadEvent"]
  show ?thesis
    using eq set_events_inv [OF assms(1) u assms(2) eq] assms(3,4) ev
    by (simp add: EnableReading_def next_index_def)
qed

lemma disable_remove_ok:
  assumes "poller_inv s" and "held p fd s"
  shows "\<exists>s' c. rbind (DisableAll p s) (Channel_Remove p) = Inr s' \<and> rbind (DisableAll p s) (RemoveChannel p) = Inr s'
    \<and> poller_inv s' \<and> watched s' = (watched s)(fd := None) \<and> m_channels s' = (m_channels s)(fd := None)
    \<and> chan_heap s' = (chan_heap s)(p \<mapsto> c) \<and> ch_fd c = fd \<and> ch_events c = kNoneEvent \<and> ch_index c = kNew"
proof -
  from assms(2) obtain c where u: "usable s p" and c: "chan_heap s p = Some c" "ch_fd c = fd" by (auto simp: held_def)
  note eq = set_events_eq [OF assms(1) u c(1), of "\<lambda>m. kNoneEvent"]
  define c1 where "c1 = c\<lparr>ch_events := kNoneEvent, ch_index := next_index (ch_index c) kNoneEvent\<rparr>"
  obtain s1 where s1: "DisableAll p s = Inr s1" "poller_inv s1" "watched s1 = (watched s)(fd := None)"
    "m_channels s1 = (m_channels s)(fd \<mapsto> p)" "chan_heap s1 = (chan_heap s)(p \<mapsto> c1)"
    using eq set_events_inv [OF assms(1) u c(1) eq] c(2) by (auto simp: DisableAll_def c1_def)
  have c1: "chan_heap s1 p = Some c1" "ch_fd c1 = fd" "ch_events c1 = kNoneEvent" "m_channels s1 (ch_fd c1) = Some p"
    using s1(4,5) c(2) by (simp_all add: c1_def)
  define s2 where "s2 = s1\<lparr>chan_heap := (chan_heap s1)(p \<mapsto> c1\<lparr>ch_index := kNew\<rparr>), m_channels := (m_channels s1)(fd := None)\<rparr>"
  from Remove_ok [OF s1(2) c1(1,4,3), of s2] have s2: "Channel_Remove p s1 = Inr s2" "poller_inv s2"
    "watched s2 = (watched s1)(fd := None)" by (simp_all add: s2_def c1(2))
  have "RemoveChannel p s1 = Inr s2"
    using s2(1) c1(1,3) by (simp add: Channel_Remove_def with_channel_def IsNoneEvent_def)
  then show ?thesis
    using s1 s2 c1 by (intro exI [of _ s2] exI [of _ "c1\<lparr>ch_index := kNew\<rparr>"]) (simp, simp add: s2_def)
qed

text \<open>A channel that is not in the map and idle can be destroyed.\<close>

lemma Channel_dtor_ok:
  assumes "poller_inv s" and "chan_heap s p = Some c" and "ch_events c = kNoneEvent" and "ch_index c = kNew"
    and "m_channels s (ch_fd c) \<noteq> Some p"
  shows "\<exists>s'. Channel_dtor p s = Inr s' \<and> poller_inv s' \<and> watched s' = watched s \<and> m_channels s' = m_channels s
    \<and> chan_heap s' = (chan_heap s)(p := None)"
proof -
  have free: "m_channels s g \<noteq> Some p" for g
    using poller_invD(2) [OF assms(1), of g p] assms(2,5) by (cases "m_channels s g") auto
  let ?s' = "s\<lparr>chan_heap := (chan_heap s)(p := None)\<rparr>"
  have d: "Channel_dtor p s = Inr ?s'"
    using assms by (simp add: Channel_dtor_def with_channel_def IsNoneEvent_def kNew_def)
  then show ?thesis using dtor_inv [OF assms(1) d free] by (intro exI [of _ ?s']) simp
qed

lemma retire_channel_ok:
  assumes "poller_inv s" and "held p fd s"
  shows "\<exists>s'. retire_channel p s = Inr s' \<and> poller_inv s' \<and> watched s' = (watched s)(fd := None)
    \<and> m_channels s' = (m_channels s)(fd := None) \<and> chan_heap s' = (chan_heap s)(p := None)"
proof -
  from disable_remove_ok [OF assms] obtain s1 c where s1: "rbind (DisableAll p s) (Channel_Remove p) = Inr s1"
    "poller_inv s1" "watched s1 = (watched s)(fd := None)" "m_channels s1 = (m_channels s)(fd := None)"
    "chan_heap s1 = (chan_heap s)(p \<mapsto> c)" "ch_fd c = fd" "ch_events c = kNoneEvent" "ch_index c = kNew" by blast
  from Channel_dtor_ok [OF s1(2), of p c] s1 obtain s2 where s2: "Channel_dtor p s1 = Inr s2" "poller_inv s2"
    "watched s2 = watched s1" "m_channels s2 = m_channels s1" "chan_heap s2 = (chan_heap s1)(p := None)"
    by auto
  have "retire_channel p s = Inr s2"
    using s1(1) s2(1) by (auto simp: retire_channel_def rbind_eq_Inr_iff)
  then show ?thesis using s1 s2 by (intro exI [of _ s2]) simp
qed

lemma reading_held:
  assumes "poller_inv s" and "reading p fd cb s"
  shows "held p fd s" and "m_channels s fd = Some p" and "watched s fd = Some (kReadEvent, p)"
proof -
  from assms(2) obtain c where c: "chan_heap s p = Some c" "ch_fd c = fd" "ch_events c = kReadEvent" "ch_index c = kAdded"
    by (auto simp: reading_def)
  then have u: "usable s p" by (auto simp: usable_def)
  then show "held p fd s" using c by (auto simp: held_def)
  show "m_channels s fd = Some p" using poller_invD(1) [OF assms(1) c(1)] c by (auto simp: channel_ok_def)
  show "watched s fd = Some (kReadEvent, p)" using watched_own [OF assms(1) c(1) u] c by simp
qed

text \<open>Allocating a channel and enabling reading at once.\<close>

lemma open_reading_ok:
  assumes "poller_inv s" and "chan_heap s p = None" and "0 \<le> fd" and "m_channels s fd = None"
  shows "\<exists>s'. rbind (make_read_channel p fd cb s) (EnableReading p) = Inr s' \<and> poller_inv s'
    \<and> watched s' = (watched s)(fd \<mapsto> (kReadEvent, p)) \<and> m_channels s' = (m_channels s)(fd \<mapsto> p)
    \<and> reading p fd cb s' \<and> (\<forall>q. q \<noteq> p \<longrightarrow> chan_heap s' q = chan_heap s q)"
proof -
  from make_read_channel_ok [OF assms(1-3), of cb] obtain s1 c where s1: "make_read_channel p fd cb s = Inr s1"
    "poller_inv s1" "watched s1 = watched s" "m_channels s1 = m_channels s" "chan_heap s1 = (chan_heap s)(p \<mapsto> c)"
    and c: "ch_fd c = fd" "ch_events c = kNoneEvent" "ch_index c = kNew" "ch_read_callback c = Some cb" "plain c" by blast
  from EnableReading_ok [OF s1(2), of p c] s1 c assms(4) obtain s2 where "EnableReading p s1 = Inr s2" "poller_inv s2"
    "watched s2 = (watched s1)(fd \<mapsto> (kReadEvent, p))" "m_channels s2 = (m_channels s1)(fd \<mapsto> p)"
    "chan_heap s2 = (chan_heap s1)(p \<mapsto> c\<lparr>ch_events := kReadEvent, ch_index := kAdded\<rparr>)" by auto
  then show ?thesis using s1 c by (intro exI [of _ s2]) (auto simp: reading_def plain_def)
qed

end
