(* ===== verification/Loop_Object.thy ===== *)
theory Loop_Object
  imports Event_Loop Channel_Owner
begin

text \<open>
  The other half of \<open>net/event_loop.{h,cpp}\<close>: the loop as an object. It owns the poller, the wakeup
  channel on an eventfd and the timer queue with its channel on a timerfd; construction and
  destruction wire and unwire these, and one round of \<open>Loop\<close> polls and lets every active channel
  handle its events. What \<open>eventfd\<close> and \<open>timerfd_create\<close> return are arguments.
\<close>

section \<open>State\<close>

text \<open>The read callbacks the loop itself installs, and those of the channels of its users.\<close>

datatype 'cb loop_cb = CbWakeup | CbTimer | CbOf 'cb

text \<open>\<open>lo_timer\<close> is \<open>m_timer_queue\<close>, whose \<open>m_timer_channel\<close> is \<open>lo_timer_chan\<close>; \<open>lo_eventfd\<close> is the counter of the
  eventfd, \<open>lo_closed\<close> the descriptors closed so far and \<open>lo_user\<close> what the callbacks of users work on.\<close>

record ('cb, 't, 'u) loop_obj =
  lo_wakeup_fd :: int
  lo_wakeup_chan :: "chan_ptr option"
  lo_timer :: "'t timer_queue option"
  lo_timer_chan :: "chan_ptr option"
  lo_poll :: "'cb loop_cb poll_state"
  lo_eventfd :: nat
  lo_closed :: "int list"
  lo_user :: 'u

definition close_fd :: "int \<Rightarrow> ('cb, 't, 'u) loop_obj \<Rightarrow> ('cb, 't, 'u) loop_obj" where
  "close_fd fd lo = (if fd \<ge> 0 then lo\<lparr>lo_closed := lo_closed lo @ [fd]\<rparr> else lo)"

section \<open>Construction and destruction\<close>

definition TimerQueue_ctor :: "chan_ptr \<Rightarrow> int \<Rightarrow> ('cb, 't, 'u) loop_obj \<Rightarrow> ('cb, 't, 'u) loop_obj res" where
  "TimerQueue_ctor p timer_fd lo =
     (let lo1 = lo\<lparr>lo_timer := Some (TimerQueue_init timer_fd)\<rparr>
      in if timer_fd \<ge> 0
         then rmap (\<lambda>ps. lo1\<lparr>lo_timer_chan := Some p, lo_poll := ps\<rparr>)
                (rbind (make_read_channel p timer_fd CbTimer (lo_poll lo1)) (EnableReading p))
         else Inr lo1)"

text \<open>The destructor's body, then the members: the channel goes last.\<close>

definition TimerQueue_dtor :: "('cb, 't, 'u) loop_obj \<Rightarrow> ('cb, 't, 'u) loop_obj res" where
  "TimerQueue_dtor lo =
     (case lo_timer lo of
        None \<Rightarrow> Inr lo
      | Some q \<Rightarrow>
          rbind (case lo_timer_chan lo of
                   None \<Rightarrow> Inr lo
                 | Some p \<Rightarrow> rmap (\<lambda>ps. lo\<lparr>lo_poll := ps\<rparr>) (rbind (DisableAll p (lo_poll lo)) (RemoveChannel p))) (\<lambda>lo.
            let lo1 = close_fd (m_timer_fd q) lo
            in case lo_timer_chan lo1 of
                 None \<Rightarrow> Inr (lo1\<lparr>lo_timer := None\<rparr>)
               | Some p \<Rightarrow> rmap (\<lambda>ps. lo1\<lparr>lo_timer := None, lo_timer_chan := None, lo_poll := ps\<rparr>)
                            (Channel_dtor p (lo_poll lo1))))"

definition EventLoop_ctor :: "chan_ptr \<Rightarrow> int \<Rightarrow> chan_ptr \<Rightarrow> int \<Rightarrow> 'u \<Rightarrow> ('cb, 't, 'u) loop_obj res" where
  "EventLoop_ctor pw wakeup_fd pt timer_fd u =
     rbind (rbind (make_read_channel pw wakeup_fd CbWakeup EpollPoller_ctor) (EnableReading pw)) (\<lambda>ps.
       TimerQueue_ctor pt timer_fd
         \<lparr>lo_wakeup_fd = wakeup_fd, lo_wakeup_chan = Some pw, lo_timer = None, lo_timer_chan = None, lo_poll = ps,
          lo_eventfd = 0, lo_closed = [], lo_user = u\<rparr>)"

definition EventLoop_dtor :: "('cb, 't, 'u) loop_obj \<Rightarrow> ('cb, 't, 'u) loop_obj res" where
  "EventLoop_dtor lo =
     (case lo_wakeup_chan lo of
        None \<Rightarrow> Inl NullDeref
      | Some p \<Rightarrow>
          rbind (retire_channel p (lo_poll lo)) (\<lambda>ps.
            TimerQueue_dtor
              ((close_fd (lo_wakeup_fd lo) (lo\<lparr>lo_wakeup_chan := None, lo_poll := ps\<rparr>))\<lparr>lo_wakeup_fd := - 1\<rparr>)))"

section \<open>Timers\<close>

text \<open>\<open>RunAt\<close>, \<open>RunAfter\<close>, \<open>RunEvery\<close> and \<open>Cancel\<close> call the timer queue.\<close>

definition on_timers :: "('t timer_queue \<Rightarrow> ('a \<times> 't timer_queue) res) \<Rightarrow> ('cb, 't, 'u) loop_obj \<Rightarrow>
    ('a \<times> ('cb, 't, 'u) loop_obj) res" where
  "on_timers oper lo =
     (case lo_timer lo of
        None \<Rightarrow> Inl NullDeref
      | Some q \<Rightarrow> rmap (\<lambda>(a, q'). (a, lo\<lparr>lo_timer := Some q'\<rparr>)) (oper q))"

definition EventLoop_RunAt where
  "EventLoop_RunAt now time cb = on_timers (RunAt now time cb)"

definition EventLoop_RunAfter where
  "EventLoop_RunAfter now0 now delay cb = on_timers (RunAfter now0 now delay cb)"

definition EventLoop_RunEvery where
  "EventLoop_RunEvery now0 now iv cb = on_timers (RunEvery now0 now iv cb)"

definition EventLoop_Cancel where
  "EventLoop_Cancel now tid = on_timers (Cancel now tid)"

definition EventLoop_NextTimeout :: "int \<Rightarrow> ('cb, 't, 'u) loop_obj \<Rightarrow> int res" where
  "EventLoop_NextTimeout now lo = (case lo_timer lo of None \<Rightarrow> Inr (- 1) | Some q \<Rightarrow> NextTimeout now q)"

section \<open>One round of Loop\<close>

text \<open>The callbacks: the wakeup channel reads the eventfd, the timer channel runs the expired timers
  (\<open>now\<close> and \<open>now'\<close> are the clock as \<open>HandleRead\<close> and \<open>SetTimerFd\<close> read it), other channels do what
  \<open>user_call\<close> says.\<close>

definition loop_call ::
  "('t \<Rightarrow> 'u \<Rightarrow> 't timer_queue \<Rightarrow> ('u \<times> 't timer_queue) res) \<Rightarrow> int \<Rightarrow> int \<Rightarrow>
   (int option \<Rightarrow> 'cb \<Rightarrow> ('cb, 't, 'u) loop_obj \<Rightarrow> ('cb, 't, 'u) loop_obj res) \<Rightarrow>
   int option \<Rightarrow> 'cb loop_cb \<Rightarrow> ('cb, 't, 'u) loop_obj \<Rightarrow> ('cb, 't, 'u) loop_obj res" where
  "loop_call timer_call now now' user_call t cb lo =
     (case cb of
        CbWakeup \<Rightarrow> Inr (lo\<lparr>lo_eventfd := 0\<rparr>)
      | CbTimer \<Rightarrow>
          (case lo_timer lo of
             None \<Rightarrow> Inl UseAfterFree
           | Some q \<Rightarrow>
               (case TimerQueue_HandleRead timer_call now now' (lo_user lo) q of
                  None \<Rightarrow> Inl NoReturn
                | Some r \<Rightarrow> rmap (\<lambda>(u, q'). lo\<lparr>lo_user := u, lo_timer := Some q'\<rparr>) r))
      | CbOf cb \<Rightarrow> user_call t cb lo)"

fun handle_active ::
  "(('cb, 't, 'u) loop_obj \<Rightarrow> nat \<Rightarrow> bool) \<Rightarrow>
   (int option \<Rightarrow> 'cb loop_cb \<Rightarrow> ('cb, 't, 'u) loop_obj \<Rightarrow> ('cb, 't, 'u) loop_obj res) \<Rightarrow> int \<Rightarrow> chan_ptr list \<Rightarrow>
   ('cb, 't, 'u) loop_obj \<Rightarrow> ('cb, 't, 'u) loop_obj res" where
  "handle_active alive call t [] lo = Inr lo"
| "handle_active alive call t (p # ps) lo =
     rbind (HandleEvent alive (\<lambda>lo. chan_heap (lo_poll lo) p) call t lo) (handle_active alive call t ps)"

definition Loop_round ::
  "(('cb, 't, 'u) loop_obj \<Rightarrow> nat \<Rightarrow> bool) \<Rightarrow>
   (int option \<Rightarrow> 'cb loop_cb \<Rightarrow> ('cb, 't, 'u) loop_obj \<Rightarrow> ('cb, 't, 'u) loop_obj res) \<Rightarrow>
   (nat \<Rightarrow> (events \<times> chan_ptr) list) \<Rightarrow> int \<Rightarrow> ('cb, 't, 'u) loop_obj \<Rightarrow> ('cb, 't, 'u) loop_obj res" where
  "Loop_round alive call epoll_wait t lo =
     rbind (EpollPoller_Poll epoll_wait (lo_poll lo)) (\<lambda>(active, ps).
       handle_active alive call t active (lo\<lparr>lo_poll := ps\<rparr>))"

section \<open>Wiring\<close>

text \<open>A loop as the constructor leaves it and as everything that happens while it runs keeps it: both
  channels are there and enabled for reading, whatever other channels have come and gone.\<close>

definition loop_intact :: "chan_ptr \<Rightarrow> int \<Rightarrow> chan_ptr \<Rightarrow> int \<Rightarrow> ('cb, 't, 'u) loop_obj \<Rightarrow> bool" where
  "loop_intact pw wakeup_fd pt timer_fd lo \<longleftrightarrow>
     poller_inv (lo_poll lo) \<and> lo_wakeup_fd lo = wakeup_fd \<and> lo_wakeup_chan lo = Some pw
     \<and> reading pw wakeup_fd CbWakeup (lo_poll lo)
     \<and> (\<exists>q. lo_timer lo = Some q \<and> m_timer_fd q = timer_fd)
     \<and> lo_timer_chan lo = (if 0 \<le> timer_fd then Some pt else None)
     \<and> (0 \<le> timer_fd \<longrightarrow> reading pt timer_fd CbTimer (lo_poll lo))"

lemma reading_other:
  "q \<noteq> p \<Longrightarrow> chan_heap s' p = chan_heap s p \<Longrightarrow> reading p fd cb s \<Longrightarrow> reading p fd cb s'"
  by (simp add: reading_def)

lemma ctor_poller [simp]: "chan_heap EpollPoller_ctor = Map.empty" "m_channels EpollPoller_ctor = Map.empty"
  "watched EpollPoller_ctor = Map.empty"
  by (simp_all add: EpollPoller_ctor_def watched_def fun_eq_iff)

lemma TimerQueue_ctor_ok:
  assumes "poller_inv (lo_poll lo)" and "chan_heap (lo_poll lo) p = None" and "m_channels (lo_poll lo) fd = None"
    and "lo_timer_chan lo = None"
  shows "\<exists>ps. TimerQueue_ctor p fd lo =
      Inr (lo\<lparr>lo_timer := Some (TimerQueue_init fd), lo_timer_chan := (if 0 \<le> fd then Some p else None), lo_poll := ps\<rparr>)
    \<and> poller_inv ps \<and> (0 \<le> fd \<longrightarrow> reading p fd CbTimer ps) \<and> (\<forall>q. q \<noteq> p \<longrightarrow> chan_heap ps q = chan_heap (lo_poll lo) q)
    \<and> watched ps = (watched (lo_poll lo))(fd := if 0 \<le> fd then Some (kReadEvent, p) else watched (lo_poll lo) fd)"
proof (cases "0 \<le> fd")
  case True
  from open_reading_ok [OF assms(1,2) True assms(3), of CbTimer] show ?thesis
    using True by (auto simp: TimerQueue_ctor_def)
next
  case False
  then show ?thesis
    using assms by (intro exI [of _ "lo_poll lo"]) (cases lo, simp add: TimerQueue_ctor_def fun_upd_idem)
qed

lemma TimerQueue_dtor_ok:
  assumes "poller_inv (lo_poll lo)" and "lo_timer lo = Some q" and "m_timer_fd q = fd"
    and "lo_timer_chan lo = (if 0 \<le> fd then Some p else None)" and "0 \<le> fd \<longrightarrow> held p fd (lo_poll lo)"
  shows "\<exists>ps. TimerQueue_dtor lo = Inr (lo\<lparr>lo_timer := None, lo_timer_chan := None, lo_poll := ps,
      lo_closed := lo_closed lo @ (if 0 \<le> fd then [fd] else [])\<rparr>)
    \<and> poller_inv ps \<and> watched ps = (if 0 \<le> fd then (watched (lo_poll lo))(fd := None) else watched (lo_poll lo))
    \<and> chan_heap ps = (if 0 \<le> fd then (chan_heap (lo_poll lo))(p := None) else chan_heap (lo_poll lo))"
proof (cases "0 \<le> fd")
  case True
  from disable_remove_ok [OF assms(1), of p fd] assms(5) True obtain s1 c where s1:
    "rbind (DisableAll p (lo_poll lo)) (RemoveChannel p) = Inr s1" "poller_inv s1"
    "watched s1 = (watched (lo_poll lo))(fd := None)" "m_channels s1 = (m_channels (lo_poll lo))(fd := None)"
    "chan_heap s1 = (chan_heap (lo_poll lo))(p \<mapsto> c)" "ch_fd c = fd" "ch_events c = kNoneEvent" "ch_index c = kNew"
    by blast
  from Channel_dtor_ok [OF s1(2), of p c] s1 obtain s2 where "Channel_dtor p s1 = Inr s2" "poller_inv s2"
    "watched s2 = watched s1" "chan_heap s2 = (chan_heap s1)(p := None)" by auto
  then show ?thesis
    using True assms(2-4) s1 by (intro exI [of _ s2]) (simp add: TimerQueue_dtor_def close_fd_def)
next
  case False
  then show ?thesis
    using assms by (intro exI [of _ "lo_poll lo"]) (cases lo, simp add: TimerQueue_dtor_def close_fd_def)
qed

lemma EventLoop_ctor_ok:
  assumes "pw \<noteq> pt" and "0 \<le> wakeup_fd" and "wakeup_fd \<noteq> timer_fd"
  shows "\<exists>lo :: ('cb, 't, 'u) loop_obj. EventLoop_ctor pw wakeup_fd pt timer_fd u = Inr lo \<and> loop_intact pw wakeup_fd pt timer_fd lo
    \<and> lo_timer lo = Some (TimerQueue_init timer_fd) \<and> lo_user lo = u \<and> lo_closed lo = []
    \<and> watched (lo_poll lo) = [wakeup_fd \<mapsto> (kReadEvent, pw)](timer_fd := if 0 \<le> timer_fd then Some (kReadEvent, pt) else None)"
proof -
  from open_reading_ok [OF poller_inv_ctor, of pw wakeup_fd CbWakeup] assms(2)
  obtain s1 :: "'cb loop_cb poll_state" where s1: "rbind (make_read_channel pw wakeup_fd CbWakeup EpollPoller_ctor) (EnableReading pw) = Inr s1" "poller_inv s1"
    "watched s1 = [wakeup_fd \<mapsto> (kReadEvent, pw)]" "m_channels s1 = [wakeup_fd \<mapsto> pw]"
    "reading pw wakeup_fd CbWakeup s1" "\<forall>q. q \<noteq> pw \<longrightarrow> chan_heap s1 q = None" by auto
  define lo :: "('cb, 't, 'u) loop_obj" where "lo = \<lparr>lo_wakeup_fd = wakeup_fd, lo_wakeup_chan = Some pw, lo_timer = None, lo_timer_chan = None,
      lo_poll = s1, lo_eventfd = 0, lo_closed = [], lo_user = u\<rparr>"
  have pre: "poller_inv (lo_poll lo)" "chan_heap (lo_poll lo) pt = None" "m_channels (lo_poll lo) timer_fd = None"
    "lo_timer_chan lo = None" using s1 assms by (simp_all add: lo_def)
  from TimerQueue_ctor_ok [OF pre] obtain ps where ps: "TimerQueue_ctor pt timer_fd lo =
      Inr (lo\<lparr>lo_timer := Some (TimerQueue_init timer_fd), lo_timer_chan := (if 0 \<le> timer_fd then Some pt else None),
           lo_poll := ps\<rparr>)" "poller_inv ps" "0 \<le> timer_fd \<longrightarrow> reading pt timer_fd CbTimer ps"
      "\<forall>q. q \<noteq> pt \<longrightarrow> chan_heap ps q = chan_heap (lo_poll lo) q"
      "watched ps = (watched (lo_poll lo))(timer_fd := if 0 \<le> timer_fd then Some (kReadEvent, pt)
         else watched (lo_poll lo) timer_fd)" by blast
  have "reading pw wakeup_fd CbWakeup ps" using reading_other [of pt pw ps s1] ps(4) s1(5) assms(1) by (simp add: lo_def)
  then show ?thesis
    using s1 ps assms(3) by (simp add: EventLoop_ctor_def loop_intact_def lo_def) (simp add: TimerQueue_init_def)
qed

lemma EventLoop_dtor_ok:
  assumes "loop_intact pw wakeup_fd pt timer_fd lo" and "pw \<noteq> pt" and "0 \<le> wakeup_fd" and "wakeup_fd \<noteq> timer_fd"
  shows "\<exists>lo'. EventLoop_dtor lo = Inr lo' \<and> poller_inv (lo_poll lo') \<and> lo_timer lo' = None
    \<and> lo_closed lo' = lo_closed lo @ wakeup_fd # (if 0 \<le> timer_fd then [timer_fd] else [])
    \<and> (\<forall>fd. watched (lo_poll lo') fd =
         (if fd = wakeup_fd \<or> fd = timer_fd \<and> 0 \<le> timer_fd then None else watched (lo_poll lo) fd))
    \<and> chan_heap (lo_poll lo') pw = None \<and> lo_user lo' = lo_user lo"
proof -
  from assms(1) obtain q where inv: "poller_inv (lo_poll lo)" and w: "lo_wakeup_fd lo = wakeup_fd"
    "lo_wakeup_chan lo = Some pw" "reading pw wakeup_fd CbWakeup (lo_poll lo)"
    and q: "lo_timer lo = Some q" "m_timer_fd q = timer_fd" "lo_timer_chan lo = (if 0 \<le> timer_fd then Some pt else None)"
    "0 \<le> timer_fd \<longrightarrow> reading pt timer_fd CbTimer (lo_poll lo)" by (auto simp: loop_intact_def)
  from retire_channel_ok [OF inv reading_held(1) [OF inv w(3)]] obtain s1 where s1:
    "retire_channel pw (lo_poll lo) = Inr s1" "poller_inv s1" "watched s1 = (watched (lo_poll lo))(wakeup_fd := None)"
    "m_channels s1 = (m_channels (lo_poll lo))(wakeup_fd := None)" "chan_heap s1 = (chan_heap (lo_poll lo))(pw := None)"
    by blast
  define lo1 where "lo1 = lo\<lparr>lo_wakeup_fd := - 1, lo_wakeup_chan := None, lo_poll := s1, lo_closed := lo_closed lo @ [wakeup_fd]\<rparr>"
  have "reading pt timer_fd CbTimer s1" if "0 \<le> timer_fd"
    using that q(4) reading_other [of pw pt s1 "lo_poll lo"] s1(5) assms(2) by simp
  then have held: "0 \<le> timer_fd \<longrightarrow> held pt timer_fd s1" using reading_held(1) [OF s1(2)] by blast
  have pre: "poller_inv (lo_poll lo1)" "lo_timer lo1 = Some q"
    "lo_timer_chan lo1 = (if 0 \<le> timer_fd then Some pt else None)" "0 \<le> timer_fd \<longrightarrow> held pt timer_fd (lo_poll lo1)"
    using s1(2) q held by (simp_all add: lo1_def)
  from TimerQueue_dtor_ok [OF pre(1,2) q(2) pre(3,4)] obtain ps where "TimerQueue_dtor lo1 =
      Inr (lo1\<lparr>lo_timer := None, lo_timer_chan := None, lo_poll := ps,
        lo_closed := lo_closed lo1 @ (if 0 \<le> timer_fd then [timer_fd] else [])\<rparr>)"
      "poller_inv ps" "watched ps = (if 0 \<le> timer_fd then (watched (lo_poll lo1))(timer_fd := None) else watched (lo_poll lo1))"
      "chan_heap ps = (if 0 \<le> timer_fd then (chan_heap (lo_poll lo1))(pt := None) else chan_heap (lo_poll lo1))"
    by blast
  moreover have "EventLoop_dtor lo = TimerQueue_dtor lo1"
    using w s1(1) assms(3) by (cases lo) (simp add: EventLoop_dtor_def close_fd_def lo1_def)
  ultimately show ?thesis using s1 by (auto simp: lo1_def)
qed

section \<open>Dispatch\<close>

text \<open>The callbacks one ready channel runs, given which tied objects are alive.\<close>

definition channel_plan :: "(nat \<Rightarrow> bool) \<Rightarrow> int \<Rightarrow> 'cb channel \<Rightarrow> (int option \<times> 'cb) list" where
  "channel_plan al t c = (if ch_tied c \<and> \<not> (\<exists>obj. ch_tie c = Some obj \<and> al obj) then [] else dispatch_plan t c)"

definition ready_plan :: "(nat \<Rightarrow> bool) \<Rightarrow> int \<Rightarrow> 'cb poll_state \<Rightarrow> events \<times> chan_ptr \<Rightarrow> (int option \<times> 'cb) list" where
  "ready_plan al t s = (\<lambda>(ev, p).
     case chan_heap s p of None \<Rightarrow> [] | Some c \<Rightarrow> channel_plan al t (c\<lparr>ch_revents := ev\<rparr>))"

text \<open>Callbacks that destroy no channel and change no channel's callbacks or ties; they may enable,
  disable, remove and create channels.\<close>

definition same_target :: "'cb channel \<Rightarrow> 'cb channel \<Rightarrow> bool" where
  "same_target c c' \<longleftrightarrow> same_dispatch c c' \<and> ch_tied c' = ch_tied c \<and> ch_tie c' = ch_tie c"

definition keeps_channels ::
  "(int option \<Rightarrow> 'cb loop_cb \<Rightarrow> ('cb, 't, 'u) loop_obj \<Rightarrow> ('cb, 't, 'u) loop_obj res) \<Rightarrow> bool" where
  "keeps_channels call \<longleftrightarrow>
     (\<forall>t cb lo lo' p c. call t cb lo = Inr lo' \<and> chan_heap (lo_poll lo) p = Some c \<longrightarrow>
        (\<exists>c'. chan_heap (lo_poll lo') p = Some c' \<and> same_target c c'))"

lemma same_target_trans: "same_target a b \<Longrightarrow> same_target b c \<Longrightarrow> same_target a c"
  by (simp add: same_target_def same_dispatch_def)

lemma same_target_plan:
  assumes "same_target c c'"
  shows "channel_plan al t c' = channel_plan al t c"
proof -
  have "dispatch_plan t c' = dispatch_plan t c"
    using assms unfolding dispatch_plan_def same_target_def same_dispatch_def by (simp only: Let_def)
  then show ?thesis using assms by (auto simp: channel_plan_def same_target_def)
qed

lemma run_plan_keeps:
  assumes "keeps_channels call" and "run_plan call plan lo = Inr lo'" and "chan_heap (lo_poll lo) p = Some c"
  shows "\<exists>c'. chan_heap (lo_poll lo') p = Some c' \<and> same_target c c'"
  using assms(2,3)
proof (induction plan arbitrary: lo c)
  case Nil
  then show ?case by (simp add: same_target_def)
next
  case (Cons x plan)
  obtain t cb where x: "x = (t, cb)" by fastforce
  from Cons.prems(1) obtain lo1 where lo1: "call t cb lo = Inr lo1" "run_plan call plan lo1 = Inr lo'"
    by (auto simp: x elim: rbind_eq_InrE)
  from assms(1) lo1(1) Cons.prems(2) obtain c1 where "chan_heap (lo_poll lo1) p = Some c1" "same_target c c1"
    unfolding keeps_channels_def by metis
  with Cons.IH [OF lo1(2)] show ?case using same_target_trans by blast
qed

lemma HandleEvent_channel_plan:
  assumes "keeps_channels call" and "chan_heap (lo_poll lo) p = Some c"
  shows "HandleEvent (\<lambda>_. al) (\<lambda>lo. chan_heap (lo_poll lo) p) call t lo = run_plan call (channel_plan al t c) lo"
proof -
  have "keeps_dispatch (\<lambda>lo. chan_heap (lo_poll lo) p) call"
    using assms(1) unfolding keeps_channels_def keeps_dispatch_def same_target_def same_dispatch_def by metis
  from HandleEvent_plan [OF this assms(2), of "\<lambda>_. al" t] show ?thesis by (auto simp: channel_plan_def)
qed

lemma handle_active_plan:
  assumes "keeps_channels call" and "\<And>p. p \<in> set ps \<Longrightarrow> \<exists>c. chan_heap (lo_poll lo) p = Some c \<and> same_target (f p) c"
  shows "handle_active (\<lambda>_. al) call t ps lo = run_plan call (concat (map (\<lambda>p. channel_plan al t (f p)) ps)) lo"
  using assms(2)
proof (induction ps arbitrary: lo)
  case (Cons p ps)
  obtain c where c: "chan_heap (lo_poll lo) p = Some c" "same_target (f p) c" using Cons.prems [of p] by auto
  have eq: "handle_active (\<lambda>_. al) call t (p # ps) lo =
      rbind (run_plan call (channel_plan al t (f p)) lo) (handle_active (\<lambda>_. al) call t ps)"
    using HandleEvent_channel_plan [OF assms(1) c(1), of al t] same_target_plan [OF c(2)] by simp
  show ?case
  proof (cases "run_plan call (channel_plan al t (f p)) lo")
    case (Inr lo1)
    have "\<exists>c. chan_heap (lo_poll lo1) q = Some c \<and> same_target (f q) c" if "q \<in> set ps" for q
      using Cons.prems [of q] that run_plan_keeps [OF assms(1) Inr, of q] same_target_trans by fastforce
    then show ?thesis using Cons.IH eq Inr by (simp add: run_plan_append)
  qed (use eq in \<open>simp add: run_plan_append\<close>)
qed simp

lemma Poll_marks:
  assumes "poller_inv s" and "wait_ok s epoll_wait"
  shows "\<exists>s'. EpollPoller_Poll epoll_wait s = Inr (map snd (epoll_wait (m_events_size s)), s')
    \<and> poller_inv s' \<and> same_but_revents s s'
    \<and> (\<forall>(ev, p) \<in> set (epoll_wait (m_events_size s)).
         \<exists>c. chan_heap s p = Some c \<and> chan_heap s' p = Some (c\<lparr>ch_revents := ev\<rparr>))
    \<and> m_events_size s \<le> m_events_size s'"
proof -
  from Poll_ok [OF assms] obtain s' where s': "EpollPoller_Poll epoll_wait s = Inr (map snd (epoll_wait (m_events_size s)), s')"
    "poller_inv s'" "same_but_revents s s'"
    "\<forall>(ev, p) \<in> set (epoll_wait (m_events_size s)). \<exists>c. chan_heap s' p = Some c \<and> ch_revents c = ev \<and> ch_index c = kAdded"
    and n: "m_events_size s' = (if 0 < length (epoll_wait (m_events_size s))
          \<and> length (epoll_wait (m_events_size s)) = m_events_size s then m_events_size s * 2 else m_events_size s)"
    by blast
  from n have "m_events_size s \<le> m_events_size s'" by simp
  have "\<exists>c. chan_heap s p = Some c \<and> chan_heap s' p = Some (c\<lparr>ch_revents := ev\<rparr>)"
    if m: "(ev, p) \<in> set (epoll_wait (m_events_size s))" for ev p
  proof -
    from s'(4) m obtain c where c: "chan_heap s' p = Some c" "ch_revents c = ev" by fast
    moreover have "map_option (\<lambda>c. c\<lparr>ch_revents := 0\<rparr>) (chan_heap s' p) = map_option (\<lambda>c. c\<lparr>ch_revents := 0\<rparr>) (chan_heap s p)"
      using s'(3) by (simp add: same_but_revents_def)
    ultimately obtain d where d: "chan_heap s p = Some d" "c\<lparr>ch_revents := 0\<rparr> = d\<lparr>ch_revents := 0\<rparr>"
      by (cases "chan_heap s p") auto
    then have "c = d\<lparr>ch_revents := ev\<rparr>" using c(2) by (cases c; cases d) simp
    then show ?thesis using c d by simp
  qed
  then show ?thesis using s' \<open>m_events_size s \<le> m_events_size s'\<close> by blast
qed

lemma Loop_round_plan:
  assumes "poller_inv (lo_poll lo)" and "wait_ok (lo_poll lo) epoll_wait" and "keeps_channels call"
  shows "\<exists>ps. poller_inv ps \<and> same_but_revents (lo_poll lo) ps
    \<and> Loop_round (\<lambda>_. al) call epoll_wait t lo =
        run_plan call (concat (map (ready_plan al t (lo_poll lo)) (epoll_wait (m_events_size (lo_poll lo))))) (lo\<lparr>lo_poll := ps\<rparr>)"
proof -
  let ?ready = "epoll_wait (m_events_size (lo_poll lo))"
  from Poll_marks [OF assms(1,2)] obtain ps where ps: "EpollPoller_Poll epoll_wait (lo_poll lo) = Inr (map snd ?ready, ps)"
    "poller_inv ps" "same_but_revents (lo_poll lo) ps"
    and m: "\<forall>(ev, p) \<in> set ?ready. \<exists>c. chan_heap (lo_poll lo) p = Some c \<and> chan_heap ps p = Some (c\<lparr>ch_revents := ev\<rparr>)"
    by blast
  define f where "f p = the (chan_heap ps p)" for p
  have "\<exists>c. chan_heap (lo_poll (lo\<lparr>lo_poll := ps\<rparr>)) p = Some c \<and> same_target (f p) c" if "p \<in> set (map snd ?ready)" for p
    using that m by (fastforce simp: f_def same_target_def)
  from handle_active_plan [OF assms(3) this, where t = t and al = al]
  have "handle_active (\<lambda>_. al) call t (map snd ?ready) (lo\<lparr>lo_poll := ps\<rparr>) =
      run_plan call (concat (map (\<lambda>p. channel_plan al t (f p)) (map snd ?ready))) (lo\<lparr>lo_poll := ps\<rparr>)" .
  moreover have "map (\<lambda>p. channel_plan al t (f p)) (map snd ?ready) = map (ready_plan al t (lo_poll lo)) ?ready"
    using m by (fastforce simp: ready_plan_def f_def)
  ultimately have "handle_active (\<lambda>_. al) call t (map snd ?ready) (lo\<lparr>lo_poll := ps\<rparr>) =
      run_plan call (concat (map (ready_plan al t (lo_poll lo)) ?ready)) (lo\<lparr>lo_poll := ps\<rparr>)" by (simp only:)
  then show ?thesis using ps by (intro exI [of _ ps]) (simp add: Loop_round_def)
qed

section \<open>Properties\<close>

text \<open>
  A loop is put together and taken apart cleanly. Its constructor succeeds exactly if \<open>eventfd\<close> does,
  and then the poller watches the eventfd and, unless \<open>timerfd_create\<close> failed, the timerfd for
  reading and nothing else; without timers \<open>NextTimeout\<close> is -1. Whatever happens afterwards, as long
  as the two channels stay as they are, destruction fails no assertion, closes each of the two
  descriptors exactly once and leaves the poller in order, watching neither. After a failed
  \<open>eventfd\<close> the constructor runs into the assertion of the channel.
\<close>

theorem event_loop_lifecycle:
  assumes "pw \<noteq> pt" and "wakeup_fd \<noteq> timer_fd"
  shows "if 0 \<le> wakeup_fd
    then \<exists>lo :: ('cb, 't, 'u) loop_obj. EventLoop_ctor pw wakeup_fd pt timer_fd u = Inr lo
      \<and> interest_of (ctl_calls (lo_poll lo)) =
          Some ([wakeup_fd \<mapsto> (kReadEvent, pw)](timer_fd := if 0 \<le> timer_fd then Some (kReadEvent, pt) else None))
      \<and> EventLoop_NextTimeout now lo = Inr (- 1)
      \<and> loop_intact pw wakeup_fd pt timer_fd lo
      \<and> (\<forall>lo1 :: ('cb, 't, 'u) loop_obj. loop_intact pw wakeup_fd pt timer_fd lo1 \<longrightarrow>
           (\<exists>lo2. EventLoop_dtor lo1 = Inr lo2 \<and> poller_inv (lo_poll lo2)
              \<and> lo_closed lo2 = lo_closed lo1 @ wakeup_fd # (if 0 \<le> timer_fd then [timer_fd] else [])
              \<and> (\<forall>fd. watched (lo_poll lo2) fd =
                   (if fd = wakeup_fd \<or> fd = timer_fd \<and> 0 \<le> timer_fd then None else watched (lo_poll lo1) fd))))
    else (EventLoop_ctor pw wakeup_fd pt timer_fd u :: ('cb, 't, 'u) loop_obj res) = Inl AssertionFailed"
proof (cases "0 \<le> wakeup_fd")
  case True
  from EventLoop_ctor_ok [OF assms(1) True assms(2), of u] obtain lo :: "('cb, 't, 'u) loop_obj" where lo:
    "EventLoop_ctor pw wakeup_fd pt timer_fd u = Inr lo" "loop_intact pw wakeup_fd pt timer_fd lo"
    "lo_timer lo = Some (TimerQueue_init timer_fd)"
    "watched (lo_poll lo) = [wakeup_fd \<mapsto> (kReadEvent, pw)](timer_fd := if 0 \<le> timer_fd then Some (kReadEvent, pt) else None)"
    by blast
  have "interest_of (ctl_calls (lo_poll lo)) = Some (watched (lo_poll lo))"
    using lo(2) poller_invD(3) by (auto simp: loop_intact_def)
  moreover have "EventLoop_NextTimeout now lo = Inr (- 1)"
    using lo(3) by (simp add: EventLoop_NextTimeout_def NextTimeout_def TimerQueue_init_def)
  moreover have "\<exists>lo2. EventLoop_dtor lo1 = Inr lo2 \<and> poller_inv (lo_poll lo2)
      \<and> lo_closed lo2 = lo_closed lo1 @ wakeup_fd # (if 0 \<le> timer_fd then [timer_fd] else [])
      \<and> (\<forall>fd. watched (lo_poll lo2) fd =
           (if fd = wakeup_fd \<or> fd = timer_fd \<and> 0 \<le> timer_fd then None else watched (lo_poll lo1) fd))"
    if i: "loop_intact pw wakeup_fd pt timer_fd lo1" for lo1 :: "('cb, 't, 'u) loop_obj"
    using EventLoop_dtor_ok [OF i assms(1) True assms(2)] by blast
  ultimately show ?thesis using True lo by (simp only: if_True) blast
next
  case False
  then show ?thesis by (simp add: EventLoop_ctor_def make_read_channel_def new_channel_def Channel_ctor_def)
qed

theorem event_loop_lifecycle_witness:
  "\<exists>lo :: (unit, unit, unit) loop_obj. EventLoop_ctor 1 3 2 4 () = Inr lo
     \<and> (\<exists>lo2. EventLoop_dtor lo = Inr lo2 \<and> lo_closed lo2 = lo_closed lo @ [3, 4])"
proof -
  have "(1 :: nat) \<noteq> 2" "(3 :: int) \<noteq> 4" by simp_all
  from event_loop_lifecycle [OF this, where 'cb = unit and 't = unit and 'u = unit and u = "()"] show ?thesis
    by (simp only: if_True zero_le_numeral) blast
qed

text \<open>
  C15. A round of the loop runs exactly the callbacks that are due: for the channels \<open>epoll_wait\<close>
  reports, in that order, those which the reported events select in the order of
  \<open>HandleEvent\<close>, nothing for channels whose tied object is gone, and nothing else. This holds
  whatever the callbacks do as long as they destroy no channel. The poller keeps its
  registrations.
\<close>

theorem Loop_round_dispatch:
  assumes "poller_inv (lo_poll lo)" and "wait_ok (lo_poll lo) epoll_wait" and "keeps_channels call"
  shows "\<exists>ps. poller_inv ps \<and> watched ps = watched (lo_poll lo)
    \<and> Loop_round (\<lambda>_. al) call epoll_wait t lo =
        run_plan call (concat (map (ready_plan al t (lo_poll lo)) (epoll_wait (m_events_size (lo_poll lo))))) (lo\<lparr>lo_poll := ps\<rparr>)"
  using Loop_round_plan [OF assms, of al t] same_but_revents_watched by blast

text \<open>Poll only writes \<open>revents\<close>, so the loop's own channels stay as they are.\<close>

lemma reading_revents:
  assumes "same_but_revents s s'" and "reading p fd cb s"
  shows "reading p fd cb s'"
proof -
  from assms(2) obtain c where c: "chan_heap s p = Some c" "ch_fd c = fd" "ch_events c = kReadEvent" "ch_index c = kAdded"
    "ch_read_callback c = Some cb" "plain c" by (auto simp: reading_def)
  have "map_option (\<lambda>c. c\<lparr>ch_revents := 0\<rparr>) (chan_heap s' p) = Some (c\<lparr>ch_revents := 0\<rparr>)"
    using assms(1) c(1) by (simp add: same_but_revents_def)
  then obtain d where d: "chan_heap s' p = Some d" "d\<lparr>ch_revents := 0\<rparr> = c\<lparr>ch_revents := 0\<rparr>" by auto
  then have "d = c\<lparr>ch_revents := ch_revents d\<rparr>" by (cases c; cases d) simp
  then obtain r where "d = c\<lparr>ch_revents := r\<rparr>" by blast
  then show ?thesis using c d(1) by (simp add: reading_def plain_def)
qed

lemma loop_intact_polled:
  assumes "loop_intact pw wakeup_fd pt timer_fd lo" and "same_but_revents (lo_poll lo) ps" and "poller_inv ps"
  shows "loop_intact pw wakeup_fd pt timer_fd (lo\<lparr>lo_poll := ps\<rparr>)"
  using assms reading_revents [OF assms(2)] by (auto simp: loop_intact_def)

text \<open>A round in which the timerfd alone is readable is \<open>HandleRead\<close> of the timer queue.\<close>

lemma timer_event_round:
  assumes "loop_intact pw wakeup_fd pt timer_fd lo" and "0 \<le> timer_fd" and "lo_timer lo = Some q"
    and "TimerQueue_HandleRead timer_call now now' (lo_user lo) q = Some (Inr (u, q'))"
    and "0 < m_events_size (lo_poll lo)"
  shows "\<exists>ps. Loop_round (\<lambda>_. al) (loop_call timer_call now now' user_call) (\<lambda>_. [(POLLIN, pt)]) t lo =
      Inr (lo\<lparr>lo_poll := ps, lo_user := u, lo_timer := Some q'\<rparr>)
    \<and> (m_timer_fd q' = timer_fd \<longrightarrow> loop_intact pw wakeup_fd pt timer_fd (lo\<lparr>lo_poll := ps, lo_user := u, lo_timer := Some q'\<rparr>))
    \<and> poller_inv ps \<and> watched ps = watched (lo_poll lo) \<and> 0 < m_events_size ps"
proof -
  let ?call = "loop_call timer_call now now' user_call"
  let ?get = "\<lambda>lo. chan_heap (lo_poll lo) pt"
  have inv: "poller_inv (lo_poll lo)" and r: "reading pt timer_fd CbTimer (lo_poll lo)"
    using assms(1-3) by (auto simp: loop_intact_def)
  have "wait_ok (lo_poll lo) (\<lambda>_. [(POLLIN, pt)])"
    using reading_held(3) [OF inv r] assms(5) by (auto simp: wait_ok_def)
  from Poll_marks [OF inv this] r assms(5) obtain ps c where ps: "EpollPoller_Poll (\<lambda>_. [(POLLIN, pt)]) (lo_poll lo) = Inr ([pt], ps)"
    "poller_inv ps" "same_but_revents (lo_poll lo) ps" "chan_heap ps pt = Some (c\<lparr>ch_revents := POLLIN\<rparr>)" "0 < m_events_size ps"
    and c: "ch_read_callback c = Some CbTimer" "plain c" by (auto simp: reading_def)
  have ev: "closes POLLIN = False" "fails POLLIN = False" "reads POLLIN" "writes POLLIN = False"
    by (simp_all add: closes_def fails_def reads_def writes_def has_event_def poll_bits)
  have "HandleEvent (\<lambda>_. al) ?get ?call t (lo\<lparr>lo_poll := ps\<rparr>) = Inr (lo\<lparr>lo_poll := ps, lo_user := u, lo_timer := Some q'\<rparr>)"
    using ps(4) c ev assms(3,4)
    by (simp add: HandleEvent_def HandleEventWithGuard_def dispatch_def loop_call_def plain_def)
  then have "Loop_round (\<lambda>_. al) ?call (\<lambda>_. [(POLLIN, pt)]) t lo = Inr (lo\<lparr>lo_poll := ps, lo_user := u, lo_timer := Some q'\<rparr>)"
    by (simp add: Loop_round_def ps(1))
  moreover have "m_timer_fd q' = timer_fd \<longrightarrow> loop_intact pw wakeup_fd pt timer_fd (lo\<lparr>lo_poll := ps, lo_user := u, lo_timer := Some q'\<rparr>)"
    using loop_intact_polled [OF assms(1) ps(3,2)] assms(3) by (auto simp: loop_intact_def)
  ultimately show ?thesis using same_but_revents_watched [OF ps(3)] ps(2,5) by blast
qed

lemma idle_round: "Loop_round alive call (\<lambda>_. []) t lo = Inr lo"
  by (simp add: Loop_round_def EpollPoller_Poll_def)

text \<open>
  When the timerfd is readable, one round of the loop fires exactly the timers that are due, in the
  order of their times, each as often as it is due, and leaves loop, poller and timer queue in
  order with the timerfd armed for the next timer.
\<close>

theorem timer_round:
  assumes "loop_intact pw wakeup_fd pt timer_fd lo" and "0 \<le> timer_fd" and "lo_timer lo = Some q"
    and "timers_inv {} q" and "times_ok now q" and "0 \<le> now'" and "now' < 2 ^ 63"
    and "0 < m_events_size (lo_poll lo)"
  shows "\<exists>L q' lo'. Loop_round (\<lambda>_. al) (loop_call (passive_cb f) now now' user_call) (\<lambda>_. [(POLLIN, pt)]) t lo = Inr lo'
    \<and> sorted L \<and> distinct L \<and> set L = firings now q \<and> lo_user lo' = fold (run_cb f q) L (lo_user lo)
    \<and> lo_timer lo' = Some q' \<and> m_timers q' = (\<lambda>tid. Option.bind (m_timers q tid) (advance now))
    \<and> timers_inv {} q' \<and> armed_for now' q' \<and> poller_inv (lo_poll lo') \<and> watched (lo_poll lo') = watched (lo_poll lo)"
proof -
  have inv: "m_timer_fd q = timer_fd"
    using assms(1-3) by (auto simp: loop_intact_def)
  with HandleRead_passive [OF assms(4,5) _ assms(6,7), of f "lo_user lo"] assms(2) obtain L q' where L:
    "TimerQueue_HandleRead (passive_cb f) now now' (lo_user lo) q = Some (Inr (fold (run_cb f q) L (lo_user lo), q'))"
    "sorted L" "distinct L" "set L = firings now q" "m_timers q' = (\<lambda>tid. Option.bind (m_timers q tid) (advance now))"
    "timers_inv {} q'" "armed_for now' q'" by auto
  from timer_event_round [OF assms(1-3) L(1) assms(8), of al user_call t] obtain ps where
    "Loop_round (\<lambda>_. al) (loop_call (passive_cb f) now now' user_call) (\<lambda>_. [(POLLIN, pt)]) t lo =
       Inr (lo\<lparr>lo_poll := ps, lo_user := fold (run_cb f q) L (lo_user lo), lo_timer := Some q'\<rparr>)"
    "poller_inv ps" "watched ps = watched (lo_poll lo)" by blast
  then show ?thesis
    using L by (intro exI [of _ L] exI [of _ q'] exI [of _ "lo\<lparr>lo_poll := ps, lo_user := fold (run_cb f q) L (lo_user lo),
        lo_timer := Some q'\<rparr>"]) simp
qed

text \<open>
  C32. The list of active channels holds bare pointers. If the read callback of one of them has the channel
  of a later one disabled, removed and destroyed, in the order the channel's documentation asks
  for, no assertion fails, and the loop goes on to use the destroyed channel.
\<close>

theorem destroyed_active_channel:
  assumes "poller_inv (lo_poll lo)" and "reading p fd (CbOf x) (lo_poll lo)" and "reading p' fd' cb' (lo_poll lo)"
    and "p \<noteq> p'" and "2 \<le> m_events_size (lo_poll lo)"
    and "\<And>t lo. user_call t x lo = rmap (\<lambda>ps. lo\<lparr>lo_poll := ps\<rparr>) (retire_channel p' (lo_poll lo))"
  shows "Loop_round alive (loop_call timer_call now now' user_call) (\<lambda>_. [(POLLIN, p), (ev', p')]) t lo = Inl UseAfterFree"
proof -
  let ?call = "loop_call timer_call now now' user_call"
  have "wait_ok (lo_poll lo) (\<lambda>_. [(POLLIN, p), (ev', p')])"
    using reading_held(3) [OF assms(1,2)] reading_held(3) [OF assms(1,3)] assms(4,5) by (auto simp: wait_ok_def)
  from Poll_marks [OF assms(1) this] assms(2,3) obtain ps c d where ps:
    "EpollPoller_Poll (\<lambda>_. [(POLLIN, p), (ev', p')]) (lo_poll lo) = Inr ([p, p'], ps)" "poller_inv ps"
    "chan_heap ps p = Some (c\<lparr>ch_revents := POLLIN\<rparr>)" "chan_heap ps p' = Some (d\<lparr>ch_revents := ev'\<rparr>)"
    and c: "ch_read_callback c = Some (CbOf x)" "plain c"
    and d: "ch_fd d = fd'" "ch_events d = kReadEvent" "ch_index d = kAdded" "ch_read_callback d = Some cb'" "plain d"
    by (auto simp: reading_def)
  have "reading p' fd' cb' ps" using ps(4) d by (simp add: reading_def plain_def)
  from retire_channel_ok [OF ps(2) reading_held(1) [OF ps(2) this]] obtain ps1 where ps1:
    "retire_channel p' ps = Inr ps1" "chan_heap ps1 = (chan_heap ps)(p' := None)" by blast
  have ev: "closes POLLIN = False" "fails POLLIN = False" "reads POLLIN" "writes POLLIN = False"
    by (simp_all add: closes_def fails_def reads_def writes_def has_event_def poll_bits)
  have "HandleEvent alive (\<lambda>lo. chan_heap (lo_poll lo) p) ?call t (lo\<lparr>lo_poll := ps\<rparr>) = Inr (lo\<lparr>lo_poll := ps1\<rparr>)"
    using ps(3) ps1 c ev assms(4,6)
    by (simp add: HandleEvent_def HandleEventWithGuard_def dispatch_def loop_call_def plain_def)
  moreover have "HandleEvent alive (\<lambda>lo. chan_heap (lo_poll lo) p') ?call t (lo\<lparr>lo_poll := ps1\<rparr>) = Inl UseAfterFree"
    using ps1(2) by (simp add: HandleEvent_def)
  ultimately show ?thesis by (simp add: Loop_round_def ps(1))
qed

section \<open>A concrete loop\<close>

definition sample_chan :: "int \<Rightarrow> 'cb \<Rightarrow> 'cb channel" where
  "sample_chan fd cb = \<lparr>ch_fd = fd, ch_events = kReadEvent, ch_revents = 0, ch_index = kAdded, ch_tied = False,
     ch_tie = None, ch_read_callback = Some cb, ch_write_callback = None, ch_close_callback = None,
     ch_error_callback = None\<rparr>"

text \<open>The two channels of the loop, a third one of a user, and two timers.\<close>

definition sample_loop :: "(nat, nat, nat list) loop_obj" where
  "sample_loop = \<lparr>lo_wakeup_fd = 3, lo_wakeup_chan = Some 1, lo_timer = Some sample_timers, lo_timer_chan = Some 2,
     lo_poll = \<lparr>chan_heap = [1 \<mapsto> sample_chan 3 CbWakeup, 2 \<mapsto> sample_chan 5 CbTimer, 4 \<mapsto> sample_chan 7 (CbOf 0)],
       m_channels = [3 \<mapsto> 1, 5 \<mapsto> 2, 7 \<mapsto> 4], m_events_size = 16,
       ctl_calls = [(EPOLL_CTL_ADD, 3, kReadEvent, 1), (EPOLL_CTL_ADD, 5, kReadEvent, 2), (EPOLL_CTL_ADD, 7, kReadEvent, 4)]\<rparr>,
     lo_eventfd = 1, lo_closed = [], lo_user = []\<rparr>"

lemma sample_loop_intact: "loop_intact 1 3 2 5 sample_loop"
proof -
  have w: "watched (lo_poll sample_loop) = [3 \<mapsto> (kReadEvent, 1), 5 \<mapsto> (kReadEvent, 2), 7 \<mapsto> (kReadEvent, 4)]"
    by (auto simp: watched_def sample_loop_def sample_chan_def fun_eq_iff)
  have "interest_of (ctl_calls (lo_poll sample_loop)) = Some (watched (lo_poll sample_loop))"
    unfolding w by (simp add: sample_loop_def interest_of_def)
  moreover have "kReadEvent \<noteq> kNoneEvent" by (simp add: kReadEvent_def kNoneEvent_def poll_bits)
  ultimately have "poller_inv (lo_poll sample_loop)"
    by (simp add: poller_inv_def) (auto simp: sample_loop_def sample_chan_def channel_ok_def split: if_splits)
  then show ?thesis
    by (simp add: loop_intact_def reading_def plain_def sample_loop_def sample_chan_def sample_timers_def)
qed

lemma sample_poller_inv: "poller_inv (lo_poll sample_loop)"
  using sample_loop_intact by (simp add: loop_intact_def)

theorem Loop_round_dispatch_witness:
  "\<exists>ps. Loop_round (\<lambda>_ _. True) (loop_call (passive_cb log_cb) 0 0 (\<lambda>t cb lo. Inr (lo\<lparr>lo_user := lo_user lo @ [cb]\<rparr>)))
      (\<lambda>_. [(POLLIN, 4), (POLLIN, 1)]) 9 sample_loop = Inr (sample_loop\<lparr>lo_poll := ps, lo_user := [0], lo_eventfd := 0\<rparr>)"
proof -
  let ?call = "loop_call (passive_cb log_cb) 0 0 (\<lambda>t cb (lo :: (nat, nat, nat list) loop_obj). Inr (lo\<lparr>lo_user := lo_user lo @ [cb]\<rparr>))"
  have "wait_ok (lo_poll sample_loop) (\<lambda>_. [(POLLIN, 4), (POLLIN, 1)])"
    by (auto simp: wait_ok_def watched_def sample_loop_def sample_chan_def intro: exI [of _ 7] exI [of _ 3])
  moreover have "keeps_channels ?call"
    by (auto simp: keeps_channels_def loop_call_def rmap_eq_Inr_iff same_target_def split: loop_cb.splits option.splits)
  ultimately obtain ps where "Loop_round (\<lambda>_ _. True) ?call (\<lambda>_. [(POLLIN, 4), (POLLIN, 1)]) 9 sample_loop =
      run_plan ?call (concat (map (ready_plan (\<lambda>_. True) 9 (lo_poll sample_loop)) [(POLLIN, 4), (POLLIN, 1)]))
        (sample_loop\<lparr>lo_poll := ps\<rparr>)"
    using Loop_round_dispatch [OF sample_poller_inv, of "\<lambda>_. [(POLLIN, 4), (POLLIN, 1)]" ?call "\<lambda>_. True" 9] by blast
  moreover have "concat (map (ready_plan (\<lambda>_. True) 9 (lo_poll sample_loop)) [(POLLIN, 4), (POLLIN, 1)]) =
      [(Some 9, CbOf 0), (Some 9, CbWakeup)]"
    by (simp add: ready_plan_def channel_plan_def dispatch_plan_def sample_loop_def sample_chan_def
        closes_def fails_def reads_def writes_def has_event_def poll_bits)
  ultimately show ?thesis by (auto simp: loop_call_def sample_loop_def)
qed

theorem timer_round_witness:
  "\<exists>lo' q'. Loop_round (\<lambda>_ _. True) (loop_call (passive_cb log_cb) (26 * ns_per_ms) (26 * ns_per_ms) (\<lambda>t cb. Inr))
      (\<lambda>_. [(POLLIN, 2)]) 9 sample_loop = Inr lo' \<and> lo_timer lo' = Some q' \<and> m_timers q' 2 = None"
proof -
  have "times_ok (26 * ns_per_ms) sample_timers" by (rule sample_times_ok) simp_all
  moreover have "lo_timer sample_loop = Some sample_timers" "0 < m_events_size (lo_poll sample_loop)"
    by (simp_all add: sample_loop_def)
  moreover have "m_timers sample_timers 2 \<noteq> None" "Option.bind (m_timers sample_timers 2) (advance (26 * ns_per_ms)) = None"
    by (simp_all add: sample_timers_def advance_def)
  ultimately show ?thesis
    using timer_round [OF sample_loop_intact _ _ sample_timers_inv, of "26 * ns_per_ms" "26 * ns_per_ms" "\<lambda>_. True"
        log_cb "\<lambda>t cb. Inr" 9] by fastforce
qed

theorem destroyed_active_channel_witness:
  "Loop_round (\<lambda>_ _. True) (loop_call (passive_cb log_cb) 0 0 (\<lambda>t cb lo. rmap (\<lambda>ps. lo\<lparr>lo_poll := ps\<rparr>) (retire_channel 1 (lo_poll lo))))
      (\<lambda>_. [(POLLIN, 4), (POLLIN, 1)]) 9 sample_loop = Inl UseAfterFree"
  by (rule destroyed_active_channel [OF sample_poller_inv, where fd = 7 and fd' = 3 and x = 0 and cb' = CbWakeup])
    (simp_all add: sample_loop_def sample_chan_def reading_def plain_def)

end
