(* ===== verification/Inet_Address.thy ===== *)
theory Inet_Address
  imports Byte_Order Net_Time
begin

text \<open>
  \<open>net/transport/inet_address.{h,cpp}\<close>: a socket address as the 128 bytes of a
  \<open>sockaddr_storage\<close> and the length in use. The members of \<open>sockaddr_in\<close> and \<open>sockaddr_in6\<close> are read
  and written at their offsets: the family at 0 in the byte order of the host, the port at 2 in
  network byte order, the IPv4 address at 4 and the IPv6 address at 8. \<open>inet_pton\<close> and \<open>inet_ntop\<close>
  are parameters.
\<close>

section \<open>Layout\<close>

type_synonym sa_family = "16 word"

definition AF_INET :: sa_family where "AF_INET = 2"
definition AF_INET6 :: sa_family where "AF_INET6 = 10"

definition sizeof_sockaddr_in :: nat where "sizeof_sockaddr_in = 16"
definition sizeof_sockaddr_in6 :: nat where "sizeof_sockaddr_in6 = 28"
definition sizeof_sockaddr_storage :: nat where "sizeof_sockaddr_storage = 128"

lemmas sockaddr_sizes = sizeof_sockaddr_in_def sizeof_sockaddr_in6_def sizeof_sockaddr_storage_def

record inet_address =
  ia_addr :: "byte list"
  ia_len :: nat

text \<open>Reading and writing a member at an offset of the storage.\<close>

definition peek :: "nat \<Rightarrow> nat \<Rightarrow> byte list \<Rightarrow> byte list" where
  "peek off n d = take n (drop off d)"

definition poke :: "nat \<Rightarrow> byte list \<Rightarrow> byte list \<Rightarrow> byte list" where
  "poke off bs d = take off d @ bs @ drop (off + length bs) d"

definition set_bytes :: "nat \<Rightarrow> byte list \<Rightarrow> inet_address \<Rightarrow> inet_address" where
  "set_bytes off bs a = a\<lparr>ia_addr := poke off bs (ia_addr a)\<rparr>"

definition htons_bytes :: "endian \<Rightarrow> 16 word \<Rightarrow> byte list" where
  "htons_bytes e port = obj_bytes e (ToNetwork e port)"

section \<open>Construction\<close>

definition ResetToAny :: "endian \<Rightarrow> sa_family \<Rightarrow> inet_address" where
  "ResetToAny e family =
     (let zero = replicate sizeof_sockaddr_storage 0;
          d = poke 0 (obj_bytes e family) zero
      in if family = AF_INET then \<lparr>ia_addr = poke 4 [0, 0, 0, 0] d, ia_len = sizeof_sockaddr_in\<rparr>
         else if family = AF_INET6 then \<lparr>ia_addr = poke 8 (replicate 16 0) d, ia_len = sizeof_sockaddr_in6\<rparr>
         else \<lparr>ia_addr = d, ia_len = sizeof_sockaddr_storage\<rparr>)"

definition InetAddress_default :: "endian \<Rightarrow> inet_address" where
  "InetAddress_default e = ResetToAny e AF_INET"

definition INADDR_LOOPBACK :: "32 word" where "INADDR_LOOPBACK = 0x7f000001"
definition in6addr_loopback :: "byte list" where "in6addr_loopback = replicate 15 0 @ [1]"

definition InetAddress_port :: "endian \<Rightarrow> 16 word \<Rightarrow> bool \<Rightarrow> sa_family \<Rightarrow> inet_address" where
  "InetAddress_port e port loopback_only family =
     (let a = ResetToAny e family in
      if family = AF_INET
      then (let a1 = set_bytes 2 (htons_bytes e port) a
            in if loopback_only then set_bytes 4 (obj_bytes e (ToNetwork e INADDR_LOOPBACK)) a1 else a1)
      else if family = AF_INET6
      then (let a1 = set_bytes 2 (htons_bytes e port) a
            in if loopback_only then set_bytes 8 in6addr_loopback a1 else a1)
      else a)"

text \<open>\<open>inet_pton\<close> gives the address bytes in network order, or fails.\<close>

definition InetAddress_ip ::
  "endian \<Rightarrow> (sa_family \<Rightarrow> string \<Rightarrow> byte list option) \<Rightarrow> string \<Rightarrow> 16 word \<Rightarrow> sa_family \<Rightarrow> inet_address" where
  "InetAddress_ip e inet_pton ip port family =
     (let a = ResetToAny e family in
      if family = AF_INET
      then (case inet_pton AF_INET ip of
              None \<Rightarrow> ResetToAny e AF_INET
            | Some bs \<Rightarrow> set_bytes 2 (htons_bytes e port) (set_bytes 4 bs a))
      else if family = AF_INET6
      then (case inet_pton AF_INET6 ip of
              None \<Rightarrow> ResetToAny e AF_INET6
            | Some bs \<Rightarrow> set_bytes 2 (htons_bytes e port) (set_bytes 8 bs a))
      else a)"

definition empty_addr :: "nat \<Rightarrow> inet_address" where
  "empty_addr len = \<lparr>ia_addr = replicate sizeof_sockaddr_storage 0, ia_len = len\<rparr>"

definition InetAddress_in :: "byte list \<Rightarrow> inet_address" where
  "InetAddress_in addr = set_bytes 0 addr (empty_addr sizeof_sockaddr_in)"

definition InetAddress_in6 :: "byte list \<Rightarrow> inet_address" where
  "InetAddress_in6 addr = set_bytes 0 addr (empty_addr sizeof_sockaddr_in6)"

definition ss_family :: "endian \<Rightarrow> byte list \<Rightarrow> sa_family" where
  "ss_family e d = obj_value e (peek 0 2 d)"

definition InetAddress_storage :: "endian \<Rightarrow> byte list \<Rightarrow> inet_address" where
  "InetAddress_storage e addr =
     (let a = set_bytes 0 addr (empty_addr sizeof_sockaddr_storage)
      in if ss_family e addr = AF_INET then a\<lparr>ia_len := sizeof_sockaddr_in\<rparr>
         else if ss_family e addr = AF_INET6 then a\<lparr>ia_len := sizeof_sockaddr_in6\<rparr>
         else a)"

text \<open>From a pointer and a length; \<open>memcpy\<close> reads \<open>len\<close> bytes of what is there.\<close>

definition InetAddress_sockaddr :: "endian \<Rightarrow> byte list option \<Rightarrow> nat \<Rightarrow> inet_address res" where
  "InetAddress_sockaddr e addr len =
     (case addr of
        None \<Rightarrow> Inr (ResetToAny e AF_INET)
      | Some mem \<Rightarrow>
          (let len = (if len > sizeof_sockaddr_storage then sizeof_sockaddr_storage else len) in
           rbind (mem_read mem 0 len) (\<lambda>bs.
             let a = (set_bytes 0 bs (empty_addr sizeof_sockaddr_in))\<lparr>ia_len := len\<rparr>
             in if ss_family e (ia_addr a) \<noteq> AF_INET \<and> ss_family e (ia_addr a) \<noteq> AF_INET6
                then Inr (ResetToAny e AF_INET) else Inr a)))"

section \<open>Queries\<close>

definition Family :: "endian \<Rightarrow> inet_address \<Rightarrow> sa_family" where
  "Family e a = ss_family e (ia_addr a)"

definition ToIp :: "endian \<Rightarrow> (sa_family \<Rightarrow> byte list \<Rightarrow> string) \<Rightarrow> inet_address \<Rightarrow> string" where
  "ToIp e inet_ntop a =
     (if Family e a = AF_INET then inet_ntop AF_INET (peek 4 4 (ia_addr a))
      else if Family e a = AF_INET6 then inet_ntop AF_INET6 (peek 8 16 (ia_addr a))
      else '''')"

definition Port :: "endian \<Rightarrow> inet_address \<Rightarrow> 16 word" where
  "Port e a =
     (if Family e a = AF_INET then FromNetwork e (obj_value e (peek 2 2 (ia_addr a)))
      else if Family e a = AF_INET6 then FromNetwork e (obj_value e (peek 2 2 (ia_addr a)))
      else 0)"

definition ToIpPort :: "endian \<Rightarrow> (sa_family \<Rightarrow> byte list \<Rightarrow> string) \<Rightarrow> inet_address \<Rightarrow> string" where
  "ToIpPort e inet_ntop a =
     (if Family e a = AF_INET6 then ''['' @ ToIp e inet_ntop a @ '']:'' @ nat_digits (unat (Port e a))
      else ToIp e inet_ntop a @ '':'' @ nat_digits (unat (Port e a)))"

section \<open>Comparison\<close>

text \<open>\<open>memcmp\<close>: the sign of the first difference of unsigned bytes.\<close>

fun memcmp :: "byte list \<Rightarrow> byte list \<Rightarrow> int" where
  "memcmp (x # xs) (y # ys) = (if x = y then memcmp xs ys else if x < y then -1 else 1)"
| "memcmp _ _ = 0"

definition InetAddress_eq :: "inet_address \<Rightarrow> inet_address \<Rightarrow> bool" where
  "InetAddress_eq a b \<longleftrightarrow> ia_len a = ia_len b
     \<and> memcmp (take (ia_len a) (ia_addr a)) (take (ia_len a) (ia_addr b)) = 0"

definition InetAddress_less :: "endian \<Rightarrow> inet_address \<Rightarrow> inet_address \<Rightarrow> bool" where
  "InetAddress_less e a b =
     (if Family e a \<noteq> Family e b then Family e a < Family e b
      else (let n = (if ia_len a < ia_len b then ia_len a else ia_len b)
            in memcmp (take n (ia_addr a)) (take n (ia_addr b)) < 0))"

definition InetAddress_neq :: "inet_address \<Rightarrow> inet_address \<Rightarrow> bool" where
  "InetAddress_neq a b = (\<not> InetAddress_eq a b)"

section \<open>Facts\<close>

lemma memcmp_0: "length xs = length ys \<Longrightarrow> memcmp xs ys = 0 \<longleftrightarrow> xs = ys"
  by (induction xs ys rule: memcmp.induct) auto

lemma memcmp_swap: "length xs = length ys \<Longrightarrow> memcmp ys xs = - memcmp xs ys"
  by (induction xs ys rule: memcmp.induct) auto

lemma memcmp_trans:
  "length xs = length ys \<Longrightarrow> length ys = length zs \<Longrightarrow> memcmp xs ys < 0 \<Longrightarrow> memcmp ys zs < 0 \<Longrightarrow> memcmp xs zs < 0"
proof (induction xs ys arbitrary: zs rule: memcmp.induct)
  case (1 x xs y ys)
  then show ?case by (cases zs) (auto split: if_splits)
qed auto

lemma length_poke [simp]: "off + length bs \<le> length d \<Longrightarrow> length (poke off bs d) = length d"
  by (simp add: poke_def)

lemma peek_poke_same [simp]: "off + length bs \<le> length d \<Longrightarrow> n = length bs \<Longrightarrow> peek off n (poke off bs d) = bs"
  by (simp add: peek_def poke_def)

lemma peek_poke_before [simp]: "i + n \<le> off \<Longrightarrow> off \<le> length d \<Longrightarrow> peek i n (poke off bs d) = peek i n d"
  by (simp add: peek_def poke_def take_drop)

lemma peek_poke_after [simp]:
  assumes "off + length bs \<le> i" and "off + length bs \<le> length d"
  shows "peek i n (poke off bs d) = peek i n d"
proof -
  have "drop i (poke off bs d) = drop (i - (off + length bs)) (drop (off + length bs) d)"
    using assms by (simp add: poke_def)
  then show ?thesis using assms(1) by (simp add: peek_def)
qed

lemma ss_family_poke: "2 \<le> length d \<Longrightarrow> ss_family e (poke 0 (obj_bytes e f) d) = f"
  by (simp add: ss_family_def obj_value_obj_bytes)

lemma port_bytes: "FromNetwork e (obj_value e (htons_bytes e port)) = port"
  by (simp add: htons_bytes_def obj_bytes_ToNetwork FromNetwork_be_bytes)

lemma length_htons [simp]: "length (htons_bytes e port) = 2"
  by (simp add: htons_bytes_def)

lemma htons_zero: "htons_bytes e 0 = [0, 0]"
proof -
  have "htons_bytes e 0 = be_bytes (0 :: 16 word)" by (simp add: htons_bytes_def obj_bytes_ToNetwork)
  then show ?thesis by (simp add: be_bytes_def le_bytes_numeral)
qed

text \<open>An address in order: the family says how long it is.\<close>

definition addr_ok :: "endian \<Rightarrow> inet_address \<Rightarrow> bool" where
  "addr_ok e a \<longleftrightarrow> length (ia_addr a) = 128 \<and>
     (Family e a = AF_INET \<and> ia_len a = 16 \<or> Family e a = AF_INET6 \<and> ia_len a = 28)"

lemma af_distinct [simp]: "AF_INET \<noteq> AF_INET6" "AF_INET6 \<noteq> AF_INET"
  by (simp_all add: AF_INET_def AF_INET6_def)

lemma ss_family_later:
  "2 \<le> off \<Longrightarrow> off \<le> length d \<Longrightarrow> ss_family e (poke off bs d) = ss_family e d"
  by (simp add: ss_family_def)

lemma ResetToAny_facts:
  "length (ia_addr (ResetToAny e f)) = 128" "ss_family e (ia_addr (ResetToAny e f)) = f"
  "ia_len (ResetToAny e AF_INET) = 16" "ia_len (ResetToAny e AF_INET6) = 28"
  by (simp_all add: ResetToAny_def Let_def sockaddr_sizes ss_family_later ss_family_poke)

lemma addr_ok_eq:
  assumes "addr_ok e a" and "addr_ok e b" and "Family e a = Family e b"
  shows "ia_len a = ia_len b" and "ia_len a \<le> 128" and "length (ia_addr a) = 128" and "length (ia_addr b) = 128"
  using assms by (auto simp: addr_ok_def)

lemma set_bytes_ok:
  "addr_ok e a \<Longrightarrow> 2 \<le> off \<Longrightarrow> off + length bs \<le> 128 \<Longrightarrow> addr_ok e (set_bytes off bs a)"
  by (simp add: addr_ok_def set_bytes_def Family_def ss_family_later)

lemma ResetToAny_ok: "family = AF_INET \<or> family = AF_INET6 \<Longrightarrow> addr_ok e (ResetToAny e family)"
  by (auto simp: addr_ok_def Family_def ResetToAny_facts)

lemma empty_addr_facts: "length (ia_addr (empty_addr n)) = 128" "ia_len (empty_addr n) = n"
  by (simp_all add: empty_addr_def sockaddr_sizes)

lemma copied_family:
  assumes "2 \<le> length bs" and "length bs \<le> 128"
  shows "ss_family e (ia_addr (set_bytes 0 bs (empty_addr n))) = ss_family e bs"
  using assms by (simp add: ss_family_def set_bytes_def peek_def poke_def)

lemma copied_length: "length bs \<le> 128 \<Longrightarrow> length (ia_addr (set_bytes 0 bs (empty_addr n))) = 128"
  by (simp add: set_bytes_def empty_addr_facts)

lemma sockaddr_copy:
  assumes "ss_family e mem = AF_INET \<or> ss_family e mem = AF_INET6" and "2 \<le> length mem" and "length mem \<le> 128"
  shows "InetAddress_sockaddr e (Some mem) (length mem) =
    Inr ((set_bytes 0 mem (empty_addr sizeof_sockaddr_in))\<lparr>ia_len := length mem\<rparr>)"
  using assms copied_family [OF assms(2,3), of e]
  by (auto simp: InetAddress_sockaddr_def Let_def sizeof_sockaddr_storage_def)

section \<open>Properties\<close>

text \<open>
  C33. An address made from a text and a port, of a family the library supports, prints as that text and
  that port, with brackets around an IPv6 address, on hosts of either byte order, provided
  \<open>inet_pton\<close> accepts the text and \<open>inet_ntop\<close> gives it back; its port, family and length are the
  right ones. If \<open>inet_pton\<close> rejects the text, the address is the wildcard address and the port
  is 0 as well.
\<close>

theorem InetAddress_text_roundtrip:
  assumes "family = AF_INET \<and> length bs = 4 \<or> family = AF_INET6 \<and> length bs = 16"
    and "inet_pton family ip = Some bs" and "inet_ntop family bs = ip" and "inet_pton family bad = None"
  shows "addr_ok e (InetAddress_ip e inet_pton ip port family)
    \<and> Family e (InetAddress_ip e inet_pton ip port family) = family
    \<and> Port e (InetAddress_ip e inet_pton ip port family) = port
    \<and> ToIpPort e inet_ntop (InetAddress_ip e inet_pton ip port family) =
        (if family = AF_INET6 then ''['' @ ip @ '']:'' else ip @ '':'') @ nat_digits (unat port)
    \<and> InetAddress_ip e inet_pton bad port family = ResetToAny e family
    \<and> Port e (ResetToAny e family) = 0"
proof -
  let ?a = "InetAddress_ip e inet_pton ip port family"
  let ?r = "ResetToAny e family"
  define off :: nat where "off = (if family = AF_INET then 4 else 8)"
  have a: "?a = set_bytes 2 (htons_bytes e port) (set_bytes off bs ?r)"
    using assms(1,2) by (auto simp: InetAddress_ip_def Let_def off_def)
  have off: "off = 4 \<or> off = 8" "off + length bs \<le> 128" using assms(1) by (auto simp: off_def)
  have fam: "Family e ?a = family"
    using off by (auto simp: a Family_def set_bytes_def ss_family_later ResetToAny_facts)
  have len: "length (ia_addr ?a) = 128" "ia_len ?a = ia_len ?r"
    using off by (auto simp: a set_bytes_def ResetToAny_facts)
  have "peek 2 2 (ia_addr ?a) = htons_bytes e port"
    using off by (auto simp: a set_bytes_def ResetToAny_facts)
  then have port: "Port e ?a = port" using assms(1) fam by (auto simp: Port_def port_bytes)
  have "peek off (length bs) (ia_addr ?a) = bs"
    using off by (auto simp: a set_bytes_def ResetToAny_facts)
  then have "ToIp e inet_ntop ?a = ip" using assms(1,3) fam by (auto simp: ToIp_def off_def)
  moreover have "peek 2 2 (ia_addr ?r) = [0, 0]"
    using assms(1) by (auto simp: ResetToAny_def Let_def sockaddr_sizes peek_poke_after peek_poke_before)
      (simp_all add: peek_def numeral_2_eq_2)
  then have "Port e ?r = 0"
    using port_bytes [of e 0] htons_zero [of e] by (auto simp: Port_def)
  moreover have "InetAddress_ip e inet_pton bad port family = ?r"
    using assms(1,4) by (auto simp: InetAddress_ip_def Let_def)
  moreover have "addr_ok e ?a" using assms(1) fam len by (auto simp: addr_ok_def ResetToAny_facts)
  ultimately show ?thesis using fam port by (cases "family = AF_INET6") (auto simp: ToIpPort_def)
qed

definition sample_pton :: "sa_family \<Rightarrow> string \<Rightarrow> byte list option" where
  "sample_pton f s = (if s = ''10.0.0.1'' then Some [10, 0, 0, 1] else None)"

theorem InetAddress_text_roundtrip_witness:
  "ToIpPort Little (\<lambda>f bs. if bs = [10, 0, 0, 1] then ''10.0.0.1'' else '''')
     (InetAddress_ip Little sample_pton ''10.0.0.1'' 8080 AF_INET) = ''10.0.0.1'' @ '':'' @ nat_digits 8080"
  using InetAddress_text_roundtrip [of AF_INET "[10, 0, 0, 1]" sample_pton "''10.0.0.1''"
      "\<lambda>f bs. if bs = [10, 0, 0, 1] then ''10.0.0.1'' else ''''" "''x''" Little 8080]
  by (simp add: sample_pton_def)

text \<open>
  Addresses whose length fits their family, as all constructors from ports, texts and socket
  structures make them, can serve as keys: \<open>==\<close> is an equivalence, \<open><\<close> is a strict order, and two
  addresses are equal exactly if neither is less than the other. Without that condition this
  fails: of two addresses of one family with different lengths that agree up to the
  shorter one, neither is less, and they are not equal.
\<close>

theorem InetAddress_order:
  assumes "addr_ok e a" and "addr_ok e b" and "addr_ok e c"
  shows "(InetAddress_eq a b \<longleftrightarrow> \<not> InetAddress_less e a b \<and> \<not> InetAddress_less e b a)
    \<and> InetAddress_eq a a \<and> (InetAddress_eq a b \<longrightarrow> InetAddress_eq b a)
    \<and> (InetAddress_eq a b \<and> InetAddress_eq b c \<longrightarrow> InetAddress_eq a c)
    \<and> (InetAddress_less e a b \<and> InetAddress_less e b c \<longrightarrow> InetAddress_less e a c)
    \<and> (\<not> InetAddress_less e (a\<lparr>ia_len := 8\<rparr>) a \<and> \<not> InetAddress_less e a (a\<lparr>ia_len := 8\<rparr>)
         \<and> \<not> InetAddress_eq (a\<lparr>ia_len := 8\<rparr>) a)"
proof -
  have len: "length (ia_addr x) = 128" "ia_len x \<le> 128" if "addr_ok e x" for x
    using that by (auto simp: addr_ok_def)
  have lenfam: "ia_len x = ia_len y \<longleftrightarrow> Family e x = Family e y" if "addr_ok e x" "addr_ok e y" for x y
    using that by (auto simp: addr_ok_def)
  have eq: "InetAddress_eq x y \<longleftrightarrow> Family e x = Family e y \<and> take (ia_len x) (ia_addr x) = take (ia_len x) (ia_addr y)"
    if "addr_ok e x" "addr_ok e y" for x y
    using lenfam [OF that] len [OF that(1)] len [OF that(2)] by (auto simp: InetAddress_eq_def memcmp_0)
  have less: "InetAddress_less e x y \<longleftrightarrow> Family e x < Family e y \<or>
      Family e x = Family e y \<and> memcmp (take (ia_len x) (ia_addr x)) (take (ia_len x) (ia_addr y)) < 0"
    if "addr_ok e x" "addr_ok e y" for x y
    using lenfam [OF that] by (auto simp: InetAddress_less_def Let_def)
  have same: "length (take n (ia_addr x)) = length (take n (ia_addr y))" if "addr_ok e x" "addr_ok e y" for x y n
    using len [OF that(1)] len [OF that(2)] by simp
  note swap = memcmp_swap [OF same] and zero = memcmp_0 [OF same]
  have "InetAddress_eq a b \<longleftrightarrow> \<not> InetAddress_less e a b \<and> \<not> InetAddress_less e b a"
  proof (cases "Family e a = Family e b")
    case True
    define m where "m = memcmp (take (ia_len a) (ia_addr a)) (take (ia_len a) (ia_addr b))"
    have "memcmp (take (ia_len a) (ia_addr b)) (take (ia_len a) (ia_addr a)) = - m"
      unfolding m_def by (rule swap [OF assms(1,2)])
    moreover have "m = 0 \<longleftrightarrow> take (ia_len a) (ia_addr a) = take (ia_len a) (ia_addr b)"
      unfolding m_def by (rule zero [OF assms(1,2)])
    moreover have "ia_len b = ia_len a" using lenfam [OF assms(1,2)] True by simp
    ultimately show ?thesis
      using True unfolding eq [OF assms(1,2)] less [OF assms(1,2)] less [OF assms(2,1)] m_def [symmetric] by auto
  qed (auto simp: eq [OF assms(1,2)] less [OF assms(1,2)] less [OF assms(2,1)])
  moreover have "InetAddress_less e a b \<and> InetAddress_less e b c \<longrightarrow> InetAddress_less e a c"
    unfolding less [OF assms(1,2)] less [OF assms(2,3)] less [OF assms(1,3)]
    using memcmp_trans [of "take (ia_len a) (ia_addr a)" "take (ia_len a) (ia_addr b)" "take (ia_len a) (ia_addr c)"]
      len [OF assms(1)] len [OF assms(2)] len [OF assms(3)] lenfam [OF assms(1,2)] by auto
  moreover have "InetAddress_eq a a" "InetAddress_eq a b \<longrightarrow> InetAddress_eq b a"
    "InetAddress_eq a b \<and> InetAddress_eq b c \<longrightarrow> InetAddress_eq a c"
    unfolding eq [OF assms(1,1)] eq [OF assms(1,2)] eq [OF assms(2,1)] eq [OF assms(2,3)] eq [OF assms(1,3)]
    using lenfam [OF assms(1,2)] by auto
  moreover have "\<not> InetAddress_less e (a\<lparr>ia_len := 8\<rparr>) a" "\<not> InetAddress_less e a (a\<lparr>ia_len := 8\<rparr>)"
    "\<not> InetAddress_eq (a\<lparr>ia_len := 8\<rparr>) a"
    using assms(1) zero [OF assms(1,1), of 8] by (auto simp: InetAddress_less_def InetAddress_eq_def addr_ok_def Family_def)
  ultimately show ?thesis by blast
qed

lemma default_addr_ok: "addr_ok e (InetAddress_default e)"
  by (simp add: InetAddress_default_def ResetToAny_ok)

theorem InetAddress_order_witness:
  "InetAddress_eq (InetAddress_default Little) (InetAddress_default Little)
   \<and> \<not> InetAddress_eq ((InetAddress_default Little)\<lparr>ia_len := 8\<rparr>) (InetAddress_default Little)"
  using InetAddress_order [OF default_addr_ok default_addr_ok default_addr_ok, of Little] by blast



end
