(* ===== verification/Socket_Fd.thy ===== *)
theory Socket_Fd
  imports Inet_Address
begin

unbundle bit_operations_syntax

text \<open>
  \<open>net/transport/socket.{h,cpp}\<close>: objects that own a file descriptor. Socket objects live at
  addresses; the kernel side is the set of open descriptors and the sequence of \<open>close\<close> calls. Results
  of system calls that do not create or close a descriptor are arguments.
\<close>

section \<open>State\<close>

type_synonym sock_ptr = nat

record sock_world =
  socks :: "sock_ptr \<rightharpoonup> int"
  open_fds :: "int set"
  close_calls :: "int list"

definition kInvalidFd :: int where "kInvalidFd = - 1"

definition with_socket :: "sock_ptr \<Rightarrow> sock_world \<Rightarrow> (int \<Rightarrow> 'a res) \<Rightarrow> 'a res" where
  "with_socket p w k = (case socks w p of None \<Rightarrow> Inl UseAfterFree | Some fd \<Rightarrow> k fd)"

definition set_fd :: "sock_ptr \<Rightarrow> int \<Rightarrow> sock_world \<Rightarrow> sock_world" where
  "set_fd p fd w = w\<lparr>socks := (socks w)(p \<mapsto> fd)\<rparr>"

text \<open>\<open>close\<close> releases the descriptor; it fails when there is nothing to release.\<close>

definition sys_close :: "int \<Rightarrow> sock_world \<Rightarrow> bool \<times> sock_world" where
  "sys_close fd w = (fd \<in> open_fds w, w\<lparr>open_fds := open_fds w - {fd}, close_calls := close_calls w @ [fd]\<rparr>)"

section \<open>Ownership\<close>

definition Socket_ctor :: "sock_ptr \<Rightarrow> int \<Rightarrow> sock_world \<Rightarrow> sock_world" where
  "Socket_ctor p fd w = set_fd p fd w"

definition Socket_IsValid :: "int \<Rightarrow> bool" where
  "Socket_IsValid fd \<longleftrightarrow> fd \<ge> 0"

definition Socket_move :: "sock_ptr \<Rightarrow> sock_ptr \<Rightarrow> sock_world \<Rightarrow> sock_world res" where
  "Socket_move p other w = with_socket other w (\<lambda>fd. Inr (set_fd other kInvalidFd (set_fd p fd w)))"

definition Socket_Close :: "sock_ptr \<Rightarrow> sock_world \<Rightarrow> (bool \<times> sock_world) res" where
  "Socket_Close p w = with_socket p w (\<lambda>fd.
     if \<not> Socket_IsValid fd then Inr (False, w)
     else case sys_close fd w of (ok, w1) \<Rightarrow> Inr (ok, set_fd p kInvalidFd w1))"

definition Socket_assign :: "sock_ptr \<Rightarrow> sock_ptr \<Rightarrow> sock_world \<Rightarrow> sock_world res" where
  "Socket_assign p other w =
     (if p = other then Inr w
      else rbind (Socket_Close p w) (\<lambda>(_, w). with_socket other w (\<lambda>fd.
             Inr (set_fd other kInvalidFd (set_fd p fd w)))))"

definition Socket_dtor :: "sock_ptr \<Rightarrow> sock_world \<Rightarrow> sock_world res" where
  "Socket_dtor p w = rbind (Socket_Close p w) (\<lambda>(_, w). Inr (w\<lparr>socks := (socks w)(p := None)\<rparr>))"

text \<open>\<open>CreateTcp\<close> and \<open>CreateUdp\<close>: \<open>fd\<close> is what \<open>socket\<close> returned.\<close>

definition Socket_create :: "sock_ptr \<Rightarrow> int \<Rightarrow> sock_world \<Rightarrow> sock_world" where
  "Socket_create p fd w =
     (if fd < 0 then Socket_ctor p kInvalidFd w
      else Socket_ctor p fd (w\<lparr>open_fds := insert fd (open_fds w)\<rparr>))"

definition SOCK_STREAM :: "32 word" where "SOCK_STREAM = 1"
definition SOCK_DGRAM :: "32 word" where "SOCK_DGRAM = 2"
definition SOCK_NONBLOCK :: "32 word" where "SOCK_NONBLOCK = 0x800"
definition SOCK_CLOEXEC :: "32 word" where "SOCK_CLOEXEC = 0x80000"
definition IPPROTO_TCP :: int where "IPPROTO_TCP = 6"
definition IPPROTO_UDP :: int where "IPPROTO_UDP = 17"

type_synonym socket_fun = "16 word \<Rightarrow> 32 word \<Rightarrow> int \<Rightarrow> int"

definition CreateTcp :: "socket_fun \<Rightarrow> 16 word \<Rightarrow> sock_ptr \<Rightarrow> sock_world \<Rightarrow> sock_world" where
  "CreateTcp socket family p w =
     Socket_create p (socket family (SOCK_STREAM OR SOCK_NONBLOCK OR SOCK_CLOEXEC) IPPROTO_TCP) w"

definition CreateUdp :: "socket_fun \<Rightarrow> 16 word \<Rightarrow> sock_ptr \<Rightarrow> sock_world \<Rightarrow> sock_world" where
  "CreateUdp socket family p w =
     Socket_create p (socket family (SOCK_DGRAM OR SOCK_NONBLOCK OR SOCK_CLOEXEC) IPPROTO_UDP) w"

section \<open>System calls on a socket\<close>

text \<open>\<open>Bind\<close>, \<open>Listen\<close> and \<open>ShutdownWrite\<close> have the same shape: refused on an invalid socket,
  otherwise the call's success.\<close>

definition Socket_Bind :: "int \<Rightarrow> bool \<Rightarrow> bool" where
  "Socket_Bind fd ok = (if \<not> Socket_IsValid fd then False else ok)"

definition Socket_Listen :: "int \<Rightarrow> bool \<Rightarrow> bool" where
  "Socket_Listen fd ok = (if \<not> Socket_IsValid fd then False else ok)"

definition Socket_ShutdownWrite :: "int \<Rightarrow> bool \<Rightarrow> bool" where
  "Socket_ShutdownWrite fd ok = (if \<not> Socket_IsValid fd then False else ok)"

definition EINPROGRESS :: nat where "EINPROGRESS = 115"

definition Socket_Connect :: "int \<Rightarrow> nat option \<Rightarrow> bool" where
  "Socket_Connect fd err =
     (if \<not> Socket_IsValid fd then False
      else case err of None \<Rightarrow> True | Some e \<Rightarrow> e = EINPROGRESS)"

text \<open>The options the kernel holds for each descriptor, by level and name; \<open>ok\<close> is whether
  \<open>setsockopt\<close> succeeds.\<close>

datatype sockopt_level = SOL_SOCKET | SOL_TCP
datatype sockopt = SO_REUSEADDR | SO_REUSEPORT | SO_KEEPALIVE | TCP_NODELAY

type_synonym sockopts = "(int \<times> sockopt_level \<times> sockopt) \<rightharpoonup> int"

definition SetSocketOption :: "int \<Rightarrow> sockopt_level \<Rightarrow> sockopt \<Rightarrow> int \<Rightarrow> bool \<Rightarrow> sockopts \<Rightarrow> bool \<times> sockopts" where
  "SetSocketOption fd level optname optval ok opts =
     (if fd < 0 then (False, opts)
      else if \<not> ok then (False, opts)
      else (True, opts((fd, level, optname) \<mapsto> optval)))"

definition SetReuseAddr :: "bool \<Rightarrow> int \<Rightarrow> bool \<Rightarrow> sockopts \<Rightarrow> bool \<times> sockopts" where
  "SetReuseAddr turn_on fd = SetSocketOption fd SOL_SOCKET SO_REUSEADDR (if turn_on then 1 else 0)"

definition SetReusePort :: "bool \<Rightarrow> int \<Rightarrow> bool \<Rightarrow> sockopts \<Rightarrow> bool \<times> sockopts" where
  "SetReusePort turn_on fd = SetSocketOption fd SOL_SOCKET SO_REUSEPORT (if turn_on then 1 else 0)"

definition SetKeepAlive :: "bool \<Rightarrow> int \<Rightarrow> bool \<Rightarrow> sockopts \<Rightarrow> bool \<times> sockopts" where
  "SetKeepAlive turn_on fd = SetSocketOption fd SOL_SOCKET SO_KEEPALIVE (if turn_on then 1 else 0)"

definition SetTcpNoDelay :: "bool \<Rightarrow> int \<Rightarrow> bool \<Rightarrow> sockopts \<Rightarrow> bool \<times> sockopts" where
  "SetTcpNoDelay turn_on fd = SetSocketOption fd SOL_TCP TCP_NODELAY (if turn_on then 1 else 0)"

text \<open>\<open>Accept\<close>: the new descriptor and the peer's address bytes, or an invalid descriptor.\<close>

definition Socket_Accept ::
  "endian \<Rightarrow> int \<Rightarrow> (int \<times> byte list) option \<Rightarrow> (int \<times> inet_address) res" where
  "Socket_Accept e fd accept4 =
     (if \<not> Socket_IsValid fd then Inr (kInvalidFd, InetAddress_default e)
      else case accept4 of
             None \<Rightarrow> Inr (kInvalidFd, InetAddress_default e)
           | Some (conn_fd, peer_addr) \<Rightarrow>
               rmap (\<lambda>a. (conn_fd, a)) (InetAddress_sockaddr e (Some peer_addr) (length peer_addr)))"

definition O_NONBLOCK :: "32 word" where "O_NONBLOCK = 0x800"
definition FD_CLOEXEC :: "32 word" where "FD_CLOEXEC = 1"

text \<open>\<open>SetNonBlocking\<close> and \<open>SetCloseOnExec\<close>: read the flags (\<open>None\<close> when that fails), change one bit, write
  them back; the result and the flags the kernel holds afterwards.\<close>

definition change_flag :: "32 word \<Rightarrow> bool \<Rightarrow> int \<Rightarrow> 32 word option \<Rightarrow> bool \<Rightarrow> bool \<times> 32 word option" where
  "change_flag flag turn_on fd flags set_ok =
     (if \<not> Socket_IsValid fd then (False, flags)
      else case flags of
             None \<Rightarrow> (False, None)
           | Some fl \<Rightarrow> (let fl' = (if turn_on then fl OR flag else fl AND NOT flag)
                        in if set_ok then (True, Some fl') else (False, Some fl)))"

definition SetNonBlocking :: "bool \<Rightarrow> int \<Rightarrow> 32 word option \<Rightarrow> bool \<Rightarrow> bool \<times> 32 word option" where
  "SetNonBlocking turn_on fd flags set_ok = change_flag O_NONBLOCK turn_on fd flags set_ok"

definition SetCloseOnExec :: "bool \<Rightarrow> int \<Rightarrow> 32 word option \<Rightarrow> bool \<Rightarrow> bool \<times> 32 word option" where
  "SetCloseOnExec turn_on fd flags set_ok = change_flag FD_CLOEXEC turn_on fd flags set_ok"

section \<open>Steps\<close>

datatype sock_op =
    SkCreate sock_ptr int
  | SkMove sock_ptr sock_ptr
  | SkAssign sock_ptr sock_ptr
  | SkClose sock_ptr
  | SkDestroy sock_ptr

text \<open>New objects are made at unused addresses; the kernel hands out descriptors that are not in use.\<close>

inductive sock_step :: "sock_world \<Rightarrow> sock_op \<Rightarrow> sock_world \<Rightarrow> bool" where
  sk_create: "socks w p = None \<Longrightarrow> fd < 0 \<or> fd \<notin> open_fds w \<Longrightarrow> sock_step w (SkCreate p fd) (Socket_create p fd w)"
| sk_move: "socks w p = None \<Longrightarrow> Socket_move p other w = Inr w' \<Longrightarrow> sock_step w (SkMove p other) w'"
| sk_assign: "Socket_assign p other w = Inr w' \<Longrightarrow> sock_step w (SkAssign p other) w'"
| sk_close: "Socket_Close p w = Inr (b, w') \<Longrightarrow> sock_step w (SkClose p) w'"
| sk_destroy: "Socket_dtor p w = Inr w' \<Longrightarrow> sock_step w (SkDestroy p) w'"

definition sock_init :: sock_world where
  "sock_init = \<lparr>socks = Map.empty, open_fds = {}, close_calls = []\<rparr>"

definition owned :: "sock_world \<Rightarrow> int set" where
  "owned w = {fd. 0 \<le> fd \<and> (\<exists>p. socks w p = Some fd)}"

definition sock_inv :: "sock_world \<Rightarrow> bool" where
  "sock_inv w \<longleftrightarrow> open_fds w = owned w
     \<and> (\<forall>p q fd. socks w p = Some fd \<and> socks w q = Some fd \<and> 0 \<le> fd \<longrightarrow> p = q)"

lemma socks_set_fd [simp]: "socks (set_fd p x w) = (socks w)(p \<mapsto> x)" "open_fds (set_fd p x w) = open_fds w"
  by (simp_all add: set_fd_def)

lemma sock_inv_unique: "sock_inv w \<Longrightarrow> socks w p = Some fd \<Longrightarrow> socks w q = Some fd \<Longrightarrow> 0 \<le> fd \<Longrightarrow> p = q"
  by (auto simp: sock_inv_def)

lemma sock_inv_open: "sock_inv w \<Longrightarrow> fd \<in> open_fds w \<longleftrightarrow> 0 \<le> fd \<and> (\<exists>p. socks w p = Some fd)"
  by (auto simp: sock_inv_def owned_def)

lemma sock_invI:
  assumes "\<And>fd. fd \<in> open_fds w \<longleftrightarrow> 0 \<le> fd \<and> (\<exists>p. socks w p = Some fd)"
    and "\<And>p q fd. socks w p = Some fd \<Longrightarrow> socks w q = Some fd \<Longrightarrow> 0 \<le> fd \<Longrightarrow> p = q"
  shows "sock_inv w"
  using assms unfolding sock_inv_def owned_def by blast

lemma Close_cases:
  assumes "sock_inv w" and "socks w p = Some fd"
  shows "\<exists>b w'. Socket_Close p w = Inr (b, w') \<and> sock_inv w' \<and> (b \<longleftrightarrow> 0 \<le> fd)
    \<and> open_fds w' = open_fds w - {fd}
    \<and> (\<exists>x < 0. socks w' = (socks w)(p \<mapsto> x))"
proof (cases "0 \<le> fd")
  case False
  then have "fd \<notin> open_fds w" using assms(1) by (auto simp: sock_inv_def owned_def)
  then show ?thesis using False assms
    by (intro exI [of _ False] exI [of _ w])
      (auto simp: Socket_Close_def with_socket_def Socket_IsValid_def fun_upd_idem intro: exI [of _ fd])
next
  case True
  let ?w = "set_fd p kInvalidFd (snd (sys_close fd w))"
  have "fd \<in> open_fds w" using assms True by (auto simp: sock_inv_def owned_def)
  moreover have "sock_inv ?w"
  proof (rule sock_invI)
    fix x show "x \<in> open_fds ?w \<longleftrightarrow> 0 \<le> x \<and> (\<exists>q. socks ?w q = Some x)"
    proof (cases "x = fd")
      case True
      have "\<not> (\<exists>q. q \<noteq> p \<and> socks w q = Some fd)"
        using sock_inv_unique [OF assms(1,2) _ \<open>0 \<le> fd\<close>] by blast
      then show ?thesis using True \<open>0 \<le> fd\<close> by (auto simp: sys_close_def kInvalidFd_def)
    next
      case False
      then have "(\<exists>q. socks ?w q = Some x) \<longleftrightarrow> (\<exists>q. socks w q = Some x)" if "0 \<le> x"
        using that assms(2) by (force simp: sys_close_def kInvalidFd_def)
      moreover have "x \<in> open_fds ?w \<longleftrightarrow> x \<in> open_fds w" using False by (simp add: sys_close_def)
      ultimately show ?thesis using sock_inv_open [OF assms(1), of x] by blast
    qed
  next
    fix q q' x assume "socks ?w q = Some x" "socks ?w q' = Some x" "0 \<le> x"
    then show "q = q'" using sock_inv_unique [OF assms(1), of q x q']
      by (auto simp: sys_close_def kInvalidFd_def split: if_splits)
  qed
  ultimately show ?thesis
    using assms(2) True
    by (intro exI [of _ True] exI [of _ ?w])
      (auto simp: Socket_Close_def with_socket_def Socket_IsValid_def sys_close_def set_fd_def kInvalidFd_def
        intro!: exI [of _ "- 1"])
qed

lemma transfer_inv:
  assumes "sock_inv w" and "socks w q = Some fd" and "p \<noteq> q" and "socks w p = None \<or> (\<exists>x < 0. socks w p = Some x)"
  shows "sock_inv (set_fd q kInvalidFd (set_fd p fd w))"
proof (rule sock_invI)
  fix x show "x \<in> open_fds (set_fd q kInvalidFd (set_fd p fd w)) \<longleftrightarrow>
      0 \<le> x \<and> (\<exists>r. socks (set_fd q kInvalidFd (set_fd p fd w)) r = Some x)"
  proof (cases "0 \<le> x")
    case True
    have "\<exists>r. ((socks w)(p \<mapsto> fd, q \<mapsto> - 1)) r = Some x" if r: "socks w r = Some x" for r
    proof (cases "r = q")
      case False
      with r True assms(4) show ?thesis by (intro exI [of _ r]) auto
    qed (use r assms(2,3) in \<open>auto intro: exI [of _ p]\<close>)
    moreover have "((socks w)(p \<mapsto> fd, q \<mapsto> - 1)) r = Some x \<Longrightarrow> \<exists>r. socks w r = Some x" for r
      using assms(2) True by (auto split: if_splits)
    ultimately show ?thesis
      using sock_inv_open [OF assms(1), of x] True by (simp only: socks_set_fd kInvalidFd_def) blast
  qed (simp add: sock_inv_open [OF assms(1)])
next
  fix r r' x assume "socks (set_fd q kInvalidFd (set_fd p fd w)) r = Some x"
    "socks (set_fd q kInvalidFd (set_fd p fd w)) r' = Some x" "0 \<le> x"
  then show "r = r'" using sock_inv_unique [OF assms(1)] assms(2,3)
    by (auto simp: kInvalidFd_def split: if_splits)
qed

lemma create_inv:
  assumes "sock_inv w" and "socks w p = None" and "fd < 0 \<or> fd \<notin> open_fds w"
  shows "sock_inv (Socket_create p fd w)"
proof (rule sock_invI)
  fix x show "x \<in> open_fds (Socket_create p fd w) \<longleftrightarrow> 0 \<le> x \<and> (\<exists>q. socks (Socket_create p fd w) q = Some x)"
    using assms(2,3) sock_inv_open [OF assms(1), of x]
    by (auto simp: Socket_create_def Socket_ctor_def kInvalidFd_def) (metis option.distinct(1))+
next
  fix q q' x assume "socks (Socket_create p fd w) q = Some x" "socks (Socket_create p fd w) q' = Some x" "0 \<le> x"
  then show "q = q'"
    using assms(2,3) sock_inv_unique [OF assms(1), of q x q'] sock_inv_open [OF assms(1), of fd]
    by (auto simp: Socket_create_def Socket_ctor_def kInvalidFd_def split: if_splits)
qed

lemma destroy_inv:
  assumes "sock_inv w" and "Socket_dtor p w = Inr w'"
  shows "sock_inv w'"
proof -
  obtain fd where "socks w p = Some fd"
    using assms(2) by (auto simp: Socket_dtor_def Socket_Close_def with_socket_def split: option.splits)
  from Close_cases [OF assms(1) this] obtain b w1 x where w1: "Socket_Close p w = Inr (b, w1)" "sock_inv w1"
    "socks w1 = (socks w)(p \<mapsto> x)" "x < 0" by blast
  have w': "w' = w1\<lparr>socks := (socks w1)(p := None)\<rparr>" using assms(2) w1(1) by (simp add: Socket_dtor_def)
  have "(\<exists>q. socks w' q = Some y) \<longleftrightarrow> (\<exists>q. socks w1 q = Some y)" if "0 \<le> y" for y
    using that w1(3,4) by (auto simp: w')
  moreover have "open_fds w' = open_fds w1" by (simp add: w')
  ultimately have "fd \<in> open_fds w' \<longleftrightarrow> 0 \<le> fd \<and> (\<exists>q. socks w' q = Some fd)" for fd
    using sock_inv_open [OF w1(2), of fd] by blast
  then show ?thesis
    using sock_inv_unique [OF w1(2)] by (rule sock_invI) (auto simp: w' split: if_splits)
qed

lemma sock_step_inv:
  assumes "sock_step w oper w'" and "sock_inv w"
  shows "sock_inv w'"
  using assms(1)
proof cases
  case (sk_create p fd)
  then show ?thesis using create_inv [OF assms(2)] by simp
next
  case (sk_move p other)
  then show ?thesis
    using transfer_inv [OF assms(2), of other _ p]
    by (cases "p = other") (auto simp: Socket_move_def with_socket_def split: option.splits)
next
  case (sk_assign p other)
  show ?thesis
  proof (cases "p = other")
    case False
    with sk_assign obtain fd where "socks w p = Some fd"
      by (auto simp: Socket_assign_def Socket_Close_def with_socket_def split: option.splits)
    from Close_cases [OF assms(2) this] obtain b w1 x where w1: "Socket_Close p w = Inr (b, w1)" "sock_inv w1"
      "socks w1 = (socks w)(p \<mapsto> x)" "x < 0" by blast
    then show ?thesis
      using sk_assign False transfer_inv [OF w1(2), of other _ p]
      by (auto simp: Socket_assign_def with_socket_def split: option.splits)
  qed (use sk_assign assms(2) in \<open>simp add: Socket_assign_def\<close>)
next
  case (sk_close p b)
  then obtain fd where "socks w p = Some fd" by (auto simp: Socket_Close_def with_socket_def split: option.splits)
  from Close_cases [OF assms(2) this] show ?thesis using sk_close by auto
next
  case (sk_destroy p)
  then show ?thesis using destroy_inv [OF assms(2)] by blast
qed

section \<open>Properties\<close>

text \<open>
  C35. Sockets own their descriptors: however sockets are created, moved, assigned (to themselves too),
  closed and destroyed, every open descriptor belongs to exactly one socket and every valid
  descriptor of a socket is open. So nothing leaks, nothing is closed twice: closing or
  destroying a socket succeeds exactly if it holds a descriptor, and takes away no other
  socket's descriptor.
\<close>

theorem sockets_own_descriptors:
  assumes "ev_path sock_step sock_init ops w"
  shows "open_fds w = owned w
    \<and> (\<forall>p q fd. socks w p = Some fd \<and> socks w q = Some fd \<and> 0 \<le> fd \<longrightarrow> p = q)
    \<and> (\<forall>p fd. socks w p = Some fd \<longrightarrow>
         (\<exists>w'. Socket_Close p w = Inr (0 \<le> fd, w') \<and> open_fds w' = open_fds w - {fd}
            \<and> (\<forall>q. q \<noteq> p \<longrightarrow> socks w' q = socks w q)))"
proof -
  have inv: "sock_inv w"
    using assms by (rule ev_path_invariant) (simp add: sock_init_def sock_inv_def owned_def, rule sock_step_inv)
  have "\<exists>w'. Socket_Close p w = Inr (0 \<le> fd, w') \<and> open_fds w' = open_fds w - {fd} \<and> (\<forall>q. q \<noteq> p \<longrightarrow> socks w' q = socks w q)"
    if "socks w p = Some fd" for p fd
    using Close_cases [OF inv that] by fastforce
  then show ?thesis using inv by (simp add: sock_inv_def)
qed

theorem sockets_own_descriptors_witness:
  "\<exists>w w'. ev_path sock_step sock_init [SkCreate 0 7, SkMove 1 0] w \<and> Socket_Close 1 w = Inr (True, w') \<and> open_fds w' = {}"
proof -
  let ?w1 = "Socket_create 0 7 sock_init"
  let ?w2 = "set_fd 0 kInvalidFd (set_fd 1 7 ?w1)"
  have "sock_step sock_init (SkCreate 0 7) ?w1" by (rule sk_create) (simp_all add: sock_init_def)
  moreover have "sock_step ?w1 (SkMove 1 0) ?w2"
    by (rule sk_move) (simp_all add: sock_init_def Socket_create_def Socket_ctor_def set_fd_def Socket_move_def with_socket_def)
  ultimately have p: "ev_path sock_step sock_init [SkCreate 0 7, SkMove 1 0] ?w2" by (blast intro: ev_path_Cons ev_nil)
  have "socks ?w2 1 = Some 7" "open_fds ?w2 = {7}"
    by (simp_all add: sock_init_def Socket_create_def Socket_ctor_def set_fd_def)
  then obtain w' where "Socket_Close 1 ?w2 = Inr (0 \<le> (7::int), w')" "open_fds w' = open_fds ?w2 - {7}"
    using sockets_own_descriptors [OF p] by blast
  then show ?thesis using p \<open>open_fds ?w2 = {7}\<close> by (intro exI [of _ ?w2] exI [of _ w']) simp
qed

end
