(* ===== verification/Acceptor.thy ===== *)
theory Acceptor
  imports Channel_Owner Socket_Fd
begin

text \<open>
  \<open>net/transport/acceptor.{h,cpp}\<close>: the listening socket of a server and its channel. The world has
  the acceptor (\<open>None\<close> once it is destroyed), the poller of its loop, the options of the sockets and
  the descriptors closed so far. The results of system calls are arguments; the new-connection
  callback may change the whole world. \<open>AssertInLoopThread\<close> only logs, so it is no guard.
\<close>

section \<open>State\<close>

record acceptor =
  ac_listen_addr :: inet_address
  ac_reuse_port :: bool
  ac_listening :: bool
  ac_fd :: int
  ac_chan :: "chan_ptr option"
  ac_has_cb :: bool

record ('cb, 'u) acc_world =
  aw_acceptor :: "acceptor option"
  aw_poll :: "'cb poll_state"
  aw_opts :: sockopts
  aw_closed :: "int list"
  aw_user :: 'u

text \<open>What the system calls of \<open>Listen\<close> return: whether the options can be set, whether \<open>bind\<close> and
  \<open>listen\<close> succeed, and the address \<open>getsockname\<close> gives.\<close>

record listen_calls =
  reuseaddr_ok :: bool
  reuseport_ok :: bool
  bind_ok :: bool
  listen_ok :: bool
  sockname :: "byte list option"

definition with_acceptor :: "('cb, 'u) acc_world \<Rightarrow> (acceptor \<Rightarrow> 'a res) \<Rightarrow> 'a res" where
  "with_acceptor w k = (case aw_acceptor w of None \<Rightarrow> Inl UseAfterFree | Some a \<Rightarrow> k a)"

definition close_sock :: "int \<Rightarrow> ('cb, 'u) acc_world \<Rightarrow> ('cb, 'u) acc_world" where
  "close_sock fd w = w\<lparr>aw_closed := aw_closed w @ [fd]\<rparr>"

section \<open>Operations\<close>

text \<open>\<open>fd\<close> is the descriptor of \<open>Socket::CreateTcp\<close>, \<open>cb\<close> the callback that calls \<open>HandleRead\<close>.\<close>

definition Acceptor_ctor ::
  "chan_ptr \<Rightarrow> 'cb \<Rightarrow> int \<Rightarrow> inet_address \<Rightarrow> bool \<Rightarrow> ('cb, 'u) acc_world \<Rightarrow> ('cb, 'u) acc_world res" where
  "Acceptor_ctor p cb fd listen_addr reuse_port w =
     (let a = \<lparr>ac_listen_addr = listen_addr, ac_reuse_port = reuse_port, ac_listening = False, ac_fd = fd,
               ac_chan = None, ac_has_cb = False\<rparr>
      in if Socket_IsValid fd
         then rmap (\<lambda>ps. w\<lparr>aw_acceptor := Some (a\<lparr>ac_chan := Some p\<rparr>), aw_poll := ps\<rparr>)
                (make_read_channel p fd cb (aw_poll w))
         else Inr (w\<lparr>aw_acceptor := Some a\<rparr>))"

text \<open>The destructor, then the members: the socket closes its descriptor.\<close>

definition Acceptor_dtor :: "bool \<Rightarrow> ('cb, 'u) acc_world \<Rightarrow> ('cb, 'u) acc_world res" where
  "Acceptor_dtor in_loop w =
     with_acceptor w (\<lambda>a.
       rbind (case ac_chan a of
                None \<Rightarrow> Inr w
              | Some p \<Rightarrow>
                  rbind (if in_loop then rbind (DisableAll p (aw_poll w)) (Channel_Remove p) else Inr (aw_poll w)) (\<lambda>ps.
                    rmap (\<lambda>ps. w\<lparr>aw_poll := ps\<rparr>) (Channel_dtor p ps))) (\<lambda>w.
         Inr ((if Socket_IsValid (ac_fd a) then close_sock (ac_fd a) w else w)\<lparr>aw_acceptor := None\<rparr>)))"

definition SetNewConnectionCallback :: "bool \<Rightarrow> ('cb, 'u) acc_world \<Rightarrow> ('cb, 'u) acc_world res" where
  "SetNewConnectionCallback has w = with_acceptor w (\<lambda>a. Inr (w\<lparr>aw_acceptor := Some (a\<lparr>ac_has_cb := has\<rparr>)\<rparr>))"

text \<open>\<open>Listen\<close>; the address is asked for when the port was left to the system.\<close>

definition actual_addr :: "endian \<Rightarrow> byte list option \<Rightarrow> inet_address \<Rightarrow> inet_address res" where
  "actual_addr e name addr =
     (if Port e addr = 0
      then (case name of None \<Rightarrow> Inr addr | Some bs \<Rightarrow> InetAddress_sockaddr e (Some bs) (length bs))
      else Inr addr)"

definition Acceptor_Listen :: "endian \<Rightarrow> listen_calls \<Rightarrow> ('cb, 'u) acc_world \<Rightarrow> (bool \<times> ('cb, 'u) acc_world) res" where
  "Acceptor_Listen e sys w =
     with_acceptor w (\<lambda>a.
       if ac_listening a then Inr (True, w)
       else if \<not> Socket_IsValid (ac_fd a) then Inr (False, w)
       else case ac_chan a of
              None \<Rightarrow> Inr (False, w)
            | Some p \<Rightarrow>
                (case SetReuseAddr True (ac_fd a) (reuseaddr_ok sys) (aw_opts w) of (ok1, opts1) \<Rightarrow>
                   if \<not> ok1 then Inr (False, w\<lparr>aw_opts := opts1\<rparr>)
                   else (case (if ac_reuse_port a then SetReusePort True (ac_fd a) (reuseport_ok sys) opts1 else (True, opts1)) of
                     (ok2, opts2) \<Rightarrow>
                       let w = w\<lparr>aw_opts := opts2\<rparr> in
                       if \<not> ok2 then Inr (False, w)
                       else if \<not> Socket_Bind (ac_fd a) (bind_ok sys) then Inr (False, w)
                       else if \<not> Socket_Listen (ac_fd a) (listen_ok sys) then Inr (False, w)
                       else rbind (actual_addr e (sockname sys) (ac_listen_addr a)) (\<lambda>addr.
                              rmap (\<lambda>ps. (True, w\<lparr>aw_poll := ps,
                                   aw_acceptor := Some (a\<lparr>ac_listen_addr := addr, ac_listening := True\<rparr>)\<rparr>))
                                (EnableReading p (aw_poll w))))))"

text \<open>\<open>HandleRead\<close>: \<open>accepts\<close> has what \<open>accept4\<close> returns, one connection after the other, until it fails.
  \<open>m_listen_socket\<close> and the callback are members, read anew for every connection.\<close>

fun Acceptor_HandleRead ::
  "endian \<Rightarrow> (int \<Rightarrow> inet_address \<Rightarrow> ('cb, 'u) acc_world \<Rightarrow> ('cb, 'u) acc_world res) \<Rightarrow> (int \<times> byte list) list \<Rightarrow>
   ('cb, 'u) acc_world \<Rightarrow> ('cb, 'u) acc_world res" where
  "Acceptor_HandleRead e new_conn [] w =
     with_acceptor w (\<lambda>a. rbind (Socket_Accept e (ac_fd a) None) (\<lambda>_. Inr w))"
| "Acceptor_HandleRead e new_conn (r # accepts) w =
     with_acceptor w (\<lambda>a. rbind (Socket_Accept e (ac_fd a) (Some r)) (\<lambda>(conn_fd, peer_addr).
       if conn_fd < 0 then Inr w
       else rbind (if ac_has_cb a then new_conn conn_fd peer_addr w else Inr (close_sock conn_fd w))
              (Acceptor_HandleRead e new_conn accepts)))"

section \<open>Life cycle\<close>

text \<open>An acceptor in order: its channel is registered for reading once it listens, and idle before.\<close>

definition acceptor_ok :: "chan_ptr \<Rightarrow> int \<Rightarrow> 'cb \<Rightarrow> ('cb, 'u) acc_world \<Rightarrow> bool" where
  "acceptor_ok p fd cb w \<longleftrightarrow>
     poller_inv (aw_poll w) \<and> 0 \<le> fd
     \<and> (\<exists>a c. aw_acceptor w = Some a \<and> ac_fd a = fd \<and> ac_chan a = Some p
          \<and> chan_heap (aw_poll w) p = Some c \<and> ch_fd c = fd \<and> ch_read_callback c = Some cb \<and> plain c
          \<and> (if ac_listening a then ch_events c = kReadEvent \<and> ch_index c = kAdded
             else ch_events c = kNoneEvent \<and> ch_index c = kNew \<and> m_channels (aw_poll w) fd = None))"

lemma acceptor_okE:
  assumes "acceptor_ok p fd cb w"
  obtains a c where "poller_inv (aw_poll w)" and "0 \<le> fd" and "aw_acceptor w = Some a" and "ac_fd a = fd" and "ac_chan a = Some p"
    and "chan_heap (aw_poll w) p = Some c" and "ch_fd c = fd" and "ch_read_callback c = Some cb" and "plain c"
    and "if ac_listening a then ch_events c = kReadEvent \<and> ch_index c = kAdded
             else ch_events c = kNoneEvent \<and> ch_index c = kNew \<and> m_channels (aw_poll w) fd = None"
  using assms by (auto simp: acceptor_ok_def)

lemma acceptor_held: "acceptor_ok p fd cb w \<Longrightarrow> held p fd (aw_poll w)"
  by (auto simp: acceptor_ok_def held_def usable_def split: if_splits)

lemma Acceptor_ctor_ok:
  assumes "poller_inv (aw_poll w)" and "chan_heap (aw_poll w) p = None" and "m_channels (aw_poll w) fd = None" and "0 \<le> fd"
  shows "\<exists>w'. Acceptor_ctor p cb fd addr reuse_port w = Inr w' \<and> acceptor_ok p fd cb w'
    \<and> aw_acceptor w' = Some \<lparr>ac_listen_addr = addr, ac_reuse_port = reuse_port, ac_listening = False, ac_fd = fd,
         ac_chan = Some p, ac_has_cb = False\<rparr>
    \<and> watched (aw_poll w') = watched (aw_poll w) \<and> aw_closed w' = aw_closed w \<and> m_channels (aw_poll w') = m_channels (aw_poll w)
    \<and> aw_user w' = aw_user w"
proof -
  from make_read_channel_ok [OF assms(1,2,4), of cb] obtain ps c where
    "make_read_channel p fd cb (aw_poll w) = Inr ps" "poller_inv ps" "watched ps = watched (aw_poll w)"
    "m_channels ps = m_channels (aw_poll w)" "chan_heap ps = (chan_heap (aw_poll w))(p \<mapsto> c)"
    "ch_fd c = fd" "ch_events c = kNoneEvent" "ch_index c = kNew" "ch_read_callback c = Some cb" "plain c" by blast
  then show ?thesis
    using assms(3,4) by (simp add: Acceptor_ctor_def Socket_IsValid_def acceptor_ok_def)
qed

lemma sockaddr_total: "\<exists>a. InetAddress_sockaddr e (Some bs) (length bs) = Inr a"
  by (simp add: InetAddress_sockaddr_def Let_def)

lemma actual_addr_total: "\<exists>a. actual_addr e name addr = Inr a"
  using sockaddr_total by (auto simp: actual_addr_def split: option.split)

definition calls_ok :: "listen_calls \<Rightarrow> bool \<Rightarrow> bool" where
  "calls_ok sys reuse_port \<longleftrightarrow> reuseaddr_ok sys \<and> (reuse_port \<longrightarrow> reuseport_ok sys) \<and> bind_ok sys \<and> listen_ok sys"

text \<open>\<open>Listen\<close> on an acceptor that is not listening yet.\<close>

lemma opts_only: "\<exists>opts. w = w\<lparr>aw_opts := opts\<rparr>" "\<exists>opts. w\<lparr>aw_opts := x\<rparr> = w\<lparr>aw_opts := opts\<rparr>"
  by (intro exI [of _ "aw_opts w"], simp) blast

lemma Listen_fails:
  assumes "acceptor_ok p fd cb w" and "aw_acceptor w = Some a" and "\<not> ac_listening a" and "\<not> calls_ok sys (ac_reuse_port a)"
  shows "\<exists>opts. Acceptor_Listen e sys w = Inr (False, w\<lparr>aw_opts := opts\<rparr>)"
  using assms
  by (auto elim!: acceptor_okE simp: Acceptor_Listen_def with_acceptor_def Socket_IsValid_def calls_ok_def Let_def
      SetReuseAddr_def SetReusePort_def SetSocketOption_def Socket_Bind_def Socket_Listen_def opts_only split: if_splits)

lemma Listen_succeeds:
  assumes "acceptor_ok p fd cb w" and "aw_acceptor w = Some a" and "\<not> ac_listening a" and "calls_ok sys (ac_reuse_port a)"
  shows "\<exists>ps opts addr. Acceptor_Listen e sys w = Inr (True, w\<lparr>aw_opts := opts, aw_poll := ps,
        aw_acceptor := Some (a\<lparr>ac_listen_addr := addr, ac_listening := True\<rparr>)\<rparr>)
    \<and> actual_addr e (sockname sys) (ac_listen_addr a) = Inr addr
    \<and> acceptor_ok p fd cb (w\<lparr>aw_opts := opts, aw_poll := ps, aw_acceptor := Some (a\<lparr>ac_listen_addr := addr, ac_listening := True\<rparr>)\<rparr>)
    \<and> watched ps = (watched (aw_poll w))(fd \<mapsto> (kReadEvent, p))"
proof -
  from assms(1) obtain c where inv: "poller_inv (aw_poll w)" "0 \<le> fd" and a: "ac_fd a = fd" "ac_chan a = Some p"
    and c: "chan_heap (aw_poll w) p = Some c" "ch_fd c = fd" "ch_read_callback c = Some cb" "plain c"
    "ch_events c = kNoneEvent" "ch_index c = kNew" "m_channels (aw_poll w) fd = None"
    using assms(2,3) by (auto elim!: acceptor_okE)
  obtain addr where addr: "actual_addr e (sockname sys) (ac_listen_addr a) = Inr addr" using actual_addr_total by blast
  from EnableReading_ok [OF inv(1) c(1,6,5)] c(2,7) obtain ps where ps: "EnableReading p (aw_poll w) = Inr ps"
    "poller_inv ps" "watched ps = (watched (aw_poll w))(fd \<mapsto> (kReadEvent, p))"
    "chan_heap ps = (chan_heap (aw_poll w))(p \<mapsto> c\<lparr>ch_events := kReadEvent, ch_index := kAdded\<rparr>)" by auto
  define opts where "opts = (if ac_reuse_port a then (aw_opts w)((fd, SOL_SOCKET, SO_REUSEADDR) \<mapsto> 1, (fd, SOL_SOCKET, SO_REUSEPORT) \<mapsto> 1)
      else (aw_opts w)((fd, SOL_SOCKET, SO_REUSEADDR) \<mapsto> 1))"
  have "Acceptor_Listen e sys w = Inr (True, w\<lparr>aw_opts := opts, aw_poll := ps,
      aw_acceptor := Some (a\<lparr>ac_listen_addr := addr, ac_listening := True\<rparr>)\<rparr>)"
    using assms(2-4) inv(2) a addr ps(1)
    by (auto simp: Acceptor_Listen_def with_acceptor_def Socket_IsValid_def calls_ok_def Let_def opts_def
        SetReuseAddr_def SetReusePort_def SetSocketOption_def Socket_Bind_def Socket_Listen_def)
  moreover have "acceptor_ok p fd cb (w\<lparr>aw_opts := opts, aw_poll := ps,
      aw_acceptor := Some (a\<lparr>ac_listen_addr := addr, ac_listening := True\<rparr>)\<rparr>)"
    using ps a c inv(2) by (simp add: acceptor_ok_def plain_def)
  ultimately show ?thesis using addr ps(3) by blast
qed

lemma acceptor_ok_opts [simp]: "acceptor_ok p fd cb (w\<lparr>aw_opts := x\<rparr>) = acceptor_ok p fd cb w"
  by (simp add: acceptor_ok_def)

lemma Acceptor_dtor_in_loop:
  assumes "acceptor_ok p fd cb w"
  shows "\<exists>w'. Acceptor_dtor True w = Inr w' \<and> aw_acceptor w' = None \<and> aw_closed w' = aw_closed w @ [fd]
    \<and> poller_inv (aw_poll w') \<and> watched (aw_poll w') = (watched (aw_poll w))(fd := None)
    \<and> chan_heap (aw_poll w') = (chan_heap (aw_poll w))(p := None) \<and> aw_user w' = aw_user w"
proof -
  from assms obtain a where inv: "poller_inv (aw_poll w)" "0 \<le> fd" and a: "aw_acceptor w = Some a" "ac_fd a = fd" "ac_chan a = Some p"
    by (auto elim: acceptor_okE)
  from retire_channel_ok [OF inv(1) acceptor_held [OF assms]] obtain ps where ps: "retire_channel p (aw_poll w) = Inr ps"
    "poller_inv ps" "watched ps = (watched (aw_poll w))(fd := None)" "chan_heap ps = (chan_heap (aw_poll w))(p := None)" by blast
  from ps(1) obtain ps0 where "rbind (DisableAll p (aw_poll w)) (Channel_Remove p) = Inr ps0" "Channel_dtor p ps0 = Inr ps"
    by (auto simp: retire_channel_def rbind_eq_Inr_iff)
  then show ?thesis
    using inv(2) a ps(2-4) by (simp add: Acceptor_dtor_def with_acceptor_def close_sock_def Socket_IsValid_def)
qed

lemma Acceptor_dtor_elsewhere:
  assumes "acceptor_ok p fd cb w" and "aw_acceptor w = Some a" and "ac_listening a"
  shows "Acceptor_dtor False w = Inl AssertionFailed"
proof -
  have "kReadEvent \<noteq> kNoneEvent" by (simp add: kReadEvent_def kNoneEvent_def poll_bits)
  then show ?thesis
    using assms by (auto elim!: acceptor_okE
        simp: Acceptor_dtor_def with_acceptor_def Channel_dtor_def with_channel_def IsNoneEvent_def)
qed

section \<open>Accepting\<close>

text \<open>The address of a peer as \<open>Accept\<close> builds it, and the connections handed to a callback one after
  the other.\<close>

definition peer_of :: "endian \<Rightarrow> byte list \<Rightarrow> inet_address" where
  "peer_of e bs = (case InetAddress_sockaddr e (Some bs) (length bs) of Inl _ \<Rightarrow> InetAddress_default e | Inr a \<Rightarrow> a)"

fun hand_over :: "('c \<Rightarrow> 'd \<Rightarrow> 'w \<Rightarrow> 'w res) \<Rightarrow> ('c \<times> 'd) list \<Rightarrow> 'w \<Rightarrow> 'w res" where
  "hand_over f [] w = Inr w"
| "hand_over f ((c, d) # rest) w = rbind (f c d w) (hand_over f rest)"

lemma Accept_eq: "Socket_IsValid fd \<Longrightarrow> Socket_Accept e fd (Some (conn_fd, bs)) = Inr (conn_fd, peer_of e bs)"
  using sockaddr_total [of e bs] by (auto simp: Socket_Accept_def peer_of_def)

lemma HandleRead_hands_over:
  assumes "aw_acceptor w = Some a" and "Socket_IsValid (ac_fd a)" and "ac_has_cb a"
    and "\<And>c d w w'. aw_acceptor w = Some a \<Longrightarrow> new_conn c d w = Inr w' \<Longrightarrow> aw_acceptor w' = Some a"
    and "\<forall>(c, bs) \<in> set accepts. 0 \<le> c"
  shows "Acceptor_HandleRead e new_conn accepts w = hand_over new_conn (map (\<lambda>(c, bs). (c, peer_of e bs)) accepts) w"
  using assms(1,5)
proof (induction accepts arbitrary: w)
  case Nil
  then show ?case using assms(2) by (simp add: with_acceptor_def Socket_Accept_def)
next
  case (Cons r accepts)
  obtain c bs where r: "r = (c, bs)" by fastforce
  have eq: "Acceptor_HandleRead e new_conn (r # accepts) w =
      rbind (new_conn c (peer_of e bs) w) (Acceptor_HandleRead e new_conn accepts)"
    using Cons.prems assms(2,3) by (simp add: r with_acceptor_def Accept_eq)
  show ?case
  proof (cases "new_conn c (peer_of e bs) w")
    case (Inr w1)
    then show ?thesis using Cons assms(4) eq by (simp add: r)
  qed (use eq in \<open>simp add: r\<close>)
qed

lemma HandleRead_no_callback:
  assumes "aw_acceptor w = Some a" and "Socket_IsValid (ac_fd a)" and "\<not> ac_has_cb a" and "\<forall>(c, bs) \<in> set accepts. 0 \<le> c"
  shows "Acceptor_HandleRead e new_conn accepts w = Inr (w\<lparr>aw_closed := aw_closed w @ map fst accepts\<rparr>)"
  using assms(1,4)
proof (induction accepts arbitrary: w)
  case Nil
  then show ?case using assms(2) by (simp add: with_acceptor_def Socket_Accept_def)
next
  case (Cons r accepts)
  then show ?case using assms(2,3) by (cases r) (simp add: with_acceptor_def Accept_eq close_sock_def)
qed

section \<open>Properties\<close>

text \<open>
  An acceptor from construction to destruction, on a poller in order with an unused descriptor:
  \<open>Listen\<close> succeeds exactly if every system call it needs succeeds; then the poller watches the
  socket for reading, otherwise it is not watched and nothing but socket options has changed;
  calling it again once it has succeeded changes nothing, and the address is the one asked for unless
  its port is 0. Destroyed in the loop thread, the acceptor leaves the poller as it was and
  its socket closed once. Destroyed in another thread while listening, it fails the assertion
  of the channel's destructor.
\<close>

theorem acceptor_lifecycle:
  assumes "poller_inv (aw_poll w)" and "chan_heap (aw_poll w) p = None" and "m_channels (aw_poll w) fd = None" and "0 \<le> fd"
  shows "\<exists>w1 b w2 w3 a. Acceptor_ctor p cb fd addr reuse_port w = Inr w1 \<and> Acceptor_Listen e sys w1 = Inr (b, w2)
    \<and> (b \<longleftrightarrow> reuseaddr_ok sys \<and> (reuse_port \<longrightarrow> reuseport_ok sys) \<and> bind_ok sys \<and> listen_ok sys)
    \<and> aw_acceptor w2 = Some a \<and> ac_listening a = b \<and> (Port e addr \<noteq> 0 \<longrightarrow> ac_listen_addr a = addr)
    \<and> interest_of (ctl_calls (aw_poll w2)) =
        Some (if b then (watched (aw_poll w))(fd \<mapsto> (kReadEvent, p)) else watched (aw_poll w))
    \<and> (b \<longrightarrow> (\<forall>sys'. Acceptor_Listen e sys' w2 = Inr (True, w2)))
    \<and> Acceptor_dtor True w2 = Inr w3 \<and> aw_closed w3 = aw_closed w @ [fd] \<and> poller_inv (aw_poll w3)
    \<and> watched (aw_poll w3) = watched (aw_poll w)
    \<and> (b \<longrightarrow> Acceptor_dtor False w2 = Inl AssertionFailed)"
proof -
  let ?a = "\<lparr>ac_listen_addr = addr, ac_reuse_port = reuse_port, ac_listening = False, ac_fd = fd, ac_chan = Some p, ac_has_cb = False\<rparr>"
  from Acceptor_ctor_ok [OF assms] obtain w1 where w1: "Acceptor_ctor p cb fd addr reuse_port w = Inr w1"
    "acceptor_ok p fd cb w1" "aw_acceptor w1 = Some ?a" "watched (aw_poll w1) = watched (aw_poll w)" "aw_closed w1 = aw_closed w"
    by blast
  have free: "watched (aw_poll w) fd = None" using assms(3) by (simp add: watched_def)
  show ?thesis
  proof (cases "calls_ok sys reuse_port")
    case True
    from Listen_succeeds [OF w1(2,3), of sys e] True obtain ps opts addr' where l:
      "Acceptor_Listen e sys w1 = Inr (True, w1\<lparr>aw_opts := opts, aw_poll := ps, aw_acceptor := Some (?a\<lparr>ac_listen_addr := addr', ac_listening := True\<rparr>)\<rparr>)"
      "actual_addr e (sockname sys) addr = Inr addr'"
      "acceptor_ok p fd cb (w1\<lparr>aw_opts := opts, aw_poll := ps, aw_acceptor := Some (?a\<lparr>ac_listen_addr := addr', ac_listening := True\<rparr>)\<rparr>)"
      "watched ps = (watched (aw_poll w1))(fd \<mapsto> (kReadEvent, p))" by auto
    define w2 where "w2 = w1\<lparr>aw_opts := opts, aw_poll := ps, aw_acceptor := Some (?a\<lparr>ac_listen_addr := addr', ac_listening := True\<rparr>)\<rparr>"
    have ok: "acceptor_ok p fd cb w2" using l(3) by (simp add: w2_def)
    from Acceptor_dtor_in_loop [OF ok] obtain w3 where "Acceptor_dtor True w2 = Inr w3" "aw_closed w3 = aw_closed w @ [fd]"
      "poller_inv (aw_poll w3)" "watched (aw_poll w3) = (watched ps)(fd := None)" using w1(5) by (auto simp: w2_def)
    moreover have "Acceptor_dtor False w2 = Inl AssertionFailed" 
      by (rule Acceptor_dtor_elsewhere [OF ok, of "?a\<lparr>ac_listen_addr := addr', ac_listening := True\<rparr>"]) (simp_all add: w2_def)
    moreover have "Port e addr \<noteq> 0 \<longrightarrow> addr' = addr" using l(2) by (auto simp: actual_addr_def)
    moreover have "Acceptor_Listen e sys' w2 = Inr (True, w2)" for sys' by (simp add: Acceptor_Listen_def with_acceptor_def w2_def)
    moreover have "interest_of (ctl_calls ps) = Some (watched ps)" using ok poller_invD(3) by (auto simp: acceptor_ok_def w2_def)
    moreover have "(watched ps)(fd := None) = watched (aw_poll w)" using l(4) w1(4) free by (simp add: fun_upd_idem)
    ultimately show ?thesis
      using w1(1,4) l(1,4) True
      by (intro exI [of _ w1] exI [of _ True] exI [of _ w2] exI [of _ w3] exI [of _ "?a\<lparr>ac_listen_addr := addr', ac_listening := True\<rparr>"])
        (auto simp: w2_def calls_ok_def)
  next
    case False
    from Listen_fails [OF w1(2,3), of sys e] False obtain opts where l: "Acceptor_Listen e sys w1 = Inr (False, w1\<lparr>aw_opts := opts\<rparr>)"
      by auto
    have ok: "acceptor_ok p fd cb (w1\<lparr>aw_opts := opts\<rparr>)" using w1(2) by simp
    from Acceptor_dtor_in_loop [OF ok] obtain w3 where "Acceptor_dtor True (w1\<lparr>aw_opts := opts\<rparr>) = Inr w3"
      "aw_closed w3 = aw_closed w @ [fd]" "poller_inv (aw_poll w3)" "watched (aw_poll w3) = (watched (aw_poll w))(fd := None)"
      using w1(4,5) by auto
    moreover have "interest_of (ctl_calls (aw_poll w1)) = Some (watched (aw_poll w1))"
      using w1(2) poller_invD(3) by (auto simp: acceptor_ok_def)
    ultimately show ?thesis
      using w1 l False free
      by (intro exI [of _ w1] exI [of _ False] exI [of _ "w1\<lparr>aw_opts := opts\<rparr>"] exI [of _ w3] exI [of _ ?a])
        (auto simp: calls_ok_def fun_upd_idem)
  qed
qed

definition idle_world :: "(unit, unit) acc_world" where
  "idle_world = \<lparr>aw_acceptor = None, aw_poll = EpollPoller_ctor, aw_opts = Map.empty, aw_closed = [], aw_user = ()\<rparr>"

lemma idle_world_facts: "poller_inv (aw_poll idle_world)" "chan_heap (aw_poll idle_world) p = None"
  "m_channels (aw_poll idle_world) fd = None"
  using poller_inv_ctor by (simp_all add: idle_world_def EpollPoller_ctor_def)

theorem acceptor_lifecycle_witness:
  "\<exists>w1 b w2 w3. Acceptor_ctor 1 () 6 (InetAddress_default Little) True idle_world = Inr w1
    \<and> Acceptor_Listen Little \<lparr>reuseaddr_ok = True, reuseport_ok = True, bind_ok = True, listen_ok = True, sockname = None\<rparr> w1 = Inr (b, w2)
    \<and> b \<and> Acceptor_dtor True w2 = Inr w3 \<and> aw_closed w3 = [6] \<and> Acceptor_dtor False w2 = Inl AssertionFailed"
proof -
  let ?sys = "\<lparr>reuseaddr_ok = True, reuseport_ok = True, bind_ok = True, listen_ok = True, sockname = None\<rparr>"
  have "(0 :: int) \<le> 6" by simp
  from acceptor_lifecycle [OF idle_world_facts this, of 1 "()" "InetAddress_default Little" True Little ?sys]
  obtain w1 b w2 w3 where "Acceptor_ctor 1 () 6 (InetAddress_default Little) True idle_world = Inr w1"
    "Acceptor_Listen Little ?sys w1 = Inr (b, w2)"
    "b \<longleftrightarrow> reuseaddr_ok ?sys \<and> (True \<longrightarrow> reuseport_ok ?sys) \<and> bind_ok ?sys \<and> listen_ok ?sys"
    "Acceptor_dtor True w2 = Inr w3" "aw_closed w3 = aw_closed idle_world @ [6]"
    "b \<longrightarrow> Acceptor_dtor False w2 = Inl AssertionFailed" by blast
  then show ?thesis by (auto simp: idle_world_def)
qed

text \<open>
  C22. \<open>HandleRead\<close> takes every connection that is waiting: each goes to the callback exactly once, in the
  order in which they were accepted and with its peer's address, whatever the callback does to the
  rest of the program as long as the acceptor stays; the first failure ends it. Without a
  callback each is closed. But if the callback destroys the acceptor, which is what stopping the
  server from it does, the loop goes on to read the destroyed socket object.
\<close>

theorem HandleRead_accepts_all:
  assumes "aw_acceptor w = Some a" and "0 \<le> ac_fd a" and "\<forall>(c, bs) \<in> set accepts. 0 \<le> c"
  shows "((\<forall>c d w w'. aw_acceptor w = Some a \<and> new_conn c d w = Inr w' \<longrightarrow> aw_acceptor w' = Some a) \<longrightarrow>
      Acceptor_HandleRead e new_conn accepts w =
        (if ac_has_cb a then hand_over new_conn (map (\<lambda>(c, bs). (c, peer_of e bs)) accepts) w
         else Inr (w\<lparr>aw_closed := aw_closed w @ map fst accepts\<rparr>)))
    \<and> (ac_has_cb a \<and> acceptor_ok p fd cb w \<and> accepts \<noteq> [] \<and> (\<forall>c d w. new_conn c d w = Acceptor_dtor True w) \<longrightarrow>
      Acceptor_HandleRead e new_conn accepts w = Inl UseAfterFree)"
proof -
  have v: "Socket_IsValid (ac_fd a)" using assms(2) by (simp add: Socket_IsValid_def)
  have "Acceptor_HandleRead e new_conn accepts w = Inl UseAfterFree"
    if h: "ac_has_cb a" "acceptor_ok p fd cb w" "accepts \<noteq> []" "\<forall>c d w. new_conn c d w = Acceptor_dtor True w"
  proof -
    obtain c bs rest where acc: "accepts = (c, bs) # rest" using h(3) by (cases accepts) auto
    from Acceptor_dtor_in_loop [OF h(2)] obtain w1 where "Acceptor_dtor True w = Inr w1" "aw_acceptor w1 = None" by blast
    moreover have "Acceptor_HandleRead e new_conn rest w1 = Inl UseAfterFree" if "aw_acceptor w1 = None"
      using that by (cases rest) (auto simp: with_acceptor_def)
    ultimately show ?thesis
      using assms(1,3) v h(1,4) by (simp add: acc with_acceptor_def Accept_eq)
  qed
  then show ?thesis
    using HandleRead_hands_over [OF assms(1) v _ _ assms(3), of new_conn e]
      HandleRead_no_callback [OF assms(1) v _ assms(3), of e new_conn] by auto
qed

definition busy_world :: "(unit, int list) acc_world" where
  "busy_world = \<lparr>aw_acceptor = Some \<lparr>ac_listen_addr = InetAddress_default Little, ac_reuse_port = True, ac_listening = True,
       ac_fd = 6, ac_chan = Some 1, ac_has_cb = True\<rparr>,
     aw_poll = EpollPoller_ctor, aw_opts = Map.empty, aw_closed = [], aw_user = []\<rparr>"

theorem HandleRead_accepts_all_witness:
  "Acceptor_HandleRead Little (\<lambda>c d w. Inr (w\<lparr>aw_user := aw_user w @ [c]\<rparr>)) [(8, []), (9, [])] busy_world =
     Inr (busy_world\<lparr>aw_user := [8, 9]\<rparr>)"
  using HandleRead_accepts_all [of busy_world _ "[(8, []), (9, [])]" "\<lambda>c d w. Inr (w\<lparr>aw_user := aw_user w @ [c]\<rparr>)" Little]
  by (simp add: busy_world_def)

end
