(* ===== verification/Loop_Thread.thy ===== *)
theory Loop_Thread
  imports Net_Prelude
begin

text \<open>
  \<open>net/event_loop_thread.{h,cpp}\<close>: an event loop on a thread of its own. The owner calls \<open>Start\<close> and
  \<open>Stop\<close>, the new thread runs \<open>ThreadFunc\<close>; each critical section is one step. \<open>m_loop\<close> points to a loop on
  the stack of the new thread, so it is modelled by whether it is set and whether that loop
  still exists. The loop leaves \<open>Loop\<close> only after it was told to quit.
\<close>

section \<open>State\<close>

text \<open>The points of \<open>ThreadFunc\<close>: not started; constructing the loop; \<open>m_loop\<close> is set and \<open>notify_one\<close> is next; in
  \<open>Loop\<close>; \<open>Loop\<close> has returned; the function has returned and the loop is destroyed.\<close>

datatype bg_pc = BgNone | BgStarting | BgReady | BgLooping | BgLeft | BgDone

text \<open>The points of the owner: outside; asleep in \<open>m_cond.wait\<close>; in \<open>Stop\<close> with the pointers it has taken,
  before it uses them; before and in \<open>Join\<close>.\<close>

datatype owner_pc = OwnerIdle | StartBlocked | StopAsk bool bool | StopJoin bool

text \<open>\<open>start_woken\<close> is a notification not yet acted on, \<open>loop_quit\<close> that the loop was told to quit, \<open>start_results\<close> whether the
  pointers \<open>Start\<close> returned were non-null, and \<open>used_freed\<close> that a destroyed loop has been accessed.\<close>

record loop_thread =
  lt_started :: bool
  lt_stopped :: bool
  lt_loop :: bool
  lt_thread :: bool
  bg :: bg_pc
  owner :: owner_pc
  start_woken :: bool
  loop_quit :: bool
  start_results :: "bool list"
  used_freed :: bool

definition loop_thread_init :: loop_thread where
  "loop_thread_init = \<lparr>lt_started = False, lt_stopped = False, lt_loop = False, lt_thread = False, bg = BgNone,
     owner = OwnerIdle, start_woken = False, loop_quit = False, start_results = [], used_freed = False\<rparr>"

section \<open>Operations\<close>

text \<open>The predicate of \<open>m_cond.wait\<close>, evaluated with the lock held: return or sleep.\<close>

definition Start_check :: "loop_thread \<Rightarrow> loop_thread" where
  "Start_check s =
     (if lt_loop s then s\<lparr>owner := OwnerIdle, start_woken := False, start_results := start_results s @ [True]\<rparr>
      else s\<lparr>owner := StartBlocked, start_woken := False\<rparr>)"

definition LoopThread_Start :: "loop_thread \<Rightarrow> loop_thread" where
  "LoopThread_Start s =
     (if lt_started s then s\<lparr>start_results := start_results s @ [lt_loop s]\<rparr>
      else Start_check (s\<lparr>lt_started := True, lt_stopped := False, lt_thread := True, bg := BgStarting\<rparr>))"

text \<open>\<open>Stop\<close>: the first critical section, the request to quit, and the end after \<open>Join\<close>.\<close>

definition Stop_enter :: "loop_thread \<Rightarrow> loop_thread" where
  "Stop_enter s =
     (if \<not> lt_started s \<or> lt_stopped s then s
      else s\<lparr>lt_stopped := True, lt_thread := False, owner := StopAsk (lt_loop s) (lt_thread s)\<rparr>)"

definition Stop_ask :: "bool \<Rightarrow> bool \<Rightarrow> loop_thread \<Rightarrow> loop_thread" where
  "Stop_ask loop thread s =
     (if loop then s\<lparr>loop_quit := True, used_freed := used_freed s \<or> bg s = BgDone, owner := StopJoin thread\<rparr>
      else s\<lparr>owner := StopJoin thread\<rparr>)"

definition Stop_end :: "loop_thread \<Rightarrow> loop_thread" where
  "Stop_end s = s\<lparr>lt_thread := False, lt_loop := False, owner := OwnerIdle\<rparr>"

text \<open>\<open>ThreadFunc\<close>: the critical section with the init callback, which may tell the loop to quit
  (exceptions it throws are caught), the notification, and the last critical section.\<close>

definition Thread_publish :: "bool \<Rightarrow> loop_thread \<Rightarrow> loop_thread" where
  "Thread_publish init_quits s = s\<lparr>lt_loop := True, loop_quit := loop_quit s \<or> init_quits, bg := BgReady\<rparr>"

definition Thread_notify :: "loop_thread \<Rightarrow> loop_thread" where
  "Thread_notify s = s\<lparr>start_woken := (owner s = StartBlocked), bg := BgLooping\<rparr>"

definition Thread_exit :: "loop_thread \<Rightarrow> loop_thread" where
  "Thread_exit s = s\<lparr>lt_loop := False, bg := BgDone\<rparr>"

definition LoopThread_GetLoop :: "loop_thread \<Rightarrow> bool" where
  "LoopThread_GetLoop s = lt_loop s"

section \<open>Interleaving\<close>

datatype lt_ev = OwnerStart | OwnerWake | OwnerSpurious | OwnerStop | OwnerStep | BgStep | OtherQuit

text \<open>\<open>OtherQuit\<close> is code with the pointer from \<open>GetLoop\<close> that tells the loop to quit.\<close>

inductive lt_step :: "bool \<Rightarrow> loop_thread \<Rightarrow> lt_ev \<Rightarrow> loop_thread \<Rightarrow> bool" for init_quits where
  lt_start: "owner s = OwnerIdle \<Longrightarrow> lt_step init_quits s OwnerStart (LoopThread_Start s)"
| lt_wake: "owner s = StartBlocked \<Longrightarrow> start_woken s \<Longrightarrow> lt_step init_quits s OwnerWake (Start_check s)"
| lt_spurious: "owner s = StartBlocked \<Longrightarrow> lt_step init_quits s OwnerSpurious (Start_check s)"
| lt_stop: "owner s = OwnerIdle \<Longrightarrow> lt_step init_quits s OwnerStop (Stop_enter s)"
| lt_ask: "owner s = StopAsk loop thread \<Longrightarrow> lt_step init_quits s OwnerStep (Stop_ask loop thread s)"
| lt_join: "owner s = StopJoin thread \<Longrightarrow> thread \<longrightarrow> bg s = BgDone \<Longrightarrow> lt_step init_quits s OwnerStep (Stop_end s)"
| lt_publish: "bg s = BgStarting \<Longrightarrow> lt_step init_quits s BgStep (Thread_publish init_quits s)"
| lt_notify: "bg s = BgReady \<Longrightarrow> lt_step init_quits s BgStep (Thread_notify s)"
| lt_leave: "bg s = BgLooping \<Longrightarrow> loop_quit s \<Longrightarrow> lt_step init_quits s BgStep (s\<lparr>bg := BgLeft\<rparr>)"
| lt_exit: "bg s = BgLeft \<Longrightarrow> lt_step init_quits s BgStep (Thread_exit s)"
| lt_other: "LoopThread_GetLoop s \<Longrightarrow> lt_step init_quits s OtherQuit (s\<lparr>loop_quit := True\<rparr>)"

lemmas lt_op_defs = LoopThread_Start_def Start_check_def Stop_enter_def Stop_ask_def Stop_end_def Thread_publish_def
  Thread_notify_def Thread_exit_def LoopThread_GetLoop_def

section \<open>Invariant\<close>

text \<open>As long as only \<open>Stop\<close> makes the loop quit.\<close>

definition lt_inv :: "loop_thread \<Rightarrow> bool" where
  "lt_inv s \<longleftrightarrow>
     (lt_started s \<longleftrightarrow> bg s \<noteq> BgNone)
     \<and> (lt_loop s \<longleftrightarrow> bg s \<in> {BgReady, BgLooping, BgLeft})
     \<and> (lt_stopped s \<longrightarrow> lt_started s) \<and> (loop_quit s \<longrightarrow> lt_stopped s) \<and> (bg s \<in> {BgLeft, BgDone} \<longrightarrow> loop_quit s)
     \<and> (lt_thread s \<longleftrightarrow> lt_started s \<and> \<not> lt_stopped s)
     \<and> (start_woken s \<longrightarrow> owner s = StartBlocked \<and> bg s = BgLooping)
     \<and> \<not> used_freed s \<and> (\<not> lt_stopped s \<longrightarrow> False \<notin> set (start_results s))
     \<and> (start_results s \<noteq> [] \<longrightarrow> lt_started s)
     \<and> (case owner s of
          OwnerIdle \<Rightarrow> (lt_started s \<and> \<not> lt_stopped s \<longrightarrow> bg s \<in> {BgReady, BgLooping}) \<and> (lt_stopped s \<longrightarrow> bg s = BgDone)
        | StartBlocked \<Rightarrow> \<not> lt_stopped s \<and> (bg s = BgStarting \<or> bg s = BgReady \<or> bg s = BgLooping \<and> start_woken s)
        | StopAsk loop thread \<Rightarrow> loop \<and> thread \<and> lt_stopped s \<and> \<not> loop_quit s \<and> bg s \<in> {BgReady, BgLooping}
        | StopJoin thread \<Rightarrow> thread \<and> lt_stopped s \<and> loop_quit s)"

lemma lt_inv_step:
  assumes "lt_step False s ev s'" and "ev \<noteq> OtherQuit" and "lt_inv s"
  shows "lt_inv s'"
  using assms(1)
proof cases
  case lt_start
  then show ?thesis using assms(3) by (cases "bg s") (auto simp: lt_inv_def lt_op_defs)
next
  case lt_stop
  then show ?thesis using assms(3) by (cases "bg s") (auto simp: lt_inv_def lt_op_defs)
next
  case (lt_ask loop thread)
  then show ?thesis using assms(3) by (cases "bg s") (auto simp: lt_inv_def lt_op_defs)
next
  case (lt_join thread)
  then show ?thesis using assms(3) by (simp add: lt_inv_def lt_op_defs)
next
  case lt_publish
  then show ?thesis using assms(3) by (cases "owner s") (auto simp: lt_inv_def lt_op_defs)
next
  case lt_notify
  then show ?thesis using assms(3) by (cases "owner s") (auto simp: lt_inv_def lt_op_defs)
next
  case lt_leave
  then show ?thesis using assms(3) by (cases "owner s") (auto simp: lt_inv_def lt_op_defs)
next
  case lt_exit
  then show ?thesis using assms(3) by (cases "owner s") (auto simp: lt_inv_def lt_op_defs)
qed (use assms(2,3) in \<open>cases "bg s"; auto simp: lt_inv_def lt_op_defs\<close>)+

lemma lt_path_inv:
  assumes "ev_path (lt_step False) loop_thread_init es s" and "OtherQuit \<notin> set es"
  shows "lt_inv s"
proof -
  have "OtherQuit \<notin> set es \<Longrightarrow> lt_inv s"
    using assms(1)
  proof (induction loop_thread_init es s rule: ev_path.induct)
    case ev_nil
    then show ?case by (simp add: lt_inv_def loop_thread_init_def)
  next
    case (ev_snoc es s e s')
    then show ?case using lt_inv_step [of s e s'] by auto
  qed
  then show ?thesis using assms(2) by blast
qed

section \<open>Properties\<close>


definition ready_state :: loop_thread where
  "ready_state = Thread_notify (Thread_publish False (LoopThread_Start loop_thread_init))"

lemma ready_path: "ev_path (lt_step False) loop_thread_init [OwnerStart, BgStep, BgStep] ready_state"
  unfolding ready_state_def
  by (rule ev_path_Cons, rule lt_start, simp add: lt_op_defs loop_thread_init_def,
        rule ev_path_Cons, rule lt_publish, simp add: lt_op_defs loop_thread_init_def,
        rule ev_path_Cons, rule lt_notify, simp add: lt_op_defs loop_thread_init_def, rule ev_nil)

lemma ready_state_eq:
  "ready_state = \<lparr>lt_started = True, lt_stopped = False, lt_loop = True, lt_thread = True, bg = BgLooping,
     owner = StartBlocked, start_woken = True, loop_quit = False, start_results = [], used_freed = False\<rparr>"
  by (simp add: ready_state_def lt_op_defs loop_thread_init_def)


text \<open>
  A loop that is told to quit by anyone else breaks this. If the init callback makes its own loop quit,
  the thread can be done before \<open>Start\<close> looks at \<open>m_loop\<close>, which is null again by then: \<open>Start\<close> sleeps for ever, whatever
  happens later. And if other code tells the loop to quit while \<open>Stop\<close> is between its two
  critical sections, \<open>Stop\<close> uses a loop that no longer exists.
\<close>

theorem early_quit_hazards:
  "(\<exists>es s. ev_path (lt_step True) loop_thread_init es s
      \<and> \<not> (\<exists>es' s'. ev_path (lt_step True) s es' s' \<and> owner s' \<noteq> StartBlocked))
   \<and> (\<exists>es s. ev_path (lt_step False) loop_thread_init es s \<and> used_freed s)"
proof
  let ?s1 = "Thread_notify (Thread_publish True (LoopThread_Start loop_thread_init))"
  let ?s2 = "Thread_exit (?s1\<lparr>bg := BgLeft\<rparr>)"
  have "ev_path (lt_step True) loop_thread_init [OwnerStart, BgStep, BgStep, BgStep, BgStep] ?s2"
    by (rule ev_path_Cons, rule lt_start, simp add: lt_op_defs loop_thread_init_def,
        rule ev_path_Cons, rule lt_publish, simp add: lt_op_defs loop_thread_init_def,
        rule ev_path_Cons, rule lt_notify, simp add: lt_op_defs loop_thread_init_def,
        rule ev_path_Cons, rule lt_leave, simp add: lt_op_defs loop_thread_init_def, simp add: lt_op_defs loop_thread_init_def,
        rule ev_path_Cons, rule lt_exit, simp add: lt_op_defs loop_thread_init_def, rule ev_nil)
  moreover have "owner s' = StartBlocked" if "ev_path (lt_step True) ?s2 es' s'" for es' s'
  proof -
    have "owner s' = StartBlocked \<and> bg s' = BgDone \<and> \<not> lt_loop s'"
      using that
    proof (rule ev_path_invariant)
      show "owner ?s2 = StartBlocked \<and> bg ?s2 = BgDone \<and> \<not> lt_loop ?s2"
        by (simp add: lt_op_defs loop_thread_init_def)
    next
      fix a e b assume "owner a = StartBlocked \<and> bg a = BgDone \<and> \<not> lt_loop a" and "lt_step True a e b"
      from this(2) this(1) show "owner b = StartBlocked \<and> bg b = BgDone \<and> \<not> lt_loop b"
        by cases (auto simp: lt_op_defs)
    qed
    then show ?thesis by blast
  qed
  ultimately show "\<exists>es s. ev_path (lt_step True) loop_thread_init es s
      \<and> \<not> (\<exists>es' s'. ev_path (lt_step True) s es' s' \<and> owner s' \<noteq> StartBlocked)" by blast
next
  let ?s1 = "Stop_enter (Start_check ready_state)"
  let ?s2 = "Thread_exit (?s1\<lparr>loop_quit := True, bg := BgLeft\<rparr>)"
  have "ev_path (lt_step False) ready_state [OwnerWake, OwnerStop, OtherQuit, BgStep, BgStep, OwnerStep] (Stop_ask True True ?s2)"
    by (rule ev_path_Cons, rule lt_wake, simp add: lt_op_defs ready_state_eq, simp add: lt_op_defs ready_state_eq,
        rule ev_path_Cons, rule lt_stop, simp add: lt_op_defs ready_state_eq,
        rule ev_path_Cons, rule lt_other, simp add: lt_op_defs ready_state_eq,
        rule ev_path_Cons, rule lt_leave, simp add: lt_op_defs ready_state_eq, simp add: lt_op_defs ready_state_eq,
        rule ev_path_Cons, rule lt_exit, simp add: lt_op_defs ready_state_eq,
        rule ev_path_Cons, rule lt_ask, simp add: lt_op_defs ready_state_eq, rule ev_nil)
  from ev_path_append [OF this ready_path] show "\<exists>es s. ev_path (lt_step False) loop_thread_init es s \<and> used_freed s"
    by (intro exI conjI) (assumption, simp add: lt_op_defs ready_state_eq)
qed

end
