(* ===== verification/Loop_Thread_Pool.thy ===== *)
theory Loop_Thread_Pool
  imports Net_Time
begin

text \<open>
  \<open>net/event_loop_thread_pool.{h,cpp}\<close>: a number of loop threads and the choice of the next loop. How a
  thread starts is a parameter: \<open>start_thread i name\<close> is the thread object made for index \<open>i\<close> and what
  its \<open>Start\<close> returned. \<open>stop_calls\<close> records the threads that were told to stop.
\<close>

section \<open>State\<close>

record ('t, 'p) loop_pool =
  lp_thread_count :: size_t
  lp_name :: string
  lp_threads :: "'t list"
  lp_loops :: "'p list"
  lp_next_index :: size_t
  lp_started :: bool
  stop_calls :: "'t list"

definition kMinThreadCount :: nat where "kMinThreadCount = 1"

definition LoopPool_ctor :: "size_t \<Rightarrow> string \<Rightarrow> ('t, 'p) loop_pool" where
  "LoopPool_ctor thread_count name =
     \<lparr>lp_thread_count = (if thread_count = 0 then kMinThreadCount else thread_count), lp_name = name,
      lp_threads = [], lp_loops = [], lp_next_index = 0, lp_started = False, stop_calls = []\<rparr>"

definition BuildThreadName :: "string \<Rightarrow> nat \<Rightarrow> string" where
  "BuildThreadName name index =
     (if name = [] then ''io-'' @ nat_digits index else name @ ''-'' @ nat_digits index)"

section \<open>Operations\<close>

text \<open>The body of the loop in \<open>Start\<close>; a thread without a loop is destroyed again.\<close>

definition start_one ::
  "(nat \<Rightarrow> string \<Rightarrow> 't \<times> 'p option) \<Rightarrow> nat \<Rightarrow> ('t, 'p) loop_pool \<Rightarrow> ('t, 'p) loop_pool" where
  "start_one start_thread i s =
     (case start_thread i (BuildThreadName (lp_name s) i) of
        (thread, None) \<Rightarrow> s
      | (thread, Some loop) \<Rightarrow> s\<lparr>lp_loops := lp_loops s @ [loop], lp_threads := lp_threads s @ [thread]\<rparr>)"

definition LoopPool_Start ::
  "(nat \<Rightarrow> string \<Rightarrow> 't \<times> 'p option) \<Rightarrow> ('t, 'p) loop_pool \<Rightarrow> ('t, 'p) loop_pool" where
  "LoopPool_Start start_thread s =
     (if lp_started s then s
      else (let s1 = fold (start_one start_thread) [0..<lp_thread_count s]
                       (s\<lparr>lp_started := True, lp_threads := [], lp_loops := [], lp_next_index := 0\<rparr>)
            in s1\<lparr>lp_thread_count := length (lp_threads s1)\<rparr>))"

definition LoopPool_Stop :: "('t, 'p) loop_pool \<Rightarrow> ('t, 'p) loop_pool" where
  "LoopPool_Stop s =
     (if \<not> lp_started s then s
      else s\<lparr>lp_started := False, stop_calls := stop_calls s @ lp_threads s, lp_threads := [], lp_loops := [],
             lp_thread_count := 0, lp_next_index := 0\<rparr>)"

definition GetNextLoop :: "('t, 'p) loop_pool \<Rightarrow> 'p option \<times> ('t, 'p) loop_pool" where
  "GetNextLoop s =
     (if \<not> lp_started s \<or> lp_loops s = [] then (None, s)
      else (Some (lp_loops s ! (lp_next_index s mod length (lp_loops s))),
            s\<lparr>lp_next_index := sz_add (lp_next_index s) 1\<rparr>))"

definition LoopPool_GetLoop :: "size_t \<Rightarrow> ('t, 'p) loop_pool \<Rightarrow> 'p option" where
  "LoopPool_GetLoop index s = (if \<not> lp_started s \<or> index \<ge> length (lp_loops s) then None else Some (lp_loops s ! index))"

definition LoopPool_IsRunning :: "('t, 'p) loop_pool \<Rightarrow> bool" where
  "LoopPool_IsRunning s = lp_started s"

section \<open>Round robin\<close>

fun take_loops :: "('s \<Rightarrow> 'p option \<times> 's) \<Rightarrow> nat \<Rightarrow> 's \<Rightarrow> 'p option list \<times> 's" where
  "take_loops get_next 0 s = ([], s)"
| "take_loops get_next (Suc n) s =
     (case get_next s of (p, s') \<Rightarrow> case take_loops get_next n s' of (ps, s'') \<Rightarrow> (p # ps, s''))"

text \<open>Among \<open>n\<close> consecutive numbers each remainder occurs once, so among \<open>k * n\<close> it occurs \<open>k\<close> times.\<close>

lemma remainder_once:
  assumes "j < n"
  shows "length (filter (\<lambda>x. x mod n = j) [a..<a + n]) = 1"
proof (induction a)
  case 0
  have "filter (\<lambda>x. x mod n = j) [0..<n] = filter (\<lambda>x. x = j) [0..<n]" by (rule filter_cong) auto
  also have "\<dots> = [j]" using assms by (induction n) (auto simp: less_Suc_eq)
  finally show ?case by simp
next
  case (Suc a)
  have "[a..<a + n] = a # [Suc a..<a + n]" "[Suc a..<Suc a + n] = [Suc a..<a + n] @ [a + n]"
    using assms by (simp_all add: upt_conv_Cons)
  then show ?case using Suc by (auto split: if_splits)
qed

lemma remainder_share:
  assumes "j < n"
  shows "length (filter (\<lambda>i. (b + i) mod n = j) [0..<k * n]) = k"
proof (induction k)
  case (Suc k)
  have shift: "[k * n + b..<k * n + b + n] = map (\<lambda>i. b + i) [k * n..<k * n + n]"
    by (rule nth_equalityI) simp_all
  have "length (filter (\<lambda>i. (b + i) mod n = j) [k * n..<k * n + n]) = 1"
    using remainder_once [OF assms, of "k * n + b"] unfolding shift by (simp add: filter_map o_def)
  moreover have "[0..<Suc k * n] = [0..<k * n] @ [k * n..<k * n + n]"
    by (metis add.commute mult_Suc upt_add_eq_append zero_le)
  ultimately show ?case using Suc by simp
qed simp

text \<open>What a user of the pool relies on: the choice goes through the loops in turn.\<close>

locale round_robin =
  fixes get_next :: "'s \<Rightarrow> 'p option \<times> 's"
    and loops :: "'s \<Rightarrow> 'p list"
    and pos :: "'s \<Rightarrow> nat"
    and bound :: nat
    and usable :: "'s \<Rightarrow> bool"
  assumes next_some: "usable s \<Longrightarrow> pos s + 1 < bound \<Longrightarrow>
      \<exists>s'. get_next s = (Some (loops s ! (pos s mod length (loops s))), s') \<and> usable s' \<and> loops s' = loops s \<and> pos s' = pos s + 1"
    and usable_loops: "usable s \<Longrightarrow> loops s \<noteq> []"
begin

lemma taken_in_turn:
  assumes "usable s" and "pos s + n < bound"
  shows "\<exists>s'. take_loops get_next n s =
      (map (\<lambda>i. Some (loops s ! ((pos s + i) mod length (loops s)))) [0..<n], s')
    \<and> usable s' \<and> loops s' = loops s \<and> pos s' = pos s + n"
  using assms
proof (induction n arbitrary: s)
  case (Suc n)
  from next_some [OF Suc.prems(1)] Suc.prems(2) obtain s1 where s1:
    "get_next s = (Some (loops s ! (pos s mod length (loops s))), s1)" "usable s1" "loops s1 = loops s" "pos s1 = pos s + 1"
    by auto
  from Suc.IH [OF s1(2)] Suc.prems(2) s1 obtain s2 where "take_loops get_next n s1 =
      (map (\<lambda>i. Some (loops s ! (Suc (pos s + i) mod length (loops s)))) [0..<n], s2)"
    "usable s2" "loops s2 = loops s" "pos s2 = pos s + Suc n" by auto
  then show ?case using s1(1) by (simp add: upt_conv_Cons map_Suc_upt [symmetric] o_def del: upt_Suc)
qed simp

text \<open>So every loop gets its share: in \<open>k\<close> full turns it is chosen \<open>k\<close> times.\<close>

lemma equal_shares:
  assumes "usable s" and "distinct (loops s)" and "p \<in> set (loops s)" and "pos s + k * length (loops s) < bound"
  shows "length (filter (\<lambda>x. x = Some p) (fst (take_loops get_next (k * length (loops s)) s))) = k"
proof -
  let ?n = "length (loops s)"
  from assms(3) obtain j where j: "j < ?n" "loops s ! j = p" by (auto simp: in_set_conv_nth)
  have "loops s ! (i mod ?n) = p \<longleftrightarrow> i mod ?n = j" for i
    using j assms(2) by (metis mod_less_divisor nth_eq_iff_index_eq less_nat_zero_code neq0_conv)
  then have "filter (\<lambda>x. x = Some p) (map (\<lambda>i. Some (loops s ! ((pos s + i) mod ?n))) [0..<k * ?n]) =
      map (\<lambda>i. Some (loops s ! ((pos s + i) mod ?n))) (filter (\<lambda>i. (pos s + i) mod ?n = j) [0..<k * ?n])"
    by (simp add: filter_map o_def)
  then show ?thesis
    using taken_in_turn [OF assms(1,4)] remainder_share [OF j(1), of "pos s" k] by auto
qed

end

interpretation pool: round_robin GetNextLoop lp_loops lp_next_index "2 ^ 64" "\<lambda>s. lp_started s \<and> lp_loops s \<noteq> []"
  by unfold_locales (auto simp: GetNextLoop_def sz_add_def)

section \<open>Starting\<close>

lemma start_one_name [simp]: "lp_name (start_one start_thread i s) = lp_name s" "lp_started (start_one start_thread i s) = lp_started s"
  "lp_next_index (start_one start_thread i s) = lp_next_index s" "stop_calls (start_one start_thread i s) = stop_calls s"
  by (simp_all add: start_one_def split: prod.split option.split)

text \<open>What the loop of \<open>Start\<close> collects: the threads with a loop, in order.\<close>

definition started_with :: "(nat \<Rightarrow> string \<Rightarrow> 't \<times> 'p option) \<Rightarrow> string \<Rightarrow> nat \<Rightarrow> ('t \<times> 'p) list" where
  "started_with start_thread name n =
     concat (map (\<lambda>i. case start_thread i (BuildThreadName name i) of (t, None) \<Rightarrow> [] | (t, Some p) \<Rightarrow> [(t, p)]) [0..<n])"

lemma start_all:
  "fold (start_one start_thread) [0..<n] s =
     s\<lparr>lp_loops := lp_loops s @ map snd (started_with start_thread (lp_name s) n),
       lp_threads := lp_threads s @ map fst (started_with start_thread (lp_name s) n)\<rparr>"
proof (induction n)
  case (Suc n)
  then show ?case
    by (simp add: start_one_def started_with_def split: prod.split option.split)
qed (simp add: started_with_def)

section \<open>Properties\<close>

text \<open>
  Starting and stopping the pool. \<open>Start\<close> keeps the threads that came up with a loop, in order, and
  corrects the thread count; while the pool runs, \<open>GetLoop\<close> returns each of their loops and null
  beyond; a second \<open>Start\<close> changes nothing. \<open>Stop\<close> stops each of these threads exactly once and a
  second \<open>Stop\<close> none; afterwards no loop is handed out. It also sets the thread count to 0: after a
  restart the pool is running, without a single thread.
\<close>

theorem loop_pool_lifecycle:
  fixes start_thread :: "nat \<Rightarrow> string \<Rightarrow> 't \<times> 'p option" and n :: nat and name :: string
  defines "up \<equiv> started_with start_thread name (if n = 0 then 1 else n)"
  defines "s \<equiv> LoopPool_Start start_thread (LoopPool_ctor n name)"
  shows "lp_threads s = map fst up \<and> lp_loops s = map snd up \<and> lp_thread_count s = length up
    \<and> LoopPool_Start start_thread s = s
    \<and> (\<forall>i. LoopPool_GetLoop i s = (if i < length up then Some (snd (up ! i)) else None))
    \<and> stop_calls (LoopPool_Stop s) = map fst up \<and> LoopPool_Stop (LoopPool_Stop s) = LoopPool_Stop s
    \<and> GetNextLoop (LoopPool_Stop s) = (None, LoopPool_Stop s)
    \<and> LoopPool_IsRunning (LoopPool_Start start_thread (LoopPool_Stop s))
    \<and> lp_threads (LoopPool_Start start_thread (LoopPool_Stop s)) = []
    \<and> fst (GetNextLoop (LoopPool_Start start_thread (LoopPool_Stop s))) = None"
proof -
  have s: "s = \<lparr>lp_thread_count = length up, lp_name = name, lp_threads = map fst up, lp_loops = map snd up,
      lp_next_index = 0, lp_started = True, stop_calls = []\<rparr>"
    by (simp add: s_def up_def LoopPool_Start_def LoopPool_ctor_def start_all Let_def kMinThreadCount_def)
  have stop: "LoopPool_Stop s = \<lparr>lp_thread_count = 0, lp_name = name, lp_threads = [], lp_loops = [],
      lp_next_index = 0, lp_started = False, stop_calls = map fst up\<rparr>"
    by (simp add: s LoopPool_Stop_def)
  have again: "LoopPool_Start start_thread (LoopPool_Stop s) = (LoopPool_Stop s)\<lparr>lp_started := True\<rparr>"
    by (simp add: stop LoopPool_Start_def)
  show ?thesis
    unfolding again stop
    by (simp add: s LoopPool_Start_def LoopPool_Stop_def LoopPool_GetLoop_def GetNextLoop_def LoopPool_IsRunning_def)
qed

text \<open>
  C36. Connections are spread evenly: after \<open>Start\<close>, the calls of \<open>GetNextLoop\<close>, up to \<open>2 ^ 64\<close> of them, go
  through the loops in turn, the first loop first, and in any number \<open>k\<close> of full turns every
  loop is returned exactly \<open>k\<close> times.
\<close>

theorem loop_pool_round_robin:
  fixes start_thread :: "nat \<Rightarrow> string \<Rightarrow> 't \<times> 'p option" and n :: nat and name :: string
  defines "s \<equiv> LoopPool_Start start_thread (LoopPool_ctor n name)"
  assumes "lp_loops s \<noteq> []" and "m < 2 ^ 64" and "k * length (lp_loops s) < 2 ^ 64" and "distinct (lp_loops s)" and "p \<in> set (lp_loops s)"
  shows "fst (take_loops GetNextLoop m s) = map (\<lambda>i. Some (lp_loops s ! (i mod length (lp_loops s)))) [0..<m]
    \<and> length (filter (\<lambda>x. x = Some p) (fst (take_loops GetNextLoop (k * length (lp_loops s)) s))) = k"
proof -
  have u: "lp_started s \<and> lp_loops s \<noteq> []" "lp_next_index s = 0"
    using assms(2) by (simp_all add: s_def LoopPool_Start_def LoopPool_ctor_def start_all Let_def)
  then show ?thesis
    using pool.taken_in_turn [OF u(1), of m] pool.equal_shares [OF u(1) assms(5,6), of k] assms(3,4) by auto
qed

definition two_threads :: "nat \<Rightarrow> string \<Rightarrow> string \<times> nat option" where
  "two_threads i name = (name, if i = 1 then None else Some (10 + i))"

theorem loop_pool_round_robin_witness:
  "fst (take_loops GetNextLoop 5 (LoopPool_Start two_threads (LoopPool_ctor 3 ''io''))) =
     [Some 10, Some 12, Some 10, Some 12, Some 10]"
proof -
  have l: "lp_loops (LoopPool_Start two_threads (LoopPool_ctor 3 ''io'')) = [10, 12]"
    by (simp add: LoopPool_Start_def LoopPool_ctor_def Let_def start_one_def two_threads_def upt_rec)
  have "[0..<5] = [0, 1, 2, 3, 4 :: nat]" by (simp add: upt_rec)
  with loop_pool_round_robin [of two_threads 3 "''io''" 5 2 10, unfolded l] show ?thesis
    by (simp flip: numeral_2_eq_2)
qed

end
