(* ===== verification/Tcp_Server.thy ===== *)
theory Tcp_Server
  imports Tcp_Connection Loop_Thread_Pool Inet_Address "HOL-Library.Char_ord" "HOL-Library.List_Lexorder"
begin

text \<open>
  \<open>net/transport/tcp_server.{h,cpp}\<close>: the server, its connections and the loops they live on. Loop 0 is
  the main loop, the others are the loops of the worker pool. A connection is reduced to its
  life cycle (name, loop, state, whether \<open>ConnectDestroyed\<close> has run), the acceptor to whether it
  exists and listens. What one loop asks of another goes through that loop's queue of functors;
  a step is one functor, one accepted connection or one event of a connection, so that all
  interleavings of the loops are sequences of steps.
\<close>

section \<open>State\<close>

type_synonym loop_id = nat
type_synonym conn_ptr = nat

datatype srv_fn =
    SfStart
  | SfStop
  | SfRemove conn_ptr
  | SfEstablish conn_ptr
  | SfForceClose conn_ptr
  | SfDestroy conn_ptr
  | SfQuit

text \<open>The callbacks the application sets, each one named by a number, and the high-water mark. They are handed to every
  new connection.\<close>

record conn_cbs =
  cb_connection :: "nat option"
  cb_message :: "nat option"
  cb_write_complete :: "nat option"
  cb_high_water :: "nat option"
  cb_high_water_mark :: nat

record conn_obj =
  co_id :: int
  co_name :: string
  co_loop :: loop_id
  co_state :: conn_state
  co_removed :: bool
  co_cbs :: conn_cbs

text \<open>\<open>sv_acceptor\<close> is \<open>None\<close> for a null \<open>m_acceptor\<close>, otherwise whether it listens. \<open>sv_joining\<close> has the loops that
  \<open>EventLoopThreadPool::Stop\<close>, running in the main loop, still has to stop and join, the first one first.
  \<open>sv_quitting\<close> has the loops that were told to quit, \<open>sv_exited\<close> those that have ended.\<close>

record server =
  sv_name :: string
  sv_listen_addr :: inet_address
  sv_thread_num :: nat
  sv_acceptor :: "bool option"
  sv_pool :: "(loop_id, loop_id) loop_pool option"
  sv_connections :: "(string \<times> conn_ptr) list"
  sv_next_conn_id :: int
  sv_started :: bool
  sv_stop_complete :: bool
  sv_conns :: "conn_ptr \<rightharpoonup> conn_obj"
  sv_queues :: "loop_id \<Rightarrow> srv_fn list"
  sv_joining :: "loop_id list option"
  sv_quitting :: "loop_id set"
  sv_exited :: "loop_id set"
  sv_closed_fds :: "int list"
  sv_cbs :: conn_cbs

section \<open>The connection table\<close>

text \<open>\<open>std::map\<close> keyed by the connection's name, in the order of the keys.\<close>

fun map_put :: "string \<Rightarrow> 'v \<Rightarrow> (string \<times> 'v) list \<Rightarrow> (string \<times> 'v) list" where
  "map_put k v [] = [(k, v)]"
| "map_put k v ((k', v') # xs) =
     (if k = k' then (k, v) # xs else if k < k' then (k, v) # (k', v') # xs else (k', v') # map_put k v xs)"

definition map_erase :: "string \<Rightarrow> (string \<times> 'v) list \<Rightarrow> (string \<times> 'v) list" where
  "map_erase k xs = filter (\<lambda>(k', _). k' \<noteq> k) xs"

lemma map_of_put [simp]: "map_of (map_put k v xs) = (map_of xs)(k \<mapsto> v)"
  by (induction k v xs rule: map_put.induct) (auto simp: fun_eq_iff)

lemma map_of_erase [simp]: "map_of (map_erase k xs) = (map_of xs)(k := None)"
  by (induction xs) (auto simp: map_erase_def fun_eq_iff)

lemma set_map_erase: "set (map_erase k xs) \<subseteq> set xs"
  by (auto simp: map_erase_def)

lemma set_map_put: "set (map_put k v xs) \<subseteq> insert (k, v) (set xs)"
  by (induction k v xs rule: map_put.induct) auto

lemma map_put_not_Nil [simp]: "map_put k v xs \<noteq> []"
  by (induction k v xs rule: map_put.induct) auto

definition conn_name :: "string \<Rightarrow> string \<Rightarrow> int \<Rightarrow> bool \<Rightarrow> string" where
  "conn_name name peer conn_id on_main =
     (if name = [] then ''conn'' else name) @ ''-'' @ peer @ ''#'' @ int_digits conn_id @ ''@''
       @ (if on_main then ''main'' else ''worker'')"

section \<open>Queues\<close>

definition queue_fn :: "loop_id \<Rightarrow> srv_fn \<Rightarrow> server \<Rightarrow> server" where
  "queue_fn l f s = s\<lparr>sv_queues := (sv_queues s)(l := sv_queues s l @ [f])\<rparr>"

text \<open>\<open>RunInLoop\<close>: called in loop \<open>cur\<close> for loop \<open>l\<close>.\<close>

definition run_in_loop :: "loop_id \<Rightarrow> loop_id \<Rightarrow> srv_fn \<Rightarrow> (server \<Rightarrow> server res) \<Rightarrow> server \<Rightarrow> server res" where
  "run_in_loop cur l f now s = (if cur = l then now s else Inr (queue_fn l f s))"

definition with_conn :: "conn_ptr \<Rightarrow> server \<Rightarrow> (conn_obj \<Rightarrow> 'a res) \<Rightarrow> 'a res" where
  "with_conn c s k = (case sv_conns s c of None \<Rightarrow> Inl UseAfterFree | Some co \<Rightarrow> k co)"

definition put_conn :: "conn_ptr \<Rightarrow> conn_obj \<Rightarrow> server \<Rightarrow> server" where
  "put_conn c co s = s\<lparr>sv_conns := (sv_conns s)(c \<mapsto> co)\<rparr>"

section \<open>The life cycle of a connection\<close>

text \<open>What the operations of \<open>TcpConnection\<close> the server relies on do to the state; \<open>None\<close> is a failed
  assertion. \<open>ConnectDestroyed\<close> asserts nothing itself, but it removes the channel, which must have
  no events left: in \<open>kDisconnecting\<close> it still has some, in \<open>kConnecting\<close> there is no channel to remove.\<close>

definition life_establish :: "conn_state \<Rightarrow> conn_state option" where
  "life_establish st = (if st = kConnecting then Some kConnected else None)"

definition life_close :: "conn_state \<Rightarrow> conn_state option" where
  "life_close st = (if st = kConnected \<or> st = kDisconnecting then Some kDisconnected else None)"

definition life_destroy :: "conn_state \<Rightarrow> conn_state option" where
  "life_destroy st =
     (if st = kConnected then Some kDisconnected else if st = kDisconnecting then None else Some st)"

definition life_shutdown :: "conn_state \<Rightarrow> conn_state" where
  "life_shutdown st = (if st = kConnected then kDisconnecting else st)"

section \<open>Stopping the pool\<close>

text \<open>\<open>EventLoopThreadPool::Stop\<close> stops and joins one thread after the other.\<close>

definition join_next :: "loop_id list \<Rightarrow> server \<Rightarrow> server" where
  "join_next ls s =
     (case ls of
        [] \<Rightarrow> s\<lparr>sv_joining := None, sv_pool := None, sv_stop_complete := True\<rparr>
      | l # _ \<Rightarrow> queue_fn l SfQuit (s\<lparr>sv_joining := Some ls\<rparr>))"

definition StopThreadPoolInLoop :: "server \<Rightarrow> server" where
  "StopThreadPoolInLoop s =
     (case sv_pool s of
        None \<Rightarrow> s\<lparr>sv_stop_complete := True\<rparr>
      | Some pool \<Rightarrow> join_next (lp_loops pool) s)"

section \<open>Connections\<close>

definition Srv_ConnectDestroyed :: "conn_ptr \<Rightarrow> server \<Rightarrow> server res" where
  "Srv_ConnectDestroyed c s = with_conn c s (\<lambda>co.
     case life_destroy (co_state co) of
       None \<Rightarrow> Inl AssertionFailed
     | Some st \<Rightarrow> Inr (put_conn c (co\<lparr>co_state := st, co_removed := True\<rparr>) s))"

definition RemoveConnectionInLoop :: "conn_ptr \<Rightarrow> server \<Rightarrow> server res" where
  "RemoveConnectionInLoop c s = with_conn c s (\<lambda>co.
     rbind (run_in_loop 0 (co_loop co) (SfDestroy c) (Srv_ConnectDestroyed c)
              (s\<lparr>sv_connections := map_erase (co_name co) (sv_connections s)\<rparr>)) (\<lambda>s.
       Inr (if sv_connections s = [] \<and> \<not> sv_started s then StopThreadPoolInLoop s else s)))"

definition RemoveConnection :: "loop_id \<Rightarrow> conn_ptr \<Rightarrow> server \<Rightarrow> server res" where
  "RemoveConnection cur c s = run_in_loop cur 0 (SfRemove c) (RemoveConnectionInLoop c) s"

text \<open>\<open>HandleClose\<close> of a connection, whose close callback is \<open>RemoveConnection\<close>.\<close>

definition Srv_HandleClose :: "loop_id \<Rightarrow> conn_ptr \<Rightarrow> server \<Rightarrow> server res" where
  "Srv_HandleClose cur c s = with_conn c s (\<lambda>co.
     case life_close (co_state co) of
       None \<Rightarrow> Inl AssertionFailed
     | Some st \<Rightarrow> RemoveConnection cur c (put_conn c (co\<lparr>co_state := st\<rparr>) s))"

definition Srv_ForceCloseInLoop :: "loop_id \<Rightarrow> conn_ptr \<Rightarrow> server \<Rightarrow> server res" where
  "Srv_ForceCloseInLoop cur c s = with_conn c s (\<lambda>co.
     if life_close (co_state co) \<noteq> None then Srv_HandleClose cur c s else Inr s)"

definition Srv_ForceClose :: "conn_ptr \<Rightarrow> server \<Rightarrow> server res" where
  "Srv_ForceClose c s = with_conn c s (\<lambda>co.
     if life_close (co_state co) \<noteq> None
     then run_in_loop 0 (co_loop co) (SfForceClose c) (Srv_ForceCloseInLoop 0 c) s
     else Inr s)"

definition Srv_ConnectEstablished :: "conn_ptr \<Rightarrow> server \<Rightarrow> server res" where
  "Srv_ConnectEstablished c s = with_conn c s (\<lambda>co.
     case life_establish (co_state co) of
       None \<Rightarrow> Inl AssertionFailed
     | Some st \<Rightarrow> Inr (put_conn c (co\<lparr>co_state := st\<rparr>) s))"

text \<open>\<open>NewConnection\<close>: \<open>c\<close> is the address of the new object, \<open>sockname_ok\<close> whether \<open>getsockname\<close> succeeds. The
  counter is an atomic \<open>int\<close>.\<close>

definition next_io_loop :: "server \<Rightarrow> loop_id \<times> server" where
  "next_io_loop s =
     (case sv_pool s of
        None \<Rightarrow> (0, s)
      | Some pool \<Rightarrow>
          (case GetNextLoop pool of
             (None, pool') \<Rightarrow> (0, s\<lparr>sv_pool := Some pool'\<rparr>)
           | (Some l, pool') \<Rightarrow> (l, s\<lparr>sv_pool := Some pool'\<rparr>)))"

text \<open>The callbacks a connection gets: the high-water mark is passed on only together with a callback.\<close>

definition default_cbs :: conn_cbs where
  "default_cbs = \<lparr>cb_connection = None, cb_message = None, cb_write_complete = None, cb_high_water = None,
     cb_high_water_mark = 64 * 1024\<rparr>"

definition given_cbs :: "conn_cbs \<Rightarrow> conn_cbs" where
  "given_cbs cbs =
     (if cb_high_water cbs \<noteq> None then cbs
      else cbs\<lparr>cb_high_water_mark := cb_high_water_mark default_cbs\<rparr>)"

definition int_inc :: "int \<Rightarrow> int" where
  "int_inc i = (if i = 2 ^ 31 - 1 then - (2 ^ 31) else i + 1)"

definition NewConnection :: "conn_ptr \<Rightarrow> int \<Rightarrow> string \<Rightarrow> bool \<Rightarrow> server \<Rightarrow> server res" where
  "NewConnection c sockfd peer sockname_ok s =
     cpp_assert (sockfd \<ge> 0)
       (case next_io_loop s of (l, s) \<Rightarrow>
          if \<not> sockname_ok then Inr (s\<lparr>sv_closed_fds := sv_closed_fds s @ [sockfd]\<rparr>)
          else (let conn_id = sv_next_conn_id s;
                    nm = conn_name (sv_name s) peer conn_id (l = 0);
                    s1 = put_conn c \<lparr>co_id = conn_id, co_name = nm, co_loop = l, co_state = kConnecting, co_removed = False,
                                       co_cbs = given_cbs (sv_cbs s)\<rparr>
                           (s\<lparr>sv_next_conn_id := int_inc conn_id,
                              sv_connections := map_put nm c (sv_connections s)\<rparr>)
                in run_in_loop 0 l (SfEstablish c) (Srv_ConnectEstablished c) s1))"

section \<open>Start and Stop\<close>

definition TcpServer_ctor :: "string \<Rightarrow> inet_address \<Rightarrow> server" where
  "TcpServer_ctor name listen_addr =
     \<lparr>sv_name = name, sv_listen_addr = listen_addr, sv_thread_num = 0, sv_acceptor = Some False, sv_pool = None, sv_connections = [],
      sv_next_conn_id = 1, sv_started = False, sv_stop_complete = True, sv_conns = Map.empty,
      sv_queues = (\<lambda>_. []), sv_joining = None, sv_quitting = {}, sv_exited = {}, sv_closed_fds = [],
      sv_cbs = default_cbs\<rparr>"

text \<open>The setters, which may be called at any time and have an effect on later connections only.\<close>

definition Srv_SetConnectionCallback :: "nat option \<Rightarrow> server \<Rightarrow> server" where
  "Srv_SetConnectionCallback cb s = s\<lparr>sv_cbs := (sv_cbs s)\<lparr>cb_connection := cb\<rparr>\<rparr>"

definition Srv_SetMessageCallback :: "nat option \<Rightarrow> server \<Rightarrow> server" where
  "Srv_SetMessageCallback cb s = s\<lparr>sv_cbs := (sv_cbs s)\<lparr>cb_message := cb\<rparr>\<rparr>"

definition Srv_SetWriteCompleteCallback :: "nat option \<Rightarrow> server \<Rightarrow> server" where
  "Srv_SetWriteCompleteCallback cb s = s\<lparr>sv_cbs := (sv_cbs s)\<lparr>cb_write_complete := cb\<rparr>\<rparr>"

definition Srv_SetHighWaterMarkCallback :: "nat option \<Rightarrow> nat \<Rightarrow> server \<Rightarrow> server" where
  "Srv_SetHighWaterMarkCallback cb high_water_mark s =
     s\<lparr>sv_cbs := (sv_cbs s)\<lparr>cb_high_water_mark := high_water_mark, cb_high_water := cb\<rparr>\<rparr>"

datatype srv_setter =
    SetConnectionCb "nat option"
  | SetMessageCb "nat option"
  | SetWriteCompleteCb "nat option"
  | SetHighWaterMarkCb "nat option" nat

fun srv_set :: "srv_setter \<Rightarrow> server \<Rightarrow> server" where
  "srv_set (SetConnectionCb cb) s = Srv_SetConnectionCallback cb s"
| "srv_set (SetMessageCb cb) s = Srv_SetMessageCallback cb s"
| "srv_set (SetWriteCompleteCb cb) s = Srv_SetWriteCompleteCallback cb s"
| "srv_set (SetHighWaterMarkCb cb mark) s = Srv_SetHighWaterMarkCallback cb mark s"

definition SetThreadNum :: "nat \<Rightarrow> server \<Rightarrow> server" where
  "SetThreadNum n s = (if sv_started s then s else s\<lparr>sv_thread_num := n\<rparr>)"

text \<open>\<open>StartInLoop\<close>: \<open>start_thread\<close> is what the threads of the pool do, \<open>listened\<close> the address the acceptor listens on if \<open>Listen\<close>
  succeeds. An acceptor that listens already keeps the address that was stored then. A
  pool left over from an earlier attempt is stopped when it is replaced; it has no connections.\<close>

definition start_pool :: "(nat \<Rightarrow> string \<Rightarrow> loop_id \<times> loop_id option) \<Rightarrow> server \<Rightarrow> server" where
  "start_pool start_thread s =
     (if sv_thread_num s > 0
      then s\<lparr>sv_pool := Some (LoopPool_Start start_thread
                (LoopPool_ctor (sv_thread_num s) ((if sv_name s = [] then ''tcp-server'' else sv_name s) @ ''-worker''))),
             sv_exited := sv_exited s \<union> (case sv_pool s of None \<Rightarrow> {} | Some old \<Rightarrow> set (lp_loops old))\<rparr>
      else s)"

definition StartInLoop :: "(nat \<Rightarrow> string \<Rightarrow> loop_id \<times> loop_id option) \<Rightarrow> inet_address option \<Rightarrow> server \<Rightarrow> server res" where
  "StartInLoop start_thread listened s =
     (if sv_started s then Inr s
      else (let s = start_pool start_thread s
            in case sv_acceptor s of
                 None \<Rightarrow> Inl NullDeref
               | Some listening \<Rightarrow>
                   if \<not> listening \<and> listened = None then Inr s
                   else Inr (s\<lparr>sv_acceptor := Some True,
                               sv_listen_addr := (if listening then sv_listen_addr s else the listened),
                               sv_started := True, sv_stop_complete := False\<rparr>)))"

fun force_close_all :: "conn_ptr list \<Rightarrow> server \<Rightarrow> server res" where
  "force_close_all [] s = Inr s"
| "force_close_all (c # cs) s = rbind (Srv_ForceClose c s) (force_close_all cs)"

definition StopInLoop :: "server \<Rightarrow> server res" where
  "StopInLoop s =
     (if \<not> sv_started s then Inr s
      else (let s = s\<lparr>sv_started := False, sv_acceptor := None\<rparr>
            in if sv_connections s = [] then Inr (StopThreadPoolInLoop s)
               else force_close_all (map snd (sv_connections s)) (s\<lparr>sv_stop_complete := False\<rparr>)))"

text \<open>The public calls, in the main loop or elsewhere.\<close>

definition TcpServer_Start ::
  "bool \<Rightarrow> (nat \<Rightarrow> string \<Rightarrow> loop_id \<times> loop_id option) \<Rightarrow> inet_address option \<Rightarrow> server \<Rightarrow> server res" where
  "TcpServer_Start in_loop start_thread listened s =
     (if \<not> sv_started s
      then (if in_loop then StartInLoop start_thread listened s else Inr (queue_fn 0 SfStart s))
      else Inr s)"

definition TcpServer_Stop :: "bool \<Rightarrow> server \<Rightarrow> server res" where
  "TcpServer_Stop in_loop s =
     (if sv_started s then (if in_loop then StopInLoop s else Inr (queue_fn 0 SfStop s)) else Inr s)"

text \<open>The destructor: after this call the object is gone, whatever is still queued.\<close>

definition TcpServer_dtor :: "bool \<Rightarrow> server \<Rightarrow> server res" where
  "TcpServer_dtor in_loop s = TcpServer_Stop in_loop s"

definition Srv_IsRunning :: "server \<Rightarrow> bool" where
  "Srv_IsRunning s = sv_started s"

definition IsFullyStopped :: "server \<Rightarrow> bool" where
  "IsFullyStopped s = sv_stop_complete s"

section \<open>Steps\<close>

text \<open>One functor in loop \<open>l\<close>. A quit request is \<open>RunInLoop\<close> of \<open>Quit\<close>, so it is a functor too.\<close>

type_synonym thread_starter = "nat \<Rightarrow> string \<Rightarrow> loop_id \<times> loop_id option"

fun run_fn :: "loop_id \<Rightarrow> thread_starter \<Rightarrow> inet_address option \<Rightarrow> srv_fn \<Rightarrow> server \<Rightarrow> server res" where
  "run_fn l start_thread listened SfStart s = StartInLoop start_thread listened s"
| "run_fn l start_thread listened SfStop s = StopInLoop s"
| "run_fn l start_thread listened (SfRemove c) s = RemoveConnectionInLoop c s"
| "run_fn l start_thread listened (SfEstablish c) s = Srv_ConnectEstablished c s"
| "run_fn l start_thread listened (SfForceClose c) s = Srv_ForceCloseInLoop l c s"
| "run_fn l start_thread listened (SfDestroy c) s = Srv_ConnectDestroyed c s"
| "run_fn l start_thread listened SfQuit s = Inr (s\<lparr>sv_quitting := insert l (sv_quitting s)\<rparr>)"

definition pop_fn :: "loop_id \<Rightarrow> server \<Rightarrow> server" where
  "pop_fn l s = s\<lparr>sv_queues := (sv_queues s)(l := tl (sv_queues s l))\<rparr>"

definition Srv_ShutdownInLoop :: "conn_ptr \<Rightarrow> server \<Rightarrow> server res" where
  "Srv_ShutdownInLoop c s = with_conn c s (\<lambda>co. Inr (put_conn c (co\<lparr>co_state := life_shutdown (co_state co)\<rparr>) s))"

text \<open>The calls of the application (\<open>EvStart\<close>, \<open>EvStop\<close>, \<open>EvSetThreadNum\<close>, \<open>EvSetCallback\<close>, with whether they are made in the main
  loop), the functors, the end of a loop that was told to quit and of the wait for it, an
  accepted connection, and a connection that is shut down or closes by itself.\<close>

datatype srv_ev =
    EvStart bool thread_starter "inet_address option"
  | EvStop bool
  | EvSetThreadNum nat
  | EvSetCallback srv_setter
  | EvRun loop_id thread_starter "inet_address option"
  | EvExit loop_id
  | EvJoined
  | EvAccept conn_ptr int string bool
  | EvShutdown conn_ptr
  | EvClose conn_ptr

fun srv_do :: "srv_ev \<Rightarrow> server \<Rightarrow> server res" where
  "srv_do (EvStart in_loop start_thread listened) s = TcpServer_Start in_loop start_thread listened s"
| "srv_do (EvStop in_loop) s = TcpServer_Stop in_loop s"
| "srv_do (EvSetThreadNum n) s = Inr (SetThreadNum n s)"
| "srv_do (EvSetCallback setter) s = Inr (srv_set setter s)"
| "srv_do (EvRun l start_thread listened) s = run_fn l start_thread listened (hd (sv_queues s l)) (pop_fn l s)"
| "srv_do (EvExit l) s = Inr (s\<lparr>sv_exited := insert l (sv_exited s)\<rparr>)"
| "srv_do EvJoined s = Inr (join_next (tl (the (sv_joining s))) s)"
| "srv_do (EvAccept c sockfd peer sockname_ok) s = NewConnection c sockfd peer sockname_ok s"
| "srv_do (EvShutdown c) s = Srv_ShutdownInLoop c s"
| "srv_do (EvClose c) s = Srv_HandleClose (co_loop (the (sv_conns s c))) c s"

text \<open>What can happen in a state. A loop that has ended, and the main loop while it waits in
  \<open>Join\<close>, do nothing. The loops a pool gets are new, and different from each other.\<close>

definition alive :: "loop_id \<Rightarrow> server \<Rightarrow> bool" where
  "alive l s \<longleftrightarrow> (if l = 0 then sv_joining s = None else l \<notin> sv_exited s)"

definition new_loops :: "thread_starter \<Rightarrow> server \<Rightarrow> bool" where
  "new_loops start_thread s \<longleftrightarrow>
     (let ls = (case sv_pool (start_pool start_thread s) of None \<Rightarrow> [] | Some pool \<Rightarrow> lp_loops pool)
      in distinct ls \<and> (\<forall>l \<in> set ls. l \<noteq> 0 \<and> l \<notin> sv_quitting s \<and> l \<notin> sv_exited (start_pool start_thread s)))"

definition conn_open :: "conn_ptr \<Rightarrow> server \<Rightarrow> bool" where
  "conn_open c s \<longleftrightarrow>
     (case sv_conns s c of
        None \<Rightarrow> False
      | Some co \<Rightarrow> life_close (co_state co) \<noteq> None \<and> alive (co_loop co) s)"

fun srv_enabled :: "srv_ev \<Rightarrow> server \<Rightarrow> bool" where
  "srv_enabled (EvStart in_loop start_thread listened) s \<longleftrightarrow>
     (in_loop \<longrightarrow> alive 0 s \<and> (sv_started s \<or> new_loops start_thread s))"
| "srv_enabled (EvStop in_loop) s \<longleftrightarrow> (in_loop \<longrightarrow> alive 0 s)"
| "srv_enabled (EvSetThreadNum n) s \<longleftrightarrow> True"
| "srv_enabled (EvSetCallback setter) s \<longleftrightarrow> True"
| "srv_enabled (EvRun l start_thread listened) s \<longleftrightarrow>
     alive l s \<and> sv_queues s l \<noteq> [] \<and> (hd (sv_queues s l) = SfStart \<longrightarrow> sv_started s \<or> new_loops start_thread s)"
| "srv_enabled (EvExit l) s \<longleftrightarrow> l \<in> sv_quitting s \<and> l \<notin> sv_exited s"
| "srv_enabled EvJoined s \<longleftrightarrow> (case sv_joining s of Some (l # _) \<Rightarrow> l \<in> sv_exited s | _ \<Rightarrow> False)"
| "srv_enabled (EvAccept c sockfd peer sockname_ok) s \<longleftrightarrow>
     alive 0 s \<and> sv_acceptor s = Some True \<and> sockfd \<ge> 0 \<and> sv_conns s c = None"
| "srv_enabled (EvShutdown c) s \<longleftrightarrow> conn_open c s"
| "srv_enabled (EvClose c) s \<longleftrightarrow> conn_open c s"

inductive srv_step :: "server \<Rightarrow> srv_ev \<Rightarrow> server \<Rightarrow> bool" where
  srv_stepI: "srv_enabled e s \<Longrightarrow> srv_do e s = Inr s' \<Longrightarrow> srv_step s e s'"

inductive_cases srv_stepE: "srv_step s e s'"

text \<open>The loops have come to rest: no functor can run, no loop can end, no wait is over.\<close>

definition srv_quiet :: "server \<Rightarrow> bool" where
  "srv_quiet s \<longleftrightarrow> (\<forall>l. alive l s \<longrightarrow> sv_queues s l = []) \<and> sv_quitting s \<subseteq> sv_exited s \<and> \<not> srv_enabled EvJoined s"

section \<open>The life cycle is that of the connection\<close>

text \<open>The callbacks of the application leave the state of the connection alone.\<close>

definition steady :: "'u user_cb \<Rightarrow> bool" where
  "steady user \<longleftrightarrow> (\<forall>ev s. conn_inv s \<longrightarrow> (\<exists>s'. user ev s = Inr s' \<and> conn_inv s' \<and> tc_state s' = tc_state s))"

text \<open>\<open>ends_in r st\<close>: the operation fails an assertion if \<open>st\<close> is \<open>None\<close>, otherwise it leaves a connection in order in that state.\<close>

definition ends_in :: "'u conn_sys res \<Rightarrow> conn_state option \<Rightarrow> bool" where
  "ends_in r st \<longleftrightarrow>
     (case st of None \<Rightarrow> r = Inl AssertionFailed | Some st' \<Rightarrow> \<exists>s'. r = Inr s' \<and> conn_inv s' \<and> tc_state s' = st')"

lemma steady_user_ok: "steady user \<Longrightarrow> user_ok user"
  unfolding steady_def user_ok_def by (metis order_refl)

lemma steady_run:
  assumes "steady user" and "conn_inv s"
  shows "ends_in (run_user has ev user s) (Some (tc_state s))"
  using assms by (auto simp: steady_def run_user_def ends_in_def)

lemma ConnectEstablished_life:
  assumes "steady user" and "conn_inv s"
  shows "ends_in (ConnectEstablished self user s) (life_establish (tc_state s))"
proof (cases "tc_state s = kConnecting")
  case True
  with assms(2) obtain s1 where s1: "ConnectEstablished self user s = run_user (tc_has_connection_cb s) EvConnection user s1"
    "conn_inv s1" "tc_state s1 = kConnected" by (rule ConnectEstablished_opens)
  then show ?thesis using steady_run [OF assms(1) s1(2)] True by (simp add: life_establish_def)
qed (simp add: ends_in_def life_establish_def ConnectEstablished_def)

lemma HandleClose_life:
  assumes "steady user" and "conn_inv s"
  shows "ends_in (HandleClose user s) (life_close (tc_state s))"
  using HandleClose_ok [OF steady_user_ok [OF assms(1)] assms(2)]
  by (cases "is_open (tc_state s)") (auto simp: ends_in_def life_close_def is_open_def HandleClose_def)

lemma ConnectDestroyed_life:
  assumes "steady user" and "conn_inv s"
  shows "ends_in (ConnectDestroyed user s) (life_destroy (tc_state s))"
proof (cases "tc_state s")
  case kConnecting
  then show ?thesis
    using assms(2)
    by (elim conn_invE) (auto simp: ends_in_def life_destroy_def ConnectDestroyed_def with_channel_def chan_inv_def kNew_def assms(2))
next
  case kDisconnecting
  then show ?thesis using ConnectDestroyed_disconnecting [OF assms(2)] by (simp add: ends_in_def life_destroy_def)
next
  case kDisconnected
  then show ?thesis
    using ConnectDestroyed_ok [OF steady_user_ok [OF assms(1)] assms(2)] unfolding kDisconnected rank_final
    by (auto simp: ends_in_def life_destroy_def)
next
  case kConnected
  then have "is_open (tc_state s)" by (simp add: is_open_def)
  with assms(2) obtain s1 where s1: "on_channel DisableAll (s\<lparr>tc_state := kDisconnected\<rparr>) = Inr s1"
    "conn_inv s1" "tc_state s1 = kDisconnected" by (rule close_channel)
  from steady_run [OF assms(1) s1(2)] obtain s2 where s2: "run_user (tc_has_connection_cb s1) EvConnection user s1 = Inr s2"
    "conn_inv s2" "tc_state s2 = kDisconnected" using s1(3) by (fastforce simp: ends_in_def)
  show ?thesis
    using kConnected s1(1) s2 ConnectDestroyed_closed [OF s2(2,3)]
    by (auto simp: ConnectDestroyed_def ends_in_def life_destroy_def)
qed

text \<open>
  C18. The life cycle the server model gives a connection is that of \<open>TcpConnection\<close>. For a connection in order and callbacks
  that leave its state alone, \<open>ConnectEstablished\<close>, \<open>HandleClose\<close> and \<open>ConnectDestroyed\<close> fail an assertion in exactly the states
  in which the life cycle says so, and otherwise end, in order, in the state it says;
  \<open>ForceCloseInLoop\<close> closes exactly the connections that can be closed and leaves the others as they are, and
  \<open>ShutdownInLoop\<close> of an open connection does what the life cycle says.
\<close>

theorem life_cycle_refined:
  assumes "steady user" and "conn_inv s"
  shows "ends_in (ConnectEstablished self user s) (life_establish (tc_state s))
    \<and> ends_in (HandleClose user s) (life_close (tc_state s))
    \<and> (if life_close (tc_state s) = None then ForceCloseInLoop user s = Inr s
       else ends_in (ForceCloseInLoop user s) (life_close (tc_state s)))
    \<and> ends_in (ConnectDestroyed user s) (life_destroy (tc_state s))
    \<and> (life_close (tc_state s) \<noteq> None \<longrightarrow> ends_in (ShutdownInLoop s) (Some (life_shutdown (tc_state s))))"
proof (intro conjI impI)
  show "ends_in (ConnectEstablished self user s) (life_establish (tc_state s))" by (rule ConnectEstablished_life [OF assms])
  show close: "ends_in (HandleClose user s) (life_close (tc_state s))" by (rule HandleClose_life [OF assms])
  show "ends_in (ConnectDestroyed user s) (life_destroy (tc_state s))" by (rule ConnectDestroyed_life [OF assms])
  show "if life_close (tc_state s) = None then ForceCloseInLoop user s = Inr s
       else ends_in (ForceCloseInLoop user s) (life_close (tc_state s))"
    using close by (auto simp: ForceCloseInLoop_def life_close_def)
  assume "life_close (tc_state s) \<noteq> None"
  then have op: "is_open (tc_state s)" by (simp add: life_close_def is_open_def split: if_splits)
  show "ends_in (ShutdownInLoop s) (Some (life_shutdown (tc_state s)))"
    using ShutdownInLoop_eq [OF assms(2) op] ShutdownInLoop_inv [OF assms(2) op] op
    by (auto simp: ends_in_def life_shutdown_def is_open_def)
qed

theorem life_cycle_refined_witness:
  "\<exists>s'. HandleClose (\<lambda>_ s. Inr s) (sample_conn kConnected buf10) = Inr s' \<and> conn_inv s' \<and> tc_state s' = kDisconnected"
proof -
  have "steady (\<lambda>_ s. Inr s)" by (simp add: steady_def)
  moreover have "conn_inv (sample_conn kConnected buf10)" by (rule sample_conn_inv) (simp_all add: buf10_facts is_open_def)
  ultimately have "ends_in (HandleClose (\<lambda>_ s. Inr s) (sample_conn kConnected buf10)) (life_close (tc_state (sample_conn kConnected buf10)))"
    using life_cycle_refined by blast
  moreover have "tc_state (sample_conn kConnected buf10) = kConnected" by (simp add: sample_conn_def)
  ultimately show ?thesis by (simp add: ends_in_def life_close_def)
qed

end
