(* ===== verification/Server_Lifecycle.thy ===== *)
theory Server_Lifecycle
  imports Tcp_Server
begin

text \<open>
  The life of a server over all interleavings of its loops: the invariant of the connection
  table, the queues and the shutdown of the pool, that every step keeps it and none fails, and
  what \<open>Stop\<close> achieves.
\<close>

section \<open>Connection names\<close>

lemma split_at_sep:
  assumes "xs @ a # ys = xs' @ a # ys'" and "a \<notin> set xs" and "a \<notin> set xs'"
  shows "xs = xs' \<and> ys = ys'"
  using assms
proof (induction xs arbitrary: xs')
  case Nil
  then show ?case by (cases xs') auto
next
  case (Cons x xs)
  then show ?case by (cases xs') auto
qed

lemma is_digit_not_sep: "is_digit c \<Longrightarrow> c \<noteq> CHR ''#'' \<and> c \<noteq> CHR ''-''"
  by (auto simp: is_digit_def)

lemma int_digits_inj: "int_digits i = int_digits j \<Longrightarrow> i = j"
proof -
  have neg: "CHR ''-'' \<notin> set (nat_digits n)" for n
    using nat_digits_are_digits [of n] is_digit_not_sep by (auto simp: list_all_iff)
  have inj: "nat_digits m = nat_digits n \<Longrightarrow> m = n" for m n
    by (metis nat_digits_val)
  assume "int_digits i = int_digits j"
  then show ?thesis
    using neg [of "nat i"] neg [of "nat j"] inj [of "nat i" "nat j"] inj [of "nat (- i)" "nat (- j)"]
    by (auto simp: int_digits_def split: if_splits) (metis list.set_intros(1))+
qed

lemma hash_not_in_int_digits: "CHR ''#'' \<notin> set (int_digits i)"
  using nat_digits_are_digits [of "nat i"] nat_digits_are_digits [of "nat (- i)"] is_digit_not_sep
  by (auto simp: int_digits_def list_all_iff)

text \<open>Whatever the address of the peer looks like, the number of a connection can be read off
  its name.\<close>

lemma conn_name_inj:
  assumes "conn_name name peer i m = conn_name name' peer' j n"
  shows "i = j"
proof -
  let ?side = "\<lambda>m. rev (if m then ''main'' else ''worker'')"
  have "?side m @ CHR ''@'' # rev (int_digits i) @ CHR ''#'' # rev ((if name = [] then ''conn'' else name) @ ''-'' @ peer)
      = ?side n @ CHR ''@'' # rev (int_digits j) @ CHR ''#'' # rev ((if name' = [] then ''conn'' else name') @ ''-'' @ peer')"
    using arg_cong [OF assms, of rev] by (simp add: conn_name_def)
  from split_at_sep [OF this]
  have "rev (int_digits i) @ CHR ''#'' # rev ((if name = [] then ''conn'' else name) @ ''-'' @ peer)
      = rev (int_digits j) @ CHR ''#'' # rev ((if name' = [] then ''conn'' else name') @ ''-'' @ peer')"
    by (cases m; cases n) auto
  from split_at_sep [OF this] have "rev (int_digits i) = rev (int_digits j)"
    using hash_not_in_int_digits by simp
  then show ?thesis by (simp add: int_digits_inj)
qed

section \<open>Invariant\<close>

text \<open>Where a connection stands: the functors that carry it on are in the queues exactly when
  its state needs them, and it is in the table until \<open>RemoveConnectionInLoop\<close>.\<close>

definition fn_count :: "server \<Rightarrow> loop_id \<Rightarrow> srv_fn \<Rightarrow> nat" where
  "fn_count s l f = count_list (sv_queues s l) f"

definition in_table :: "server \<Rightarrow> conn_ptr \<Rightarrow> conn_obj \<Rightarrow> bool" where
  "in_table s c co \<longleftrightarrow> map_of (sv_connections s) (co_name co) = Some c"

definition conn_ok :: "server \<Rightarrow> conn_ptr \<Rightarrow> conn_obj \<Rightarrow> bool" where
  "conn_ok s c co \<longleftrightarrow>
     (let est = fn_count s (co_loop co) (SfEstablish c);
          des = fn_count s (co_loop co) (SfDestroy c);
          rem = fn_count s 0 (SfRemove c)
      in case co_state co of
           kConnecting \<Rightarrow> in_table s c co \<and> est = 1 \<and> rem = 0 \<and> des = 0 \<and> \<not> co_removed co
         | kDisconnected \<Rightarrow> est = 0 \<and>
             (if in_table s c co then rem = 1 \<and> des = 0 \<and> \<not> co_removed co
              else rem = 0 \<and> des = (if co_removed co then 0 else 1))
         | _ \<Rightarrow> in_table s c co \<and> est = 0 \<and> rem = 0 \<and> des = 0 \<and> \<not> co_removed co)"

text \<open>Which functor may be in which queue.\<close>

fun fn_ok :: "server \<Rightarrow> loop_id \<Rightarrow> srv_fn \<Rightarrow> bool" where
  "fn_ok s l SfStart \<longleftrightarrow> l = 0"
| "fn_ok s l SfStop \<longleftrightarrow> l = 0"
| "fn_ok s l (SfRemove c) \<longleftrightarrow> l = 0 \<and> sv_conns s c \<noteq> None"
| "fn_ok s l (SfEstablish c) \<longleftrightarrow> l \<noteq> 0 \<and> (\<exists>co. sv_conns s c = Some co \<and> co_loop co = l)"
| "fn_ok s l (SfForceClose c) \<longleftrightarrow> l \<noteq> 0 \<and> (\<exists>co. sv_conns s c = Some co \<and> co_loop co = l)"
| "fn_ok s l (SfDestroy c) \<longleftrightarrow> l \<noteq> 0 \<and> (\<exists>co. sv_conns s c = Some co \<and> co_loop co = l)"
| "fn_ok s l SfQuit \<longleftrightarrow> l \<noteq> 0 \<and> (\<exists>ls. sv_joining s = Some (l # ls))"

definition conns_inv :: "server \<Rightarrow> bool" where
  "conns_inv s \<longleftrightarrow>
     (\<forall>c co. sv_conns s c = Some co \<longrightarrow> conn_ok s c co \<and> co_id co < sv_next_conn_id s
        \<and> (\<exists>peer m. co_name co = conn_name (sv_name s) peer (co_id co) m))
     \<and> (\<forall>c c' co co'. sv_conns s c = Some co \<longrightarrow> sv_conns s c' = Some co' \<longrightarrow> co_id co = co_id co' \<longrightarrow> c = c')
     \<and> (\<forall>nm c. (nm, c) \<in> set (sv_connections s) \<longrightarrow> (\<exists>co. sv_conns s c = Some co \<and> co_name co = nm))"

definition queues_inv :: "server \<Rightarrow> bool" where
  "queues_inv s \<longleftrightarrow>
     (\<forall>l f. f \<in> set (sv_queues s l) \<longrightarrow> fn_ok s l f)
     \<and> (\<forall>l. SfQuit \<notin> set (butlast (sv_queues s l)))
     \<and> (\<forall>l \<in> sv_quitting s. sv_queues s l = [] \<and> l \<noteq> 0)"

definition pool_loops :: "server \<Rightarrow> loop_id list" where
  "pool_loops s = (case sv_pool s of None \<Rightarrow> [] | Some pool \<Rightarrow> lp_loops pool)"

definition ctrl_inv :: "server \<Rightarrow> bool" where
  "ctrl_inv s \<longleftrightarrow>
     (sv_started s \<longleftrightarrow> sv_acceptor s = Some True)
     \<and> (sv_acceptor s = Some False \<longrightarrow> sv_conns s = Map.empty \<and> sv_stop_complete s)
     \<and> (sv_acceptor s = Some True \<longrightarrow> \<not> sv_stop_complete s)
     \<and> (sv_acceptor s \<noteq> None \<or> sv_connections s \<noteq> [] \<longrightarrow> sv_joining s = None \<and> sv_quitting s = {})
     \<and> distinct (pool_loops s) \<and> 0 \<notin> set (pool_loops s)
     \<and> set (pool_loops s) \<inter> sv_exited s \<subseteq> sv_quitting s
     \<and> (\<forall>c co. sv_conns s c = Some co \<and> \<not> sv_stop_complete s \<longrightarrow> co_loop co \<in> insert 0 (set (pool_loops s)))
     \<and> (\<forall>ls. sv_joining s = Some ls \<longrightarrow> \<not> sv_stop_complete s \<and> ls \<noteq> [] \<and> sv_quitting s \<inter> set (tl ls) = {}
          \<and> (SfQuit \<in> set (sv_queues s (hd ls)) \<or> hd ls \<in> sv_quitting s)
          \<and> (\<exists>pre. pool_loops s = pre @ ls \<and> set pre \<subseteq> sv_quitting s))
     \<and> sv_next_conn_id s \<ge> 1"

text \<open>The main loop leaves no state in which the table has become empty and the shutdown of the
  pool has not been started.\<close>

definition stop_inv :: "server \<Rightarrow> bool" where
  "stop_inv s \<longleftrightarrow>
     (sv_acceptor s = None \<longrightarrow>
        (if sv_connections s = [] \<and> sv_joining s = None
         then sv_pool s = None \<and> sv_stop_complete s \<and> (\<forall>c co. sv_conns s c = Some co \<longrightarrow> co_removed co)
         else \<not> sv_stop_complete s))"

definition srv_inv :: "server \<Rightarrow> bool" where
  "srv_inv s \<longleftrightarrow> conns_inv s \<and> queues_inv s \<and> ctrl_inv s \<and> stop_inv s"

lemmas srv_inv_defs = conns_inv_def queues_inv_def ctrl_inv_def stop_inv_def

lemma TcpServer_ctor_inv: "srv_inv (TcpServer_ctor name addr)"
  by (simp add: srv_inv_def srv_inv_defs TcpServer_ctor_def pool_loops_def)

lemma same_name_same_conn:
  assumes "conns_inv s" and "sv_conns s c = Some co" and "sv_conns s c' = Some co'" and "co_name co = co_name co'"
  shows "c = c'"
  using assms conn_name_inj unfolding conns_inv_def by metis

section \<open>Framing\<close>

text \<open>What the primitive updates do to the parts of the invariant. \<open>fn_conn\<close> is the connection a functor carries
  on; a forced close may come too late and do nothing.\<close>

fun fn_conn :: "srv_fn \<Rightarrow> conn_ptr option" where
  "fn_conn (SfRemove c) = Some c"
| "fn_conn (SfEstablish c) = Some c"
| "fn_conn (SfDestroy c) = Some c"
| "fn_conn f = None"

lemma fn_count_queue_fn [simp]:
  "fn_count (queue_fn l f s) l' f' = fn_count s l' f' + (if l = l' \<and> f = f' then 1 else 0)"
  by (simp add: fn_count_def queue_fn_def)

lemma fn_count_pop_fn:
  "sv_queues s l = f # fs \<Longrightarrow> fn_count (pop_fn l s) l' f' = fn_count s l' f' - (if l = l' \<and> f = f' then 1 else 0)"
  by (simp add: fn_count_def pop_fn_def)

lemma fn_count_put_conn [simp]: "fn_count (put_conn c co s) l f = fn_count s l f"
  by (simp add: fn_count_def put_conn_def)

lemma in_table_simps [simp]:
  "in_table (queue_fn l f s) c co = in_table s c co"
  "in_table (pop_fn l s) c co = in_table s c co"
  "in_table (put_conn c' co' s) c co = in_table s c co"
  by (simp_all add: in_table_def queue_fn_def pop_fn_def put_conn_def)

lemma conn_ok_cong:
  assumes "conn_ok s c co" and "in_table s' c co = in_table s c co"
    and "\<And>l f. fn_conn f = Some c \<Longrightarrow> fn_count s' l f = fn_count s l f"
  shows "conn_ok s' c co"
  using assms(1) unfolding conn_ok_def assms(2) by (simp add: assms(3))

lemma conns_inv_frame:
  assumes "conns_inv s" and "sv_conns s' = sv_conns s" and "sv_connections s' = sv_connections s"
    and "sv_name s' = sv_name s" and "sv_next_conn_id s' = sv_next_conn_id s"
    and "\<And>l f. fn_conn f \<noteq> None \<Longrightarrow> fn_count s' l f = fn_count s l f"
  shows "conns_inv s'"
proof -
  have "conn_ok s' c co" if "conn_ok s c co" for c co
    by (rule conn_ok_cong [OF that]) (simp_all add: in_table_def assms(3,6))
  then show ?thesis using assms(1) unfolding conns_inv_def assms(2-5) by blast
qed

lemma conns_inv_update:
  assumes "conns_inv s" and "sv_conns s c = Some co" and "sv_conns s' = (sv_conns s)(c \<mapsto> co')"
    and "co_name co' = co_name co" and "co_id co' = co_id co"
    and "sv_name s' = sv_name s" and "sv_next_conn_id s' = sv_next_conn_id s"
    and "\<And>nm. nm \<noteq> co_name co \<Longrightarrow> map_of (sv_connections s') nm = map_of (sv_connections s) nm"
    and "set (sv_connections s') \<subseteq> set (sv_connections s)"
    and "\<And>l f. fn_conn f \<noteq> None \<Longrightarrow> fn_conn f \<noteq> Some c \<Longrightarrow> fn_count s' l f = fn_count s l f"
    and "conn_ok s' c co'"
  shows "conns_inv s'"
proof -
  have other: "conn_ok s' d cd" if d: "sv_conns s d = Some cd" "d \<noteq> c" for d cd
  proof (rule conn_ok_cong)
    show "conn_ok s d cd" using assms(1) d(1) by (simp add: conns_inv_def)
    have "co_name cd \<noteq> co_name co" using same_name_same_conn [OF assms(1) d(1) assms(2)] d(2) by blast
    then show "in_table s' d cd = in_table s d cd" by (simp add: in_table_def assms(8))
    show "fn_count s' l f = fn_count s l f" if "fn_conn f = Some d" for l f
      using assms(10) [of f l] that d(2) by simp
  qed
  have table: "\<exists>cd. sv_conns s' d = Some cd \<and> co_name cd = nm" if d: "(nm, d) \<in> set (sv_connections s')" for nm d
  proof -
    have "(nm, d) \<in> set (sv_connections s)" using d assms(9) by blast
    then obtain cd where "sv_conns s d = Some cd" "co_name cd = nm" using assms(1) unfolding conns_inv_def by blast
    then show ?thesis using assms(2-4) by (cases "d = c") auto
  qed
  have each: "conn_ok s' d cd \<and> co_id cd < sv_next_conn_id s' \<and> (\<exists>peer m. co_name cd = conn_name (sv_name s') peer (co_id cd) m)"
    if "sv_conns s' d = Some cd" for d cd
    using that assms(1-7,11) other [of d cd] unfolding conns_inv_def by (auto split: if_splits)
  have "\<forall>d d' cd cd'. sv_conns s' d = Some cd \<longrightarrow> sv_conns s' d' = Some cd' \<longrightarrow> co_id cd = co_id cd' \<longrightarrow> d = d'"
    using assms(1-5) unfolding conns_inv_def by auto
  then show ?thesis using each table unfolding conns_inv_def by blast
qed

text \<open>The functors of a queue stay meaningful when connections only advance.\<close>

definition advances :: "server \<Rightarrow> server \<Rightarrow> bool" where
  "advances s s' \<longleftrightarrow> (\<forall>c co. sv_conns s c = Some co \<longrightarrow> (\<exists>co'. sv_conns s' c = Some co' \<and> co_loop co' = co_loop co))"

lemma advances_refl [simp]: "sv_conns s' = sv_conns s \<Longrightarrow> advances s s'"
  by (simp add: advances_def)

lemma advances_trans: "advances s s' \<Longrightarrow> advances s' s'' \<Longrightarrow> advances s s''"
  unfolding advances_def by metis

lemma advances_put_conn: "sv_conns s c = Some co \<Longrightarrow> co_loop co' = co_loop co \<Longrightarrow> advances s (put_conn c co' s)"
  by (auto simp: advances_def put_conn_def)

lemma fn_ok_advances:
  assumes "fn_ok s l f" and "advances s s'" and "sv_joining s' = sv_joining s"
  shows "fn_ok s' l f"
proof (cases f)
  case (SfRemove c)
  then show ?thesis using assms by (auto simp: advances_def)
qed (use assms in \<open>auto simp: advances_def\<close>)

lemma fn_ok_not_quit:
  assumes "fn_ok s l f" and "f \<noteq> SfQuit" and "advances s s'"
  shows "fn_ok s' l f"
proof (cases f)
  case (SfRemove c)
  then show ?thesis using assms by (auto simp: advances_def)
qed (use assms in \<open>auto simp: advances_def\<close>)

lemma queued_fn_ok: "queues_inv s \<Longrightarrow> f \<in> set (sv_queues s l) \<Longrightarrow> fn_ok s l f"
  unfolding queues_inv_def by blast

lemma queues_inv_advances:
  assumes "queues_inv s" and "advances s s'" and "sv_queues s' = sv_queues s"
    and "sv_joining s' = sv_joining s" and "sv_quitting s' = sv_quitting s"
  shows "queues_inv s'"
  using assms(1) fn_ok_advances [OF _ assms(2,4)] unfolding queues_inv_def assms(3,5) by blast

lemma queues_inv_pop:
  assumes "queues_inv s"
  shows "queues_inv (pop_fn l s)"
proof -
  have ok: "fn_ok (pop_fn l s) l' f" if "fn_ok s l' f" for l' f
    by (rule fn_ok_advances [OF that]) (simp_all add: pop_fn_def)
  have sub: "set (tl xs) \<subseteq> set xs" "set (butlast (tl xs)) \<subseteq> set (butlast xs)" for xs :: "srv_fn list"
    by (cases xs; auto)+
  show ?thesis
    using assms sub(1) [of "sv_queues s l"] sub(2) [of "sv_queues s l"] ok
    unfolding queues_inv_def by (auto simp: pop_fn_def)
qed

lemma queues_inv_push:
  assumes "queues_inv s" and "fn_ok s l f" and "SfQuit \<notin> set (sv_queues s l)" and "l \<notin> sv_quitting s"
  shows "queues_inv (queue_fn l f s)"
proof -
  have ok: "fn_ok (queue_fn l f s) l' g" if "fn_ok s l' g" for l' g
    by (rule fn_ok_advances [OF that]) (simp_all add: queue_fn_def)
  show ?thesis
    using assms ok unfolding queues_inv_def by (auto simp: queue_fn_def)
qed

lemma ctrl_inv_pop:
  assumes "ctrl_inv s" and "sv_queues s l = f # fs" and "f \<noteq> SfQuit"
  shows "ctrl_inv (pop_fn l s)"
  using assms by (auto simp: ctrl_inv_def pop_fn_def pool_loops_def)

lemma ctrl_inv_push: "ctrl_inv s \<Longrightarrow> ctrl_inv (queue_fn l f s)"
  by (auto simp: ctrl_inv_def queue_fn_def pool_loops_def)

lemma ctrl_inv_put_conn:
  assumes "ctrl_inv s" and "sv_conns s c = Some co" and "co_loop co' = co_loop co"
  shows "ctrl_inv (put_conn c co' s)"
  using assms by (auto simp: ctrl_inv_def put_conn_def pool_loops_def)

lemma ctrl_inv_cong:
  assumes "ctrl_inv s" and "sv_started s' = sv_started s" and "sv_acceptor s' = sv_acceptor s" and "sv_conns s' = sv_conns s"
    and "sv_stop_complete s' = sv_stop_complete s" and "sv_connections s' = sv_connections s" and "sv_joining s' = sv_joining s"
    and "sv_quitting s' = sv_quitting s" and "sv_exited s' = sv_exited s" and "sv_queues s' = sv_queues s"
    and "sv_next_conn_id s' = sv_next_conn_id s" and "pool_loops s' = pool_loops s"
  shows "ctrl_inv s'"
  using assms(1) unfolding ctrl_inv_def assms(2-12) .

lemma stop_inv_pop [simp]: "stop_inv (pop_fn l s) = stop_inv s"
  by (simp add: stop_inv_def pop_fn_def)

lemma stop_inv_push [simp]: "stop_inv (queue_fn l f s) = stop_inv s"
  by (simp add: stop_inv_def queue_fn_def)

lemma stop_inv_put_conn:
  assumes "stop_inv s" and "sv_conns s c = Some co" and "co_removed co \<longrightarrow> co_removed co'"
  shows "stop_inv (put_conn c co' s)"
  using assms by (auto simp: stop_inv_def put_conn_def)

section \<open>The functors of the loops\<close>

lemma sel_simps [simp]:
  "sv_conns (pop_fn l s) = sv_conns s" "sv_connections (pop_fn l s) = sv_connections s"
  "sv_name (pop_fn l s) = sv_name s" "sv_next_conn_id (pop_fn l s) = sv_next_conn_id s"
  "sv_joining (pop_fn l s) = sv_joining s" "sv_quitting (pop_fn l s) = sv_quitting s"
  "sv_started (pop_fn l s) = sv_started s" "sv_acceptor (pop_fn l s) = sv_acceptor s"
  "sv_conns (queue_fn l f s) = sv_conns s" "sv_connections (queue_fn l f s) = sv_connections s"
  "sv_name (queue_fn l f s) = sv_name s" "sv_next_conn_id (queue_fn l f s) = sv_next_conn_id s"
  "sv_joining (queue_fn l f s) = sv_joining s" "sv_quitting (queue_fn l f s) = sv_quitting s"
  "sv_started (queue_fn l f s) = sv_started s" "sv_acceptor (queue_fn l f s) = sv_acceptor s"
  "sv_conns (put_conn c co s) = (sv_conns s)(c \<mapsto> co)" "sv_connections (put_conn c co s) = sv_connections s"
  "sv_name (put_conn c co s) = sv_name s" "sv_next_conn_id (put_conn c co s) = sv_next_conn_id s"
  "sv_joining (put_conn c co s) = sv_joining s" "sv_quitting (put_conn c co s) = sv_quitting s"
  "sv_started (put_conn c co s) = sv_started s" "sv_acceptor (put_conn c co s) = sv_acceptor s"
  "sv_queues (put_conn c co s) = sv_queues s"
  by (simp_all add: pop_fn_def queue_fn_def put_conn_def)

lemma srv_invD:
  assumes "srv_inv s"
  shows "conns_inv s" "queues_inv s" "ctrl_inv s" "stop_inv s"
  using assms by (simp_all add: srv_inv_def)

lemma conns_invD:
  assumes "conns_inv s" and "sv_conns s c = Some co"
  shows "conn_ok s c co"
  using assms by (simp add: conns_inv_def)

lemma in_table_busy:
  assumes "in_table s c co" and "ctrl_inv s"
  shows "sv_joining s = None" "sv_quitting s = {}" "sv_connections s \<noteq> []"
  using assms by (auto simp: in_table_def ctrl_inv_def)

lemma no_quit_pending:
  assumes "queues_inv s" and "sv_joining s = None"
  shows "SfQuit \<notin> set (sv_queues s l)"
  using queued_fn_ok [OF assms(1), of SfQuit l] assms(2) by auto

lemma table_entry:
  assumes "conns_inv s" and "(nm, c) \<in> set (sv_connections s)"
  shows "\<exists>co. sv_conns s c = Some co \<and> co_name co = nm"
  using assms unfolding conns_inv_def by blast

lemma head_fn_ok:
  assumes "queues_inv s" and "sv_queues s l = f # fs"
  shows "fn_ok s l f"
  using assms by (auto simp: queues_inv_def)

lemma head_fn_count:
  assumes "sv_queues s l = f # fs"
  shows "fn_count s l f \<noteq> 0"
  using assms by (simp add: fn_count_def)

text \<open>A connection that advances while one of its functors is taken from a queue.\<close>

lemma advance_inv:
  assumes inv: "srv_inv s" and q: "sv_queues s l = f # fs" and c: "sv_conns s c = Some co" and f: "fn_conn f = Some c"
    and keep: "co_name co' = co_name co" "co_id co' = co_id co" "co_loop co' = co_loop co" "co_removed co \<longrightarrow> co_removed co'"
    and ok: "conn_ok (put_conn c co' (pop_fn l s)) c co'"
  shows "srv_inv (put_conn c co' (pop_fn l s))"
proof -
  let ?s = "put_conn c co' (pop_fn l s)"
  have c1: "sv_conns (pop_fn l s) c = Some co" using c by simp
  have "conns_inv ?s"
  proof (rule conns_inv_update [OF srv_invD(1) [OF inv] c _ keep(1,2) _ _ _ _ _ ok])
    show "fn_count ?s l' g = fn_count s l' g" if "fn_conn g \<noteq> None" "fn_conn g \<noteq> Some c" for l' g
      using that f by (auto simp: fn_count_pop_fn [OF q])
  qed simp_all
  moreover have "queues_inv ?s"
    by (rule queues_inv_advances [OF queues_inv_pop [OF srv_invD(2) [OF inv]] advances_put_conn [OF c1 keep(3)]]) simp_all
  moreover have "ctrl_inv ?s"
    by (rule ctrl_inv_put_conn [OF ctrl_inv_pop [OF srv_invD(3) [OF inv] q] c1 keep(3)]) (use f in auto)
  moreover have "stop_inv ?s"
    by (rule stop_inv_put_conn [OF _ c1 keep(4)]) (simp add: srv_invD(4) [OF inv])
  ultimately show ?thesis by (simp add: srv_inv_def)
qed

lemma Srv_ConnectEstablished_ok:
  assumes inv: "srv_inv s" and q: "sv_queues s l = SfEstablish c # fs"
  shows "\<exists>s'. Srv_ConnectEstablished c (pop_fn l s) = Inr s' \<and> srv_inv s'"
proof -
  obtain co where c: "sv_conns s c = Some co" "co_loop co = l" "l \<noteq> 0"
    using head_fn_ok [OF srv_invD(2) [OF inv] q] by auto
  note cok = conns_invD [OF srv_invD(1) [OF inv] c(1)]
  have st: "co_state co = kConnecting"
    using cok head_fn_count [OF q] c(2) by (cases "co_state co") (auto simp: conn_ok_def)
  let ?co = "co\<lparr>co_state := kConnected\<rparr>"
  have "srv_inv (put_conn c ?co (pop_fn l s))"
  proof (rule advance_inv [OF inv q c(1)])
    show "conn_ok (put_conn c ?co (pop_fn l s)) c ?co"
      using cok st c(2,3) by (simp add: conn_ok_def fn_count_pop_fn [OF q] in_table_def)
  qed simp_all
  then show ?thesis
    by (simp add: Srv_ConnectEstablished_def with_conn_def c(1) st life_establish_def)
qed

lemma Srv_ConnectDestroyed_ok:
  assumes inv: "srv_inv s" and q: "sv_queues s l = SfDestroy c # fs"
  shows "\<exists>s'. Srv_ConnectDestroyed c (pop_fn l s) = Inr s' \<and> srv_inv s'"
proof -
  obtain co where c: "sv_conns s c = Some co" "co_loop co = l" "l \<noteq> 0"
    using head_fn_ok [OF srv_invD(2) [OF inv] q] by auto
  note cok = conns_invD [OF srv_invD(1) [OF inv] c(1)]
  have st: "co_state co = kDisconnected" "\<not> co_removed co" "\<not> in_table s c co" "fn_count s 0 (SfRemove c) = 0"
    using cok head_fn_count [OF q] c(2) by (cases "co_state co"; auto simp: conn_ok_def split: if_splits)+
  let ?co = "co\<lparr>co_state := kDisconnected, co_removed := True\<rparr>"
  have "srv_inv (put_conn c ?co (pop_fn l s))"
  proof (rule advance_inv [OF inv q c(1)])
    show "conn_ok (put_conn c ?co (pop_fn l s)) c ?co"
      using cok st c(2,3) by (simp add: conn_ok_def fn_count_pop_fn [OF q] in_table_def)
  qed simp_all
  then show ?thesis
    by (simp add: Srv_ConnectDestroyed_def with_conn_def c(1) st life_destroy_def)
qed

lemma pop_inv:
  assumes inv: "srv_inv s" and q: "sv_queues s l = f # fs" and f: "fn_conn f = None" "f \<noteq> SfQuit"
  shows "srv_inv (pop_fn l s)"
proof -
  have "conns_inv (pop_fn l s)"
    by (rule conns_inv_frame [OF srv_invD(1) [OF inv]]) (use f(1) in \<open>auto simp: fn_count_pop_fn [OF q]\<close>)
  then show ?thesis
    using queues_inv_pop [OF srv_invD(2) [OF inv]] ctrl_inv_pop [OF srv_invD(3) [OF inv] q f(2)] srv_invD(4) [OF inv]
    by (simp add: srv_inv_def)
qed

lemma push_inv:
  assumes inv: "srv_inv s" and f: "fn_conn f = None" "fn_ok s l f"
    and q: "SfQuit \<notin> set (sv_queues s l)" "l \<notin> sv_quitting s"
  shows "srv_inv (queue_fn l f s)"
proof -
  have "conns_inv (queue_fn l f s)"
    by (rule conns_inv_frame [OF srv_invD(1) [OF inv]]) (use f(1) in auto)
  then show ?thesis
    using queues_inv_push [OF srv_invD(2) [OF inv] f(2) q] ctrl_inv_push [OF srv_invD(3) [OF inv]] srv_invD(4) [OF inv]
    by (simp add: srv_inv_def)
qed

section \<open>Shutting the pool down\<close>

lemma nothing_left:
  assumes "conns_inv s" and "queues_inv s" and "sv_connections s = []" and "sv_conns s c = Some co"
    and "co_loop co = 0 \<or> sv_queues s (co_loop co) = []"
  shows "co_removed co"
proof -
  have out: "\<not> in_table s c co" using assms(3) by (simp add: in_table_def)
  have "SfDestroy c \<notin> set (sv_queues s 0)" using queued_fn_ok [OF assms(2), of "SfDestroy c" 0] by auto
  then have "fn_count s (co_loop co) (SfDestroy c) = 0"
    using assms(5) by (auto simp: fn_count_def count_list_0_iff)
  then show ?thesis
    using conns_invD [OF assms(1,4)] out by (cases "co_state co") (auto simp: conn_ok_def split: if_splits)
qed

lemma join_next_inv:
  assumes inv: "conns_inv s" "queues_inv s" "ctrl_inv s"
    and down: "sv_acceptor s = None" "sv_connections s = []" "\<not> sv_stop_complete s"
    and pool: "pool_loops s = pre @ ls" "sv_pool s \<noteq> None"
    and quit: "set pre \<subseteq> sv_quitting s" "sv_quitting s \<inter> set ls = {}" "\<And>l. SfQuit \<notin> set (sv_queues s l)"
  shows "srv_inv (join_next ls s)"
proof (cases ls)
  case Nil
  have "co_removed co" if c: "sv_conns s c = Some co" for c co
  proof (rule nothing_left [OF inv(1,2) down(2) c])
    have "co_loop co = 0 \<or> co_loop co \<in> set pre"
      using inv(3) c down(3) pool(1) Nil unfolding ctrl_inv_def by auto
    then show "co_loop co = 0 \<or> sv_queues s (co_loop co) = []"
      using quit(1) inv(2) by (auto simp: queues_inv_def)
  qed
  moreover have "conns_inv (s\<lparr>sv_joining := None, sv_pool := None, sv_stop_complete := True\<rparr>)"
    by (rule conns_inv_frame [OF inv(1)]) (simp_all add: fn_count_def)
  moreover have "fn_ok (s\<lparr>sv_joining := None, sv_pool := None, sv_stop_complete := True\<rparr>) l f"
    if "f \<in> set (sv_queues s l)" for l f
    by (rule fn_ok_not_quit [OF queued_fn_ok [OF inv(2) that]]) (use that quit(3) [of l] in auto)
  ultimately show ?thesis
    using inv down quit(3) Nil
    by (simp add: join_next_def srv_inv_def queues_inv_def ctrl_inv_def stop_inv_def pool_loops_def)
next
  case (Cons l ls')
  let ?s = "s\<lparr>sv_joining := Some ls\<rparr>"
  have "conns_inv ?s" by (rule conns_inv_frame [OF inv(1)]) (simp_all add: fn_count_def)
  then have c: "conns_inv (queue_fn l SfQuit ?s)"
    by (rule conns_inv_frame) (auto simp: fn_count_def queue_fn_def)
  have ok: "fn_ok ?s l' f" if "f \<in> set (sv_queues s l')" for l' f
    by (rule fn_ok_not_quit [OF queued_fn_ok [OF inv(2) that]]) (use that quit(3) [of l'] in auto)
  have l0: "l \<noteq> 0" "l \<notin> sv_quitting s"
    using inv(3) pool(1) quit(2) Cons by (auto simp: ctrl_inv_def)
  have "queues_inv ?s" using inv(2) ok by (simp add: queues_inv_def)
  then have q: "queues_inv (queue_fn l SfQuit ?s)"
    by (rule queues_inv_push) (use l0 quit(3) Cons in simp_all)
  have t: "ctrl_inv (queue_fn l SfQuit ?s)"
    using inv(3) down pool quit Cons by (auto simp: ctrl_inv_def pool_loops_def queue_fn_def) (metis neq0_conv)
  have "stop_inv (queue_fn l SfQuit ?s)" using down by (simp add: stop_inv_def queue_fn_def)
  then show ?thesis using c q t Cons by (simp add: srv_inv_def join_next_def)
qed

lemma StopThreadPoolInLoop_inv:
  assumes inv: "conns_inv s" "queues_inv s" "ctrl_inv s"
    and down: "sv_acceptor s = None" "sv_connections s = []" "\<not> sv_stop_complete s"
    and quit: "sv_joining s = None" "sv_quitting s = {}"
  shows "srv_inv (StopThreadPoolInLoop s)"
proof (cases "sv_pool s")
  case None
  have "co_removed co" if c: "sv_conns s c = Some co" for c co
    by (rule nothing_left [OF inv(1,2) down(2) c])
      (use inv(3) c down(3) None in \<open>auto simp: ctrl_inv_def pool_loops_def\<close>)
  moreover have "conns_inv (s\<lparr>sv_stop_complete := True\<rparr>)"
    by (rule conns_inv_frame [OF inv(1)]) (simp_all add: fn_count_def)
  moreover have "queues_inv (s\<lparr>sv_stop_complete := True\<rparr>)"
    by (rule queues_inv_advances [OF inv(2)]) simp_all
  ultimately show ?thesis
    using inv(3) down quit None
    by (simp add: StopThreadPoolInLoop_def srv_inv_def ctrl_inv_def stop_inv_def pool_loops_def)
next
  case (Some pool)
  then show ?thesis
    using join_next_inv [OF inv down, of "[]" "lp_loops pool"] no_quit_pending [OF inv(2) quit(1)] quit
    by (simp add: StopThreadPoolInLoop_def pool_loops_def)
qed

lemma EvJoined_inv:
  assumes inv: "srv_inv s" and j: "sv_joining s = Some (l # ls)" and x: "l \<in> sv_exited s"
  shows "srv_inv (join_next ls s)"
proof -
  note c = srv_invD(3) [OF inv]
  obtain pre where pre: "pool_loops s = pre @ l # ls" "set pre \<subseteq> sv_quitting s"
    using c j by (auto simp: ctrl_inv_def)
  have l: "l \<in> sv_quitting s" using c pre(1) x unfolding ctrl_inv_def by auto
  have down: "sv_acceptor s = None" "sv_connections s = []" "\<not> sv_stop_complete s" "sv_pool s \<noteq> None"
    using c j pre(1) by (auto simp: ctrl_inv_def pool_loops_def split: option.splits)
  have no: "SfQuit \<notin> set (sv_queues s l')" for l'
  proof
    assume "SfQuit \<in> set (sv_queues s l')"
    then have "l' = l" using queued_fn_ok [OF srv_invD(2) [OF inv]] j by fastforce
    then show False using l srv_invD(2) [OF inv] \<open>SfQuit \<in> set (sv_queues s l')\<close> by (auto simp: queues_inv_def)
  qed
  show ?thesis
    by (rule join_next_inv [OF srv_invD(1-3) [OF inv] down(1-3), of "pre @ [l]"])
      (use pre l down(4) no c j in \<open>auto simp: ctrl_inv_def\<close>)
qed

section \<open>Closing and removing\<close>

text \<open>The state when the connection is out of the table and its \<open>ConnectDestroyed\<close> has run or is queued.\<close>

definition untabled :: "conn_obj \<Rightarrow> server \<Rightarrow> server" where
  "untabled co s = pop_fn 0 s\<lparr>sv_connections := map_erase (co_name co) (sv_connections s)\<rparr>"

definition destroyed :: "conn_obj \<Rightarrow> conn_obj" where
  "destroyed co = (if co_loop co = 0 then co\<lparr>co_state := kDisconnected, co_removed := True\<rparr> else co)"

definition taken_out :: "conn_ptr \<Rightarrow> conn_obj \<Rightarrow> server \<Rightarrow> server" where
  "taken_out c co s =
     (if co_loop co = 0 then put_conn c (destroyed co) (untabled co s)
      else queue_fn (co_loop co) (SfDestroy c) (untabled co s))"

lemma taken_out_sel:
  "sv_started (taken_out c co s) = sv_started s" "sv_acceptor (taken_out c co s) = sv_acceptor s"
  "sv_joining (taken_out c co s) = sv_joining s" "sv_quitting (taken_out c co s) = sv_quitting s"
  "sv_stop_complete (taken_out c co s) = sv_stop_complete s"
  "sv_conns s c = Some co \<Longrightarrow> sv_conns (taken_out c co s) = (sv_conns s)(c \<mapsto> destroyed co)"
  by (auto simp: taken_out_def untabled_def destroyed_def pop_fn_def put_conn_def queue_fn_def)

lemma taken_out_conns_inv:
  assumes inv: "conns_inv s" and q: "sv_queues s 0 = SfRemove c # fs" and c: "sv_conns s c = Some co"
    and st: "co_state co = kDisconnected" "\<not> co_removed co" "in_table s c co"
  shows "conns_inv (taken_out c co s)"
proof (rule conns_inv_update [OF inv c taken_out_sel(6) [OF c]])
  have count: "fn_count (untabled co s) l f = fn_count s l f - (if l = 0 \<and> f = SfRemove c then 1 else 0)" for l f
    using fn_count_pop_fn [OF q, of l f] by (simp add: untabled_def fn_count_def)
  show "conn_ok (taken_out c co s) c (destroyed co)"
    using conns_invD [OF inv c] st count
    by (auto simp: conn_ok_def taken_out_def destroyed_def untabled_def in_table_def)
  show "fn_count (taken_out c co s) l f = fn_count s l f" if "fn_conn f \<noteq> None" "fn_conn f \<noteq> Some c" for l f
    using that by (auto simp: taken_out_def count)
qed (use set_map_erase in \<open>auto simp: taken_out_def destroyed_def untabled_def\<close>)

lemma taken_out_queues_inv:
  assumes inv: "queues_inv s" and c: "sv_conns s c = Some co" and idle: "sv_joining s = None" "sv_quitting s = {}"
  shows "queues_inv (taken_out c co s)"
proof -
  have 1: "queues_inv (untabled co s)"
    by (rule queues_inv_advances [OF queues_inv_pop [OF inv, of 0]]) (simp_all add: untabled_def pop_fn_def)
  moreover have "queues_inv (queue_fn (co_loop co) (SfDestroy c) (untabled co s))" if "co_loop co \<noteq> 0"
    by (rule queues_inv_push [OF 1]) (use that c idle no_quit_pending [OF 1] in \<open>auto simp: untabled_def\<close>)
  moreover have "queues_inv (put_conn c (destroyed co) (untabled co s))"
    by (rule queues_inv_advances [OF 1 advances_put_conn [of _ c co]]) (use c in \<open>auto simp: untabled_def destroyed_def\<close>)
  ultimately show ?thesis by (simp add: taken_out_def)
qed

lemma taken_out_ctrl_inv:
  assumes inv: "ctrl_inv s" and c: "sv_conns s c = Some co" and idle: "sv_joining s = None" "sv_quitting s = {}"
  shows "ctrl_inv (taken_out c co s)"
proof -
  have "ctrl_inv (untabled co s)" using inv idle by (auto simp: untabled_def ctrl_inv_def pool_loops_def pop_fn_def)
  then show ?thesis
    using ctrl_inv_push ctrl_inv_put_conn [of "untabled co s" c co "destroyed co"] c
    by (auto simp: taken_out_def destroyed_def untabled_def)
qed

lemma RemoveConnectionInLoop_eq:
  assumes c: "sv_conns s c = Some co" and st: "co_state co = kDisconnected"
  shows "RemoveConnectionInLoop c (pop_fn 0 s) =
    Inr (if sv_connections (taken_out c co s) = [] \<and> \<not> sv_started s then StopThreadPoolInLoop (taken_out c co s)
         else taken_out c co s)"
proof -
  have "run_in_loop 0 (co_loop co) (SfDestroy c) (Srv_ConnectDestroyed c) (untabled co s) = Inr (taken_out c co s)"
    using c st by (auto simp: run_in_loop_def taken_out_def destroyed_def untabled_def Srv_ConnectDestroyed_def
        with_conn_def life_destroy_def)
  then show ?thesis
    using c by (simp add: RemoveConnectionInLoop_def with_conn_def taken_out_sel flip: untabled_def)
qed

lemma StopThreadPoolInLoop_conns [simp]: "sv_conns (StopThreadPoolInLoop s) = sv_conns s"
  by (auto simp: StopThreadPoolInLoop_def join_next_def split: option.splits list.splits)

lemma RemoveConnectionInLoop_ok:
  assumes inv: "srv_inv s" and q: "sv_queues s 0 = SfRemove c # fs"
  shows "\<exists>s'. RemoveConnectionInLoop c (pop_fn 0 s) = Inr s' \<and> srv_inv s' \<and> advances s s'"
proof -
  obtain co where c: "sv_conns s c = Some co"
    using head_fn_ok [OF srv_invD(2) [OF inv] q] by auto
  note ctrl = srv_invD(3) [OF inv]
  have st: "co_state co = kDisconnected" "\<not> co_removed co" "in_table s c co"
    using conns_invD [OF srv_invD(1) [OF inv] c] head_fn_count [OF q]
    by (cases "co_state co"; auto simp: conn_ok_def split: if_splits)+
  note busy = in_table_busy [OF st(3) ctrl]
  let ?s = "taken_out c co s"
  note ok = taken_out_conns_inv [OF srv_invD(1) [OF inv] q c st] taken_out_queues_inv [OF srv_invD(2) [OF inv] c busy(1,2)]
    taken_out_ctrl_inv [OF ctrl c busy(1,2)]
  have fresh: "sv_acceptor s \<noteq> Some False" using ctrl c by (auto simp: ctrl_inv_def)
  have sc: "\<not> sv_stop_complete s"
    using fresh ctrl busy srv_invD(4) [OF inv] by (cases "sv_acceptor s") (auto simp: ctrl_inv_def stop_inv_def)
  have down: "sv_acceptor s = None" if "\<not> sv_started s"
    using that fresh ctrl unfolding ctrl_inv_def by (cases "sv_acceptor s") auto
  have "srv_inv (StopThreadPoolInLoop ?s)" if "sv_connections ?s = []" "\<not> sv_started s"
    by (rule StopThreadPoolInLoop_inv [OF ok]) (use that sc busy down in \<open>simp_all add: taken_out_sel\<close>)
  moreover have "srv_inv ?s" if "\<not> (sv_connections ?s = [] \<and> \<not> sv_started s)"
    using that ok sc ctrl by (auto simp: srv_inv_def stop_inv_def ctrl_inv_def taken_out_sel)
  moreover have "advances s ?s" "advances s (StopThreadPoolInLoop ?s)"
    using c taken_out_sel(6) [OF c] by (auto simp: advances_def destroyed_def)
  ultimately show ?thesis unfolding RemoveConnectionInLoop_eq [OF c st(1)] by auto
qed

text \<open>\<open>HandleClose\<close>: the connection is disconnected and its removal is in the main loop's queue, at the end of it or
  already being run.\<close>

lemma closed_inv:
  assumes inv: "srv_inv s" and c: "sv_conns s c = Some co" and st: "co_state co = kConnected \<or> co_state co = kDisconnecting"
    and q: "\<And>f. count_list q0 f = count_list (sv_queues s 0) f + (if f = SfRemove c then 1 else 0)"
  shows "srv_inv (put_conn c (co\<lparr>co_state := kDisconnected\<rparr>) s\<lparr>sv_queues := (sv_queues s)(0 := q0)\<rparr>)" (is "srv_inv ?s")
proof -
  note cok = conns_invD [OF srv_invD(1) [OF inv] c] and ctrl = srv_invD(3) [OF inv]
  have tab: "in_table s c co" using cok st by (auto simp: conn_ok_def)
  note busy = in_table_busy [OF tab ctrl]
  have count: "fn_count ?s l f = fn_count s l f + (if l = 0 \<and> f = SfRemove c then 1 else 0)" for l f
    using q [of f] by (auto simp: fn_count_def)
  have mem: "f \<in> set q0 \<longleftrightarrow> f \<in> set (sv_queues s 0) \<or> f = SfRemove c" for f
    using q [of f] count_list_0_iff [of q0 f] count_list_0_iff [of "sv_queues s 0" f] by auto
  have "conns_inv ?s"
  proof (rule conns_inv_update [OF srv_invD(1) [OF inv] c])
    show "conn_ok ?s c (co\<lparr>co_state := kDisconnected\<rparr>)"
      using cok st tab by (auto simp: conn_ok_def count in_table_def)
    show "fn_count ?s l f = fn_count s l f" if "fn_conn f \<noteq> None" "fn_conn f \<noteq> Some c" for l f
      using that by (auto simp: count)
  qed simp_all
  moreover have ok: "fn_ok ?s l f" if "fn_ok s l f" for l f
    by (rule fn_ok_advances [OF that]) (use c in \<open>auto simp: advances_def\<close>)
  have noquit: "SfQuit \<notin> set (sv_queues s l)" for l
    by (rule no_quit_pending [OF srv_invD(2) [OF inv] busy(1)])
  have "queues_inv ?s"
    using srv_invD(2) [OF inv] ok busy(2) c mem noquit in_set_butlastD
    unfolding queues_inv_def by (fastforce split: if_splits)
  moreover have "ctrl_inv ?s" using ctrl c busy by (auto simp: ctrl_inv_def pool_loops_def put_conn_def)
  moreover have "stop_inv ?s" using srv_invD(4) [OF inv] busy by (simp add: stop_inv_def put_conn_def)
  ultimately show ?thesis by (simp add: srv_inv_def)
qed

lemma Srv_HandleClose_ok:
  assumes inv: "srv_inv s" and c: "sv_conns s c = Some co" and st: "co_state co = kConnected \<or> co_state co = kDisconnecting"
  shows "\<exists>s'. Srv_HandleClose (co_loop co) c s = Inr s' \<and> srv_inv s' \<and> advances s s'"
proof (cases "co_loop co = 0")
  case True
  let ?s = "put_conn c (co\<lparr>co_state := kDisconnected\<rparr>) s\<lparr>sv_queues := (sv_queues s)(0 := SfRemove c # sv_queues s 0)\<rparr>"
  have "srv_inv ?s" by (rule closed_inv [OF inv c st]) simp
  from RemoveConnectionInLoop_ok [OF this, of c "sv_queues s 0"] obtain s' where
    s': "RemoveConnectionInLoop c (pop_fn 0 ?s) = Inr s'" "srv_inv s'" "advances ?s s'" by auto
  have "pop_fn 0 ?s = put_conn c (co\<lparr>co_state := kDisconnected\<rparr>) s"
    by (cases s) (simp add: pop_fn_def put_conn_def)
  moreover have "advances s s'"
    by (rule advances_trans [OF _ s'(3)]) (use c in \<open>auto simp: advances_def\<close>)
  ultimately show ?thesis
    using s' c st True by (auto simp: Srv_HandleClose_def with_conn_def life_close_def RemoveConnection_def run_in_loop_def)
next
  case False
  have "srv_inv (put_conn c (co\<lparr>co_state := kDisconnected\<rparr>) s\<lparr>sv_queues := (sv_queues s)(0 := sv_queues s 0 @ [SfRemove c])\<rparr>)"
    by (rule closed_inv [OF inv c st]) simp
  moreover have "queue_fn 0 (SfRemove c) (put_conn c (co\<lparr>co_state := kDisconnected\<rparr>) s)
      = put_conn c (co\<lparr>co_state := kDisconnected\<rparr>) s\<lparr>sv_queues := (sv_queues s)(0 := sv_queues s 0 @ [SfRemove c])\<rparr>"
    by (simp add: queue_fn_def put_conn_def)
  moreover have "advances s (queue_fn 0 (SfRemove c) (put_conn c (co\<lparr>co_state := kDisconnected\<rparr>) s))"
    using c by (auto simp: advances_def)
  ultimately show ?thesis
    using c st False by (auto simp: Srv_HandleClose_def with_conn_def life_close_def RemoveConnection_def run_in_loop_def)
qed

lemma life_closeD: "life_close st = Some st' \<Longrightarrow> (st = kConnected \<or> st = kDisconnecting) \<and> st' = kDisconnected"
  by (simp add: life_close_def split: if_splits)

lemma Srv_ForceCloseInLoop_ok:
  assumes "srv_inv s" and "sv_conns s c = Some co"
  shows "\<exists>s'. Srv_ForceCloseInLoop (co_loop co) c s = Inr s' \<and> srv_inv s' \<and> advances s s'"
  using assms Srv_HandleClose_ok [OF assms]
  by (cases "life_close (co_state co) = None") (auto simp: Srv_ForceCloseInLoop_def with_conn_def dest: life_closeD)

lemma Srv_ForceClose_ok:
  assumes inv: "srv_inv s" and c: "sv_conns s c = Some co"
  shows "\<exists>s'. Srv_ForceClose c s = Inr s' \<and> srv_inv s' \<and> advances s s'"
proof (cases "life_close (co_state co) \<noteq> None \<and> co_loop co \<noteq> 0")
  case True
  then have "in_table s c co"
    using conns_invD [OF srv_invD(1) [OF inv] c] by (auto simp: conn_ok_def dest: life_closeD)
  note busy = in_table_busy [OF this srv_invD(3) [OF inv]]
  have "srv_inv (queue_fn (co_loop co) (SfForceClose c) s)"
    by (rule push_inv [OF inv]) (use True c busy no_quit_pending [OF srv_invD(2) [OF inv]] in auto)
  then show ?thesis using True c by (auto simp: Srv_ForceClose_def with_conn_def run_in_loop_def)
next
  case False
  then show ?thesis
    using Srv_ForceCloseInLoop_ok [OF inv c] inv c by (auto simp: Srv_ForceClose_def with_conn_def run_in_loop_def)
qed

lemma force_close_all_ok:
  assumes "srv_inv s" and "\<And>c. c \<in> set cs \<Longrightarrow> sv_conns s c \<noteq> None"
  shows "\<exists>s'. force_close_all cs s = Inr s' \<and> srv_inv s'"
  using assms
proof (induction cs arbitrary: s)
  case (Cons c cs)
  then obtain co where "sv_conns s c = Some co" by auto
  from Srv_ForceClose_ok [OF Cons.prems(1) this] obtain s1 where
    s1: "Srv_ForceClose c s = Inr s1" "srv_inv s1" "advances s s1" by auto
  have "sv_conns s1 d \<noteq> None" if "d \<in> set cs" for d
    using Cons.prems(2) [of d] that s1(3) by (auto simp: advances_def)
  from Cons.IH [OF s1(2) this] show ?case using s1(1) by simp
qed simp

section \<open>Start, Stop and new connections\<close>

lemma stopping_inv:
  assumes inv: "srv_inv s" and st: "sv_started s"
  shows "conns_inv (s\<lparr>sv_started := False, sv_acceptor := None\<rparr>)"
    and "queues_inv (s\<lparr>sv_started := False, sv_acceptor := None\<rparr>)"
    and "ctrl_inv (s\<lparr>sv_started := False, sv_acceptor := None\<rparr>)"
proof -
  let ?s = "s\<lparr>sv_started := False, sv_acceptor := None\<rparr>"
  show "conns_inv ?s" by (rule conns_inv_frame [OF srv_invD(1) [OF inv]]) (simp_all add: fn_count_def)
  show "queues_inv ?s" by (rule queues_inv_advances [OF srv_invD(2) [OF inv]]) simp_all
  show "ctrl_inv ?s" using srv_invD(3) [OF inv] st by (auto simp: ctrl_inv_def pool_loops_def)
qed

lemma StopInLoop_ok:
  assumes inv: "srv_inv s"
  shows "\<exists>s'. StopInLoop s = Inr s' \<and> srv_inv s'"
proof (cases "sv_started s")
  case True
  let ?s = "s\<lparr>sv_started := False, sv_acceptor := None\<rparr>"
  note ok = stopping_inv [OF inv True]
  have c: "sv_joining s = None" "sv_quitting s = {}" "\<not> sv_stop_complete s"
    using srv_invD(3) [OF inv] True by (auto simp: ctrl_inv_def)
  have same: "?s\<lparr>sv_stop_complete := False\<rparr> = ?s" using c(3) by (cases s) simp
  show ?thesis
  proof (cases "sv_connections s = []")
    case empty: True
    have "srv_inv (StopThreadPoolInLoop ?s)"
      by (rule StopThreadPoolInLoop_inv [OF ok]) (use empty c in simp_all)
    then show ?thesis using True empty by (simp add: StopInLoop_def)
  next
    case False
    have inv': "srv_inv ?s" using ok False c by (simp add: srv_inv_def stop_inv_def)
    have all: "sv_conns ?s d \<noteq> None" if "d \<in> set (map snd (sv_connections s))" for d
      using that table_entry [OF ok(1)] by fastforce
    have "\<exists>s'. force_close_all (map snd (sv_connections s)) ?s = Inr s' \<and> srv_inv s'"
      by (rule force_close_all_ok [OF inv']) (rule all)
    then show ?thesis using True False same by (simp add: StopInLoop_def)
  qed
qed (use inv in \<open>simp add: StopInLoop_def\<close>)

lemma start_pool_sel [simp]:
  "sv_acceptor (start_pool st s) = sv_acceptor s" "sv_conns (start_pool st s) = sv_conns s"
  "sv_connections (start_pool st s) = sv_connections s" "sv_name (start_pool st s) = sv_name s"
  "sv_next_conn_id (start_pool st s) = sv_next_conn_id s" "sv_queues (start_pool st s) = sv_queues s"
  "sv_joining (start_pool st s) = sv_joining s" "sv_quitting (start_pool st s) = sv_quitting s"
  "sv_started (start_pool st s) = sv_started s" "sv_stop_complete (start_pool st s) = sv_stop_complete s"
  by (simp_all add: start_pool_def)

lemma StartInLoop_ok:
  assumes inv: "srv_inv s" and loops: "sv_started s \<or> new_loops start_thread s"
    and acc: "sv_started s \<or> sv_acceptor s \<noteq> None"
  shows "\<exists>s'. StartInLoop start_thread listened s = Inr s' \<and> srv_inv s'"
proof (cases "sv_started s")
  case False
  note ctrl = srv_invD(3) [OF inv]
  have a: "sv_acceptor s = Some False" using False acc ctrl unfolding ctrl_inv_def by auto
  then have none: "sv_conns s = Map.empty" "sv_stop_complete s" using ctrl by (auto simp: ctrl_inv_def)
  let ?s = "start_pool start_thread s"
  have "conns_inv ?s" by (rule conns_inv_frame [OF srv_invD(1) [OF inv]]) (simp_all add: fn_count_def)
  moreover have "queues_inv ?s" by (rule queues_inv_advances [OF srv_invD(2) [OF inv]]) simp_all
  moreover have "distinct (pool_loops ?s) \<and> 0 \<notin> set (pool_loops ?s) \<and> set (pool_loops ?s) \<inter> sv_exited ?s = {}"
    using loops False unfolding new_loops_def pool_loops_def Let_def by auto
  then have "ctrl_inv ?s" using ctrl a none by (auto simp: ctrl_inv_def)
  moreover have "stop_inv ?s" using a by (simp add: stop_inv_def)
  ultimately have s: "srv_inv ?s" by (simp add: srv_inv_def)
  let ?t = "?s\<lparr>sv_acceptor := Some True, sv_listen_addr := the listened, sv_started := True, sv_stop_complete := False\<rparr>"
  have "conns_inv ?t" by (rule conns_inv_frame [OF srv_invD(1) [OF s]]) (simp_all add: fn_count_def)
  moreover have "queues_inv ?t" by (rule queues_inv_advances [OF srv_invD(2) [OF s]]) simp_all
  moreover have "ctrl_inv ?t" using srv_invD(3) [OF s] none a by (auto simp: ctrl_inv_def pool_loops_def)
  moreover have "stop_inv ?t" by (simp add: stop_inv_def)
  ultimately have "srv_inv ?t" by (simp add: srv_inv_def)
  then show ?thesis using False a s by (simp add: StartInLoop_def Let_def)
qed (use inv in \<open>simp add: StartInLoop_def\<close>)

text \<open>A new entry of the table: its number is new, so its name is too.\<close>

lemma conns_inv_insert:
  assumes inv: "conns_inv s" and qs: "queues_inv s" and new: "sv_conns s c = None"
    and co: "co_id co = sv_next_conn_id s" "co_name co = conn_name (sv_name s) peer (co_id co) m"
    and s': "sv_conns s' = (sv_conns s)(c \<mapsto> co)" "sv_connections s' = map_put (co_name co) c (sv_connections s)"
      "sv_name s' = sv_name s" "sv_next_conn_id s' = sv_next_conn_id s + 1"
    and other: "\<And>l f. fn_conn f \<noteq> None \<Longrightarrow> fn_conn f \<noteq> Some c \<Longrightarrow> fn_count s' l f = fn_count s l f"
    and ok: "conn_ok s' c co"
  shows "conns_inv s'"
proof -
  have old: "conn_ok s' d cd \<and> co_id cd < sv_next_conn_id s \<and> (\<exists>peer m. co_name cd = conn_name (sv_name s) peer (co_id cd) m)"
    if d: "sv_conns s d = Some cd" for d cd
  proof -
    have k: "co_id cd < sv_next_conn_id s" "\<exists>peer m. co_name cd = conn_name (sv_name s) peer (co_id cd) m" "conn_ok s d cd"
      using inv d unfolding conns_inv_def by blast+
    have "co_name cd \<noteq> co_name co" using k(1,2) co conn_name_inj by (metis less_irrefl)
    moreover have "d \<noteq> c" using d new by auto
    ultimately have "conn_ok s' d cd"
      by (intro conn_ok_cong [OF k(3)]) (simp_all add: in_table_def s'(2) other)
    then show ?thesis using k by blast
  qed
  have "\<exists>cd. sv_conns s' d = Some cd \<and> co_name cd = nm" if d: "(nm, d) \<in> set (sv_connections s')" for nm d
    using set_map_put [of "co_name co" c "sv_connections s"] d table_entry [OF inv, of nm d] new
    by (fastforce simp: s'(1,2))
  moreover have "conn_ok s' d cd \<and> co_id cd < sv_next_conn_id s' \<and> (\<exists>peer m. co_name cd = conn_name (sv_name s') peer (co_id cd) m)"
    if "sv_conns s' d = Some cd" for d cd
    using that old [of d cd] ok co by (auto simp: s'(1,3,4) split: if_splits)
  moreover have "d = d'" if "sv_conns s' d = Some cd" "sv_conns s' d' = Some cd'" "co_id cd = co_id cd'" for d d' cd cd'
  proof (cases "d = c \<or> d' = c")
    case True
    then show ?thesis using that old [of d cd] old [of d' cd'] co(1) by (auto simp: s'(1) split: if_splits)
  next
    case False
    then show ?thesis using that inv unfolding conns_inv_def s'(1) by auto
  qed
  ultimately show ?thesis unfolding conns_inv_def by blast
qed

lemma next_io_loop_cases:
  assumes "next_io_loop s = (l, s1)"
  obtains pool where "s1 = s\<lparr>sv_pool := pool\<rparr>" and "pool_loops s1 = pool_loops s" and "l \<in> insert 0 (set (pool_loops s))"
proof (cases "sv_pool s")
  case None
  then have "s1 = s\<lparr>sv_pool := None\<rparr>" "l = 0" using assms by (cases s; simp add: next_io_loop_def)+
  then show thesis using that None by (simp add: pool_loops_def)
next
  case (Some pool)
  show thesis
  proof (cases "\<not> lp_started pool \<or> lp_loops pool = []")
    case True
    then show thesis using assms that [of "Some pool"] Some by (auto simp: next_io_loop_def GetNextLoop_def pool_loops_def)
  next
    case False
    then have "lp_loops pool ! (lp_next_index pool mod length (lp_loops pool)) \<in> set (lp_loops pool)" by simp
    then show thesis
      using assms that [of "Some (snd (GetNextLoop pool))"] Some False
      by (auto simp: next_io_loop_def GetNextLoop_def pool_loops_def)
  qed
qed

lemma no_functors_yet:
  assumes "queues_inv s" and "sv_conns s c = None"
  shows "fn_count s l (SfEstablish c) = 0" "fn_count s l (SfDestroy c) = 0" "fn_count s l (SfRemove c) = 0"
proof -
  have "f \<notin> set (sv_queues s l)" if "fn_conn f = Some c" for f
    using queued_fn_ok [OF assms(1), of f l] assms(2) that by (cases f) auto
  then show "fn_count s l (SfEstablish c) = 0" "fn_count s l (SfDestroy c) = 0" "fn_count s l (SfRemove c) = 0"
    by (simp_all add: fn_count_def count_list_0_iff)
qed

text \<open>The state after \<open>NewConnection\<close> has filled the table, with the first functor run or queued.\<close>

definition tabled :: "conn_ptr \<Rightarrow> conn_obj \<Rightarrow> server \<Rightarrow> server" where
  "tabled c co s = put_conn c co
     (s\<lparr>sv_next_conn_id := sv_next_conn_id s + 1, sv_connections := map_put (co_name co) c (sv_connections s)\<rparr>)"

definition taken_in :: "conn_ptr \<Rightarrow> conn_obj \<Rightarrow> server \<Rightarrow> server" where
  "taken_in c co s =
     (if co_loop co = 0 then tabled c (co\<lparr>co_state := kConnected\<rparr>) s
      else queue_fn (co_loop co) (SfEstablish c) (tabled c co s))"

lemma tabled_queues_inv:
  assumes "queues_inv s" and "sv_conns s c = None"
  shows "queues_inv (tabled c co s)"
  by (rule queues_inv_advances [OF assms(1)]) (use assms(2) in \<open>auto simp: tabled_def advances_def\<close>)

lemma taken_in_inv:
  assumes inv: "srv_inv s" and new: "sv_conns s c = None" and up: "sv_acceptor s = Some True"
    and co: "co_id co = sv_next_conn_id s" "co_name co = conn_name (sv_name s) peer (co_id co) m"
      "co_state co = kConnecting" "\<not> co_removed co" "co_loop co \<in> insert 0 (set (pool_loops s))"
  shows "srv_inv (taken_in c co s)"
proof -
  let ?s = "taken_in c co s" and ?co = "if co_loop co = 0 then co\<lparr>co_state := kConnected\<rparr> else co"
  note ctrl = srv_invD(3) [OF inv] and none = no_functors_yet [OF srv_invD(2) [OF inv] new]
  have idle: "sv_joining s = None" "sv_quitting s = {}" using ctrl up by (auto simp: ctrl_inv_def)
  have count: "fn_count (tabled c co' s) l f = fn_count s l f" for co' l f
    by (simp add: tabled_def fn_count_def put_conn_def)
  have "conns_inv ?s"
  proof (rule conns_inv_insert [OF srv_invD(1,2) [OF inv] new, of ?co peer m])
    show "conn_ok ?s c ?co"
      using none co(3,4) by (auto simp: conn_ok_def taken_in_def count in_table_def) (simp_all add: tabled_def)
    show "fn_count ?s l f = fn_count s l f" if "fn_conn f \<noteq> None" "fn_conn f \<noteq> Some c" for l f
      using that by (auto simp: taken_in_def count)
  qed (use co in \<open>auto simp: taken_in_def tabled_def\<close>)
  moreover note q = tabled_queues_inv [OF srv_invD(2) [OF inv] new]
  have "queues_inv (queue_fn (co_loop co) (SfEstablish c) (tabled c co s))" if "co_loop co \<noteq> 0"
    by (rule queues_inv_push [OF q]) (use that idle no_quit_pending [OF q] in \<open>auto simp: tabled_def\<close>)
  then have "queues_inv ?s" using q by (auto simp: taken_in_def)
  moreover have "ctrl_inv (tabled c co' s)" if "co_loop co' = co_loop co" for co'
    using ctrl up idle co(5) that by (auto simp: ctrl_inv_def tabled_def put_conn_def pool_loops_def)
  then have "ctrl_inv ?s" using ctrl_inv_push by (auto simp: taken_in_def)
  moreover have "stop_inv ?s" using up by (simp add: stop_inv_def taken_in_def tabled_def)
  ultimately show ?thesis by (simp add: srv_inv_def)
qed

lemma srv_inv_cong:
  assumes "srv_inv s" and "sv_started s' = sv_started s" and "sv_acceptor s' = sv_acceptor s" and "sv_conns s' = sv_conns s"
    and "sv_stop_complete s' = sv_stop_complete s" and "sv_connections s' = sv_connections s" and "sv_joining s' = sv_joining s"
    and "sv_quitting s' = sv_quitting s" and "sv_exited s' = sv_exited s" and "sv_queues s' = sv_queues s"
    and "sv_next_conn_id s' = sv_next_conn_id s" and "sv_name s' = sv_name s" and "pool_loops s' = pool_loops s"
    and "sv_acceptor s = None \<longrightarrow> sv_pool s' = sv_pool s"
  shows "srv_inv s'"
proof -
  have "conns_inv s'" by (rule conns_inv_frame [OF srv_invD(1) [OF assms(1)]]) (simp_all add: fn_count_def assms)
  moreover have "queues_inv s'" by (rule queues_inv_advances [OF srv_invD(2) [OF assms(1)]]) (simp_all add: assms)
  moreover have "ctrl_inv s'" by (rule ctrl_inv_cong [OF srv_invD(3) [OF assms(1)]]) (rule assms)+
  moreover have "stop_inv s'" using srv_invD(4) [OF assms(1)] assms(14) by (auto simp: stop_inv_def assms(3-7))
  ultimately show ?thesis by (simp add: srv_inv_def)
qed

lemma srv_inv_pool_index:
  assumes "srv_inv s" and "pool_loops (s\<lparr>sv_pool := p\<rparr>) = pool_loops s" and "sv_acceptor s = Some True"
  shows "srv_inv (s\<lparr>sv_pool := p, sv_closed_fds := fds\<rparr>)" and "srv_inv (s\<lparr>sv_pool := p\<rparr>)"
  by (rule srv_inv_cong [OF assms(1)]; use assms(2,3) in \<open>simp add: pool_loops_def\<close>)+

lemma NewConnection_ok:
  assumes inv: "srv_inv s" and new: "sv_conns s c = None" and up: "sv_acceptor s = Some True"
    and fd: "sockfd \<ge> 0" and bound: "sv_next_conn_id s < 2 ^ 31 - 1"
  shows "\<exists>s'. NewConnection c sockfd peer sockname_ok s = Inr s' \<and> srv_inv s'"
proof -
  obtain l s1 where n: "next_io_loop s = (l, s1)" by fastforce
  then obtain pool where s1: "s1 = s\<lparr>sv_pool := pool\<rparr>" "pool_loops s1 = pool_loops s" "l \<in> insert 0 (set (pool_loops s))"
    by (rule next_io_loop_cases)
  have i1: "srv_inv s1" "srv_inv (s1\<lparr>sv_closed_fds := fds\<rparr>)" for fds
    using srv_inv_pool_index [OF inv _ up] s1(1,2) by simp_all
  let ?co = "\<lparr>co_id = sv_next_conn_id s, co_name = conn_name (sv_name s) peer (sv_next_conn_id s) (l = 0), co_loop = l,
    co_state = kConnecting, co_removed = False, co_cbs = given_cbs (sv_cbs s)\<rparr>"
  have "srv_inv (taken_in c ?co s1)"
    by (rule taken_in_inv [OF i1(1)]) (use new up s1 in \<open>auto simp: pool_loops_def\<close>)
  moreover have "NewConnection c sockfd peer sockname_ok s
      = Inr (if sockname_ok then taken_in c ?co s1 else s1\<lparr>sv_closed_fds := sv_closed_fds s1 @ [sockfd]\<rparr>)"
    using fd bound n s1(1)
    by (auto simp: NewConnection_def Let_def int_inc_def taken_in_def tabled_def run_in_loop_def Srv_ConnectEstablished_def
        with_conn_def life_establish_def put_conn_def)
  ultimately show ?thesis using i1(2) by auto
qed

section \<open>Every step keeps the invariant\<close>

lemma SetThreadNum_inv:
  assumes "srv_inv s"
  shows "srv_inv (SetThreadNum n s)"
  by (rule srv_inv_cong [OF assms]) (simp_all add: SetThreadNum_def pool_loops_def)

lemmas setter_defs = Srv_SetConnectionCallback_def Srv_SetMessageCallback_def Srv_SetWriteCompleteCallback_def
  Srv_SetHighWaterMarkCallback_def

lemma srv_set_inv:
  assumes "srv_inv s"
  shows "srv_inv (srv_set setter s)"
  by (rule srv_inv_cong [OF assms]) (cases setter; simp add: setter_defs pool_loops_def)+

lemma EvExit_inv:
  assumes inv: "srv_inv s" and l: "l \<in> sv_quitting s"
  shows "srv_inv (s\<lparr>sv_exited := insert l (sv_exited s)\<rparr>)"
proof -
  let ?s = "s\<lparr>sv_exited := insert l (sv_exited s)\<rparr>"
  have "conns_inv ?s" by (rule conns_inv_frame [OF srv_invD(1) [OF inv]]) (simp_all add: fn_count_def)
  moreover have "queues_inv ?s" by (rule queues_inv_advances [OF srv_invD(2) [OF inv]]) simp_all
  moreover have "ctrl_inv ?s" using srv_invD(3) [OF inv] l by (auto simp: ctrl_inv_def pool_loops_def)
  moreover have "stop_inv ?s" using srv_invD(4) [OF inv] by (simp add: stop_inv_def)
  ultimately show ?thesis by (simp add: srv_inv_def)
qed

lemma SfQuit_inv:
  assumes inv: "srv_inv s" and q: "sv_queues s l = SfQuit # fs"
  shows "srv_inv (pop_fn l s\<lparr>sv_quitting := insert l (sv_quitting s)\<rparr>)" (is "srv_inv ?s")
proof -
  have l: "l \<noteq> 0" and j: "\<exists>ls. sv_joining s = Some (l # ls)"
    using head_fn_ok [OF srv_invD(2) [OF inv] q] by auto
  have "SfQuit \<notin> set (butlast (SfQuit # fs))"
    using srv_invD(2) [OF inv] q unfolding queues_inv_def by metis
  then have fs: "fs = []" by (cases fs) auto
  have "conns_inv ?s"
    by (rule conns_inv_frame [OF srv_invD(1) [OF inv]]) (auto simp: fn_count_def pop_fn_def q)
  moreover have "queues_inv ?s"
  proof -
    note p = queues_inv_pop [OF srv_invD(2) [OF inv], of l]
    have empty: "sv_queues ?s l = []" using q fs by (simp add: pop_fn_def)
    have "fn_ok ?s l' f" if "f \<in> set (sv_queues ?s l')" for l' f
      by (rule fn_ok_advances [OF queued_fn_ok [OF p]]) (use that in simp_all)
    moreover have "SfQuit \<notin> set (butlast (sv_queues ?s l'))" for l'
      using p by (simp add: queues_inv_def)
    moreover have "sv_queues ?s l' = [] \<and> l' \<noteq> 0" if "l' \<in> sv_quitting ?s" for l'
      using that p l empty by (cases "l' = l") (simp_all add: queues_inv_def)
    ultimately show ?thesis unfolding queues_inv_def by blast
  qed
  moreover have "ctrl_inv ?s"
  proof -
    note ctrl = srv_invD(3) [OF inv]
    obtain ls where ls1: "sv_joining s = Some (l # ls)" using j by blast
    then have "\<exists>pre. pool_loops s = pre @ l # ls \<and> set pre \<subseteq> sv_quitting s"
      using ctrl unfolding ctrl_inv_def by blast
    then obtain pre where ls: "sv_joining s = Some (l # ls)" "pool_loops s = pre @ l # ls" "set pre \<subseteq> sv_quitting s"
      using ls1 by blast
    have "l \<notin> set ls" using ctrl ls(2) unfolding ctrl_inv_def by simp
    moreover have "pool_loops ?s = pool_loops s" by (simp add: pool_loops_def pop_fn_def)
    ultimately show ?thesis
      using ctrl ls unfolding ctrl_inv_def by (auto simp: pop_fn_def)
  qed
  moreover have "stop_inv ?s" using srv_invD(4) [OF inv] by (simp add: stop_inv_def pop_fn_def)
  ultimately show ?thesis by (simp add: srv_inv_def)
qed

lemma Srv_ShutdownInLoop_ok:
  assumes inv: "srv_inv s" and c: "sv_conns s c = Some co" and st: "co_state co = kConnected \<or> co_state co = kDisconnecting"
  shows "\<exists>s'. Srv_ShutdownInLoop c s = Inr s' \<and> srv_inv s'"
proof -
  let ?co = "co\<lparr>co_state := life_shutdown (co_state co)\<rparr>" and ?s = "put_conn c (co\<lparr>co_state := life_shutdown (co_state co)\<rparr>) s"
  have "conns_inv ?s"
  proof (rule conns_inv_update [OF srv_invD(1) [OF inv] c])
    show "conn_ok ?s c ?co"
      using conns_invD [OF srv_invD(1) [OF inv] c] st by (auto simp: conn_ok_def life_shutdown_def in_table_def)
  qed simp_all
  moreover have "queues_inv ?s"
    by (rule queues_inv_advances [OF srv_invD(2) [OF inv] advances_put_conn [OF c]]) simp_all
  moreover have "ctrl_inv ?s" by (rule ctrl_inv_put_conn [OF srv_invD(3) [OF inv] c]) simp
  moreover have "stop_inv ?s" by (rule stop_inv_put_conn [OF srv_invD(4) [OF inv] c]) simp
  ultimately show ?thesis using c by (simp add: srv_inv_def Srv_ShutdownInLoop_def with_conn_def)
qed

text \<open>Starting again is the one thing that fails: the acceptor is gone after \<open>Stop\<close>.\<close>

fun restarts :: "srv_ev \<Rightarrow> server \<Rightarrow> bool" where
  "restarts (EvStart in_loop start_thread listened) s \<longleftrightarrow> in_loop \<and> sv_acceptor s = None"
| "restarts (EvRun l start_thread listened) s \<longleftrightarrow> hd (sv_queues s l) = SfStart \<and> sv_acceptor s = None"
| "restarts _ s \<longleftrightarrow> False"

lemma new_loops_pop [simp]: "new_loops start_thread (pop_fn l s) = new_loops start_thread s"
  by (cases "sv_thread_num s > 0") (simp_all add: new_loops_def start_pool_def pop_fn_def)

lemma run_fn_ok:
  assumes inv: "srv_inv s" and en: "srv_enabled (EvRun l start_thread listened) s"
    and ok: "\<not> restarts (EvRun l start_thread listened) s"
  shows "\<exists>s'. srv_do (EvRun l start_thread listened) s = Inr s' \<and> srv_inv s'"
proof -
  obtain f fs where q: "sv_queues s l = f # fs" using en by (cases "sv_queues s l") auto
  note fok = head_fn_ok [OF srv_invD(2) [OF inv] q] and pop = pop_inv [OF inv q]
  show ?thesis
  proof (cases f)
    case SfStart
    then show ?thesis
      using StartInLoop_ok [OF pop, of start_thread listened] en ok q
      by simp
  next
    case (SfRemove c)
    then show ?thesis using RemoveConnectionInLoop_ok [OF inv, of c fs] q fok by auto
  next
    case (SfForceClose c)
    then obtain co where "sv_conns s c = Some co" "co_loop co = l" using fok by auto
    then show ?thesis using Srv_ForceCloseInLoop_ok [OF pop, of c co] q SfForceClose by auto
  qed (use q StopInLoop_ok [OF pop] Srv_ConnectEstablished_ok [OF inv] Srv_ConnectDestroyed_ok [OF inv] SfQuit_inv [OF inv] in auto)
qed

lemma srv_do_ok:
  assumes inv: "srv_inv s" and en: "srv_enabled e s" and ok: "\<not> restarts e s" and bound: "sv_next_conn_id s < 2 ^ 31 - 1"
  shows "\<exists>s'. srv_do e s = Inr s' \<and> srv_inv s'"
proof (cases e)
  case (EvStart in_loop start_thread listened)
  have "srv_inv (queue_fn 0 SfStart s)"
    by (rule push_inv [OF inv]) (use queued_fn_ok [OF srv_invD(2) [OF inv], of SfQuit 0] srv_invD(2) [OF inv] in \<open>auto simp: queues_inv_def\<close>)
  then show ?thesis
    using StartInLoop_ok [OF inv, of start_thread listened] en ok inv EvStart by (auto simp: TcpServer_Start_def)
next
  case (EvStop in_loop)
  have "srv_inv (queue_fn 0 SfStop s)"
    by (rule push_inv [OF inv]) (use queued_fn_ok [OF srv_invD(2) [OF inv], of SfQuit 0] srv_invD(2) [OF inv] in \<open>auto simp: queues_inv_def\<close>)
  then show ?thesis using StopInLoop_ok [OF inv] inv EvStop by (auto simp: TcpServer_Stop_def)
next
  case (EvRun l start_thread listened)
  then show ?thesis using run_fn_ok [OF inv] en ok by simp
next
  case EvJoined
  then show ?thesis using en EvJoined_inv [OF inv] by (auto split: option.splits list.splits)
next
  case (EvClose c)
  then obtain co where "sv_conns s c = Some co" "co_state co = kConnected \<or> co_state co = kDisconnecting"
    using en by (auto simp: conn_open_def dest: life_closeD split: option.splits)
  then show ?thesis using Srv_HandleClose_ok [OF inv, of c co] EvClose by auto
next
  case (EvShutdown c)
  then obtain co where "sv_conns s c = Some co" "co_state co = kConnected \<or> co_state co = kDisconnecting"
    using en by (auto simp: conn_open_def dest: life_closeD split: option.splits)
  then show ?thesis using Srv_ShutdownInLoop_ok [OF inv, of c co] EvShutdown by auto
qed (use en SetThreadNum_inv [OF inv] srv_set_inv [OF inv] EvExit_inv [OF inv] NewConnection_ok [OF inv _ _ _ bound] in auto)

section \<open>Reachable states\<close>

text \<open>Only \<open>NewConnection\<close> moves the counter.\<close>

lemma put_conn_next_id [simp]: "sv_next_conn_id (StopThreadPoolInLoop s) = sv_next_conn_id s"
  by (auto simp: StopThreadPoolInLoop_def join_next_def split: option.splits list.splits)

lemma RemoveConnectionInLoop_next_id: "RemoveConnectionInLoop c s = Inr s' \<Longrightarrow> sv_next_conn_id s' = sv_next_conn_id s"
  by (auto simp: RemoveConnectionInLoop_def with_conn_def rbind_eq_Inr_iff run_in_loop_def Srv_ConnectDestroyed_def
      split: option.splits if_splits)

lemma Srv_HandleClose_next_id: "Srv_HandleClose l c s = Inr s' \<Longrightarrow> sv_next_conn_id s' = sv_next_conn_id s"
  by (auto simp: Srv_HandleClose_def with_conn_def RemoveConnection_def run_in_loop_def
      split: option.splits if_splits dest: RemoveConnectionInLoop_next_id)

lemma Srv_ForceClose_next_id: "Srv_ForceClose c s = Inr s' \<Longrightarrow> sv_next_conn_id s' = sv_next_conn_id s"
  by (auto simp: Srv_ForceClose_def with_conn_def Srv_ForceCloseInLoop_def run_in_loop_def
      split: option.splits if_splits dest: Srv_HandleClose_next_id)

lemma force_close_all_next_id: "force_close_all cs s = Inr s' \<Longrightarrow> sv_next_conn_id s' = sv_next_conn_id s"
  by (induction cs arbitrary: s) (auto simp: rbind_eq_Inr_iff dest: Srv_ForceClose_next_id)

lemma StopInLoop_next_id: "StopInLoop s = Inr s' \<Longrightarrow> sv_next_conn_id s' = sv_next_conn_id s"
  by (auto simp: StopInLoop_def Let_def dest: force_close_all_next_id split: if_splits)

lemma StartInLoop_next_id: "StartInLoop st ok s = Inr s' \<Longrightarrow> sv_next_conn_id s' = sv_next_conn_id s"
  by (auto simp: StartInLoop_def Let_def split: if_splits option.splits)

lemmas next_id_dests = RemoveConnectionInLoop_next_id Srv_HandleClose_next_id StopInLoop_next_id StartInLoop_next_id

lemma run_fn_next_id:
  assumes "run_fn l st ok f s = Inr s'"
  shows "sv_next_conn_id s' = sv_next_conn_id s"
  using assms
  by (cases f) (auto simp: Srv_ConnectEstablished_def Srv_ConnectDestroyed_def Srv_ForceCloseInLoop_def with_conn_def
      split: option.splits if_splits dest: next_id_dests)

lemma NewConnection_next_id:
  assumes "NewConnection c fd peer ok s = Inr s'"
  shows "sv_next_conn_id s' \<in> {sv_next_conn_id s, int_inc (sv_next_conn_id s)}"
proof -
  obtain l s1 where n: "next_io_loop s = (l, s1)" by fastforce
  have "sv_next_conn_id s1 = sv_next_conn_id s" by (rule next_io_loop_cases [OF n]) simp
  then show ?thesis
    using assms n by (auto simp: NewConnection_def Let_def run_in_loop_def Srv_ConnectEstablished_def with_conn_def
        cpp_assert_eq_Inr_iff split: if_splits option.splits)
qed

lemma join_next_next_id [simp]: "sv_next_conn_id (join_next ls s) = sv_next_conn_id s"
  by (auto simp: join_next_def split: list.splits)

fun is_accept :: "srv_ev \<Rightarrow> bool" where
  "is_accept (EvAccept c fd peer ok) \<longleftrightarrow> True"
| "is_accept _ \<longleftrightarrow> False"

text \<open>The number of accepted connections of a run.\<close>

definition accepts :: "srv_ev list \<Rightarrow> nat" where
  "accepts es = length (filter is_accept es)"

lemma accepts_simps [simp]: "accepts [] = 0" "accepts (es @ es') = accepts es + accepts es'"
  "accepts [e] = (if is_accept e then 1 else 0)"
  by (simp_all add: accepts_def)

lemma srv_do_next_id:
  assumes "srv_do e s = Inr s'"
  shows "sv_next_conn_id s' \<in> {sv_next_conn_id s, if is_accept e then int_inc (sv_next_conn_id s) else sv_next_conn_id s}"
proof (cases e)
  case (EvRun l st ok)
  then show ?thesis using assms run_fn_next_id by fastforce
next
  case (EvAccept c fd peer ok)
  then show ?thesis using assms NewConnection_next_id by auto
next
  case (EvSetCallback setter)
  then show ?thesis using assms by (cases setter) (auto simp: setter_defs)
qed (use assms in \<open>auto simp: TcpServer_Start_def TcpServer_Stop_def SetThreadNum_def Srv_ShutdownInLoop_def with_conn_def
       dest: next_id_dests split: if_splits option.splits\<close>)

lemma step_not_restart:
  assumes "srv_inv s" and "srv_do e s = Inr s'"
  shows "\<not> restarts e s"
proof
  assume r: "restarts e s"
  then have "\<not> sv_started s" "sv_acceptor s = None" using assms(1) by (cases e; simp add: srv_inv_def ctrl_inv_def)+
  then have "srv_do e s = Inl NullDeref"
    using r by (cases e) (auto simp: TcpServer_Start_def StartInLoop_def)
  then show False using assms(2) by simp
qed

text \<open>As long as the counter has not wrapped around, every reachable state satisfies the invariant.\<close>

lemma srv_path_inv:
  assumes "ev_path srv_step s0 es s" and "srv_inv s0" and "sv_next_conn_id s0 + int (accepts es) < 2 ^ 31 - 1"
  shows "srv_inv s \<and> sv_next_conn_id s \<le> sv_next_conn_id s0 + int (accepts es)"
  using assms
proof (induction s0 es s rule: ev_path.induct)
  case (ev_snoc s0 es s e s')
  then have s: "srv_inv s" "sv_next_conn_id s \<le> sv_next_conn_id s0 + int (accepts es)" by simp_all
  from ev_snoc.hyps(2) have step: "srv_enabled e s" "srv_do e s = Inr s'" by (auto elim: srv_stepE)
  have b: "sv_next_conn_id s < 2 ^ 31 - 1" using s(2) ev_snoc.prems by simp
  from srv_do_ok [OF s(1) step(1) step_not_restart [OF s(1) step(2)] b] have "srv_inv s'" using step(2) by simp
  moreover have "sv_next_conn_id s' \<le> sv_next_conn_id s0 + int (accepts (es @ [e]))"
    using srv_do_next_id [OF step(2)] s(2) b by (auto simp: int_inc_def)
  ultimately show ?case by blast
qed auto

lemma srv_reachable:
  assumes "ev_path srv_step (TcpServer_ctor name addr) es s" and "accepts es < 2 ^ 31 - 2"
  shows "srv_inv s" "sv_next_conn_id s < 2 ^ 31 - 1" "sv_next_conn_id s \<le> 1 + int (accepts es)"
proof -
  have "sv_next_conn_id (TcpServer_ctor name addr) = 1" by (simp add: TcpServer_ctor_def)
  moreover have "int (accepts es) < 2 ^ 31 - 2" using assms(2) by simp
  ultimately show "srv_inv s" "sv_next_conn_id s < 2 ^ 31 - 1" "sv_next_conn_id s \<le> 1 + int (accepts es)"
    using srv_path_inv [OF assms(1) TcpServer_ctor_inv] by auto
qed

end
