(* ===== verification/Server_Stop.thy ===== *)
theory Server_Stop
  imports Server_Lifecycle
begin

text \<open>
  What \<open>Stop\<close> of the server achieves. \<open>StopInLoop\<close> asks every connection of the table to close; from then on a
  connection that is still open has that request in its loop's queue, so the loops cannot come
  to rest before the table is empty and the pool has been stopped. The properties of the server
  are at the end.
\<close>

section \<open>Connections on their way out\<close>

definition co_open :: "conn_obj \<Rightarrow> bool" where
  "co_open co \<longleftrightarrow> co_state co = kConnected \<or> co_state co = kDisconnecting"

text \<open>No connection is opened and no request to close is lost.\<close>

definition winds_down :: "server \<Rightarrow> server \<Rightarrow> bool" where
  "winds_down s s' \<longleftrightarrow>
     (\<forall>c co'. sv_conns s' c = Some co' \<longrightarrow>
        (\<exists>co. sv_conns s c = Some co \<and> co_loop co' = co_loop co \<and> (co_open co' \<longrightarrow> co_open co)
              \<and> (co_state co' = kConnecting \<longrightarrow> co_state co = kConnecting)))
     \<and> (\<forall>c l. SfForceClose c \<in> set (sv_queues s l) \<longrightarrow> SfForceClose c \<in> set (sv_queues s' l))"

definition asked :: "server \<Rightarrow> conn_ptr \<Rightarrow> bool" where
  "asked s c \<longleftrightarrow>
     (\<forall>co. sv_conns s c = Some co \<longrightarrow> co_state co \<noteq> kConnecting \<and> (co_open co \<longrightarrow> SfForceClose c \<in> set (sv_queues s (co_loop co))))"

lemma winds_down_refl [simp]: "winds_down s s"
  by (auto simp: winds_down_def)

lemma winds_down_trans: "winds_down s s' \<Longrightarrow> winds_down s' s'' \<Longrightarrow> winds_down s s''"
  unfolding winds_down_def by (metis (no_types, lifting))

lemma asked_winds_down: "asked s c \<Longrightarrow> winds_down s s' \<Longrightarrow> asked s' c"
  unfolding winds_down_def asked_def by (metis (no_types, lifting))

lemma winds_down_frame:
  "sv_conns s' = sv_conns s \<Longrightarrow> (\<And>l. set (sv_queues s l) \<subseteq> set (sv_queues s' l)) \<Longrightarrow> winds_down s s'"
  by (auto simp: winds_down_def)

lemma winds_down_queue_fn [simp]: "winds_down s (queue_fn l f s)"
  by (rule winds_down_frame) (auto simp: queue_fn_def)

lemma winds_down_pop:
  "sv_queues s l = f # fs \<Longrightarrow> (\<And>c. f \<noteq> SfForceClose c) \<Longrightarrow> winds_down s (pop_fn l s)"
  by (auto simp: winds_down_def pop_fn_def)

lemma winds_down_put_conn:
  assumes "sv_conns s c = Some co" and "co_loop co' = co_loop co" and "co_open co' \<longrightarrow> co_open co" and "co_state co' \<noteq> kConnecting"
  shows "winds_down s (put_conn c co' s)"
  using assms by (auto simp: winds_down_def)

lemma winds_down_join_next [simp]: "winds_down s (join_next ls s)"
  by (rule winds_down_frame) (auto simp: join_next_def queue_fn_def split: list.splits)

lemma winds_down_StopThreadPool [simp]: "winds_down s (StopThreadPoolInLoop s)"
proof (cases "sv_pool s")
  case None
  then show ?thesis by (auto simp: StopThreadPoolInLoop_def intro: winds_down_frame)
qed (simp add: StopThreadPoolInLoop_def)

lemma winds_down_RemoveConnectionInLoop:
  assumes "RemoveConnectionInLoop c s = Inr s'" and "sv_conns s c = Some co" and "co_state co = kDisconnected"
  shows "winds_down s s'"
proof -
  let ?s = "s\<lparr>sv_connections := map_erase (co_name co) (sv_connections s)\<rparr>"
  have 0: "winds_down s ?s" by (rule winds_down_frame) simp_all
  obtain s1 where r: "run_in_loop 0 (co_loop co) (SfDestroy c) (Srv_ConnectDestroyed c) ?s = Inr s1"
    and s': "s' = s1 \<or> s' = StopThreadPoolInLoop s1"
    using assms by (auto simp: RemoveConnectionInLoop_def with_conn_def rbind_eq_Inr_iff split: if_splits)
  have "winds_down ?s (put_conn c (co\<lparr>co_state := kDisconnected, co_removed := True\<rparr>) ?s)"
    by (rule winds_down_put_conn [of ?s c co]) (use assms(2) in \<open>simp_all add: co_open_def\<close>)
  then have "winds_down ?s s1"
    using r assms(2,3) by (auto simp: run_in_loop_def Srv_ConnectDestroyed_def with_conn_def life_destroy_def split: if_splits)
  then have "winds_down s s1" by (rule winds_down_trans [OF 0])
  then show ?thesis using s' winds_down_trans by fastforce
qed

lemma Srv_HandleClose_effect:
  assumes "Srv_HandleClose l c s = Inr s'" and "sv_conns s c = Some co"
  shows "winds_down s s' \<and> asked s' c"
proof -
  have op: "co_open co" using assms by (auto simp: Srv_HandleClose_def with_conn_def co_open_def dest: life_closeD split: option.splits)
  let ?co = "co\<lparr>co_state := kDisconnected\<rparr>"
  have 1: "winds_down s (put_conn c ?co s)"
    by (rule winds_down_put_conn [OF assms(2)]) (use op in \<open>simp_all add: co_open_def\<close>)
  have "RemoveConnection l c (put_conn c ?co s) = Inr s'"
    using assms by (auto simp: Srv_HandleClose_def with_conn_def dest: life_closeD split: option.splits)
  then have 2: "winds_down (put_conn c ?co s) s'"
    using winds_down_RemoveConnectionInLoop [of c "put_conn c ?co s" s' ?co]
    by (auto simp: RemoveConnection_def run_in_loop_def split: if_splits)
  have "asked (put_conn c ?co s) c" by (simp add: asked_def co_open_def)
  then show ?thesis using asked_winds_down [OF _ 2] winds_down_trans [OF 1 2] by blast
qed

lemma Srv_ForceClose_effect:
  assumes "Srv_ForceClose c s = Inr s'" and "sv_conns s c = Some co" and "co_state co \<noteq> kConnecting"
  shows "winds_down s s' \<and> asked s' c"
proof (cases "life_close (co_state co)")
  case None
  then have "s' = s" "\<not> co_open co" using assms(1,2) by (auto simp: Srv_ForceClose_def with_conn_def co_open_def life_close_def split: if_splits)
  then show ?thesis using assms(2,3) by (auto simp: asked_def)
next
  case (Some st)
  show ?thesis
  proof (cases "co_loop co = 0")
    case True
    then show ?thesis
      using assms(1,2) Some Srv_HandleClose_effect [of 0 c s s' co]
      by (auto simp: Srv_ForceClose_def with_conn_def run_in_loop_def Srv_ForceCloseInLoop_def)
  next
    case False
    then have "s' = queue_fn (co_loop co) (SfForceClose c) s"
      using assms(1,2) Some by (auto simp: Srv_ForceClose_def with_conn_def run_in_loop_def)
    moreover have "asked (queue_fn (co_loop co) (SfForceClose c) s) c"
      using assms(2,3) by (simp add: asked_def queue_fn_def)
    ultimately show ?thesis by simp
  qed
qed

lemma force_close_all_effect:
  assumes "force_close_all cs s = Inr s'" and "\<And>c co. sv_conns s c = Some co \<Longrightarrow> co_state co \<noteq> kConnecting"
  shows "winds_down s s' \<and> (\<forall>c \<in> set cs. asked s' c)"
  using assms
proof (induction cs arbitrary: s)
  case (Cons c cs)
  obtain s1 where s1: "Srv_ForceClose c s = Inr s1" "force_close_all cs s1 = Inr s'"
    using Cons.prems(1) by (auto simp: rbind_eq_Inr_iff)
  obtain co where co: "sv_conns s c = Some co" using s1(1) by (auto simp: Srv_ForceClose_def with_conn_def split: option.splits)
  note e = Srv_ForceClose_effect [OF s1(1) co Cons.prems(2) [OF co]]
  have "co_state co' \<noteq> kConnecting" if "sv_conns s1 d = Some co'" for d co'
    using e that Cons.prems(2) unfolding winds_down_def by blast
  then have "winds_down s1 s' \<and> (\<forall>c \<in> set cs. asked s' c)" using Cons.IH [OF s1(2)] by blast
  then show ?case using e asked_winds_down winds_down_trans by auto
qed simp

section \<open>Until the server has stopped\<close>

definition stopping :: "server \<Rightarrow> bool" where
  "stopping s \<longleftrightarrow> sv_acceptor s = None \<and> (\<forall>c. asked s c)"

lemma StopThreadPool_acceptor [simp]: "sv_acceptor (StopThreadPoolInLoop s) = sv_acceptor s"
  by (auto simp: StopThreadPoolInLoop_def join_next_def split: option.splits list.splits)

lemma RemoveConnectionInLoop_acceptor: "RemoveConnectionInLoop c s = Inr s' \<Longrightarrow> sv_acceptor s' = sv_acceptor s"
  by (auto simp: RemoveConnectionInLoop_def with_conn_def rbind_eq_Inr_iff run_in_loop_def Srv_ConnectDestroyed_def
      split: option.splits if_splits)

lemma Srv_HandleClose_acceptor: "Srv_HandleClose l c s = Inr s' \<Longrightarrow> sv_acceptor s' = sv_acceptor s"
  by (auto simp: Srv_HandleClose_def with_conn_def RemoveConnection_def run_in_loop_def
      split: option.splits if_splits dest: RemoveConnectionInLoop_acceptor)

lemma force_close_all_acceptor: "force_close_all cs s = Inr s' \<Longrightarrow> sv_acceptor s' = sv_acceptor s"
proof (induction cs arbitrary: s)
  case (Cons c cs)
  then obtain s1 where s1: "Srv_ForceClose c s = Inr s1" "force_close_all cs s1 = Inr s'"
    by (auto simp: rbind_eq_Inr_iff)
  have "sv_acceptor s1 = sv_acceptor s"
    using s1(1) by (auto simp: Srv_ForceClose_def with_conn_def Srv_ForceCloseInLoop_def run_in_loop_def
        split: option.splits if_splits dest: Srv_HandleClose_acceptor)
  then show ?case using Cons.IH [OF s1(2)] by simp
qed simp

lemma stopping_winds_down: "stopping s \<Longrightarrow> winds_down s s' \<Longrightarrow> sv_acceptor s' = sv_acceptor s \<Longrightarrow> stopping s'"
  by (auto simp: stopping_def intro: asked_winds_down)

lemma StopInLoop_stopping:
  assumes inv: "srv_inv s" and st: "sv_started s" and "StopInLoop s = Inr s'"
    and none: "\<And>c co. sv_conns s c = Some co \<Longrightarrow> co_state co \<noteq> kConnecting"
  shows "stopping s'"
proof (cases "sv_connections s = []")
  case True
  have "asked s c" for c
    using conns_invD [OF srv_invD(1) [OF inv], of c] True none [of c]
    by (auto simp: asked_def co_open_def conn_ok_def in_table_def)
  then have "stopping (s\<lparr>sv_started := False, sv_acceptor := None\<rparr>)"
    by (simp add: stopping_def asked_def)
  then have "stopping (StopThreadPoolInLoop (s\<lparr>sv_started := False, sv_acceptor := None\<rparr>))"
    by (rule stopping_winds_down) simp_all
  then show ?thesis using assms(3) st True by (simp add: StopInLoop_def)
next
  case False
  let ?s = "s\<lparr>sv_started := False, sv_acceptor := None, sv_stop_complete := False\<rparr>"
  have f: "force_close_all (map snd (sv_connections s)) ?s = Inr s'"
    using assms(3) st False by (simp add: StopInLoop_def)
  note e = force_close_all_effect [OF f]
  have "asked s' c" for c
  proof (cases "c \<in> set (map snd (sv_connections s))")
    case True
    then show ?thesis using e none by auto
  next
    case out: False
    have "asked ?s c"
    proof -
      have "\<not> co_open co" if c: "sv_conns s c = Some co" for co
      proof
        assume "co_open co"
        then have "(co_name co, c) \<in> set (sv_connections s)"
          using conns_invD [OF srv_invD(1) [OF inv] c] by (auto simp: co_open_def conn_ok_def in_table_def dest: map_of_SomeD)
        then show False using out by force
      qed
      then show ?thesis using none by (auto simp: asked_def)
    qed
    then show ?thesis using e none asked_winds_down by simp
  qed
  then show ?thesis using force_close_all_acceptor [OF f] by (simp add: stopping_def)
qed

lemma not_started: "srv_inv s \<Longrightarrow> stopping s \<Longrightarrow> \<not> sv_started s"
  by (simp add: srv_inv_def ctrl_inv_def stopping_def)

lemma run_force_close_stopping:
  assumes inv: "srv_inv s" and st: "stopping s" and q: "sv_queues s l = SfForceClose c # fs"
    and r: "Srv_ForceCloseInLoop l c (pop_fn l s) = Inr s'"
  shows "stopping s'"
proof -
  obtain co where co: "sv_conns s c = Some co" "co_loop co = l"
    using head_fn_ok [OF srv_invD(2) [OF inv] q] by auto
  have other: "asked (pop_fn l s) d" if "d \<noteq> c" for d
    unfolding asked_def
  proof (intro allI impI)
    fix co assume d: "sv_conns (pop_fn l s) d = Some co"
    then have "co_state co \<noteq> kConnecting \<and> (co_open co \<longrightarrow> SfForceClose d \<in> set (sv_queues s (co_loop co)))"
      using st by (simp add: stopping_def asked_def)
    then show "co_state co \<noteq> kConnecting \<and> (co_open co \<longrightarrow> SfForceClose d \<in> set (sv_queues (pop_fn l s) (co_loop co)))"
      using q that by (cases "co_loop co = l") (auto simp: pop_fn_def)
  qed
  show ?thesis
  proof (cases "life_close (co_state co)")
    case None
    then have "s' = pop_fn l s" using r co by (simp add: Srv_ForceCloseInLoop_def with_conn_def)
    moreover have "asked (pop_fn l s) c"
      using st co None by (auto simp: stopping_def asked_def co_open_def life_close_def)
    ultimately show ?thesis using other st by (metis stopping_def sel_simps(8))
  next
    case (Some x)
    then have h: "Srv_HandleClose l c (pop_fn l s) = Inr s'" using r co by (simp add: Srv_ForceCloseInLoop_def with_conn_def)
    then have "winds_down (pop_fn l s) s' \<and> asked s' c" by (rule Srv_HandleClose_effect) (simp add: co)
    then have "asked s' d" for d using other asked_winds_down by (cases "d = c") auto
    then show ?thesis using Srv_HandleClose_acceptor [OF h] st by (simp add: stopping_def)
  qed
qed

lemma head_remove:
  assumes inv: "srv_inv s" and q: "sv_queues s l = SfRemove c # fs"
  obtains co where "l = 0" and "sv_conns s c = Some co" and "co_state co = kDisconnected"
proof -
  have l: "l = 0" and "sv_conns s c \<noteq> None" using head_fn_ok [OF srv_invD(2) [OF inv] q] by auto
  then obtain co where co: "sv_conns s c = Some co" by blast
  have "co_state co = kDisconnected"
    using conns_invD [OF srv_invD(1) [OF inv] co] head_fn_count [OF q] l
    by (cases "co_state co") (auto simp: conn_ok_def split: if_splits)
  with l co show ?thesis by (rule that)
qed

lemma run_fn_stopping:
  assumes inv: "srv_inv s" and st: "stopping s" and q: "sv_queues s l = f # fs"
    and r: "run_fn l starter ok f (pop_fn l s) = Inr s'"
  shows "stopping s'"
proof (cases f)
  case SfStart
  then show ?thesis using r not_started [OF inv st] st by (simp add: StartInLoop_def stopping_def)
next
  case SfStop
  have "stopping (pop_fn l s)" by (rule stopping_winds_down [OF st winds_down_pop [OF q]]) (use SfStop in simp_all)
  then show ?thesis using r SfStop not_started [OF inv st] by (simp add: StopInLoop_def)
next
  case (SfRemove c)
  obtain co where l: "l = 0" and co: "sv_conns s c = Some co" "co_state co = kDisconnected"
    using head_remove [OF inv q [unfolded SfRemove]] .
  then have "winds_down (pop_fn l s) s'"
    using winds_down_RemoveConnectionInLoop [of c "pop_fn l s" s' co] r SfRemove by simp
  then show ?thesis
    using stopping_winds_down [OF st winds_down_trans [OF winds_down_pop [OF q]]] r SfRemove
    by (auto dest: RemoveConnectionInLoop_acceptor)
next
  case (SfEstablish c)
  then obtain co where co: "sv_conns s c = Some co" "co_loop co = l"
    using head_fn_ok [OF srv_invD(2) [OF inv] q] by auto
  have "co_state co = kConnecting"
    using conns_invD [OF srv_invD(1) [OF inv] co(1)] head_fn_count [OF q] SfEstablish co(2)
    by (cases "co_state co") (auto simp: conn_ok_def)
  then show ?thesis using st co by (auto simp: stopping_def asked_def)
next
  case (SfForceClose c)
  then show ?thesis using run_force_close_stopping [OF inv st] q r by simp
next
  case (SfDestroy c)
  then obtain co x where co: "sv_conns s c = Some co" and s': "s' = put_conn c (co\<lparr>co_state := x, co_removed := True\<rparr>) (pop_fn l s)"
    "life_destroy (co_state co) = Some x"
    using r by (auto simp: Srv_ConnectDestroyed_def with_conn_def split: option.splits)
  have "winds_down (pop_fn l s) s'"
    unfolding s' by (rule winds_down_put_conn [of _ c co])
      (use co s'(2) st in \<open>auto simp: life_destroy_def co_open_def stopping_def asked_def split: if_splits\<close>)
  then show ?thesis
    using stopping_winds_down [OF st winds_down_trans [OF winds_down_pop [OF q]]] SfDestroy s' by simp
next
  case SfQuit
  have "winds_down (pop_fn l s) s'" by (rule winds_down_frame) (use r SfQuit in auto)
  then show ?thesis
    using stopping_winds_down [OF st winds_down_trans [OF winds_down_pop [OF q]]] SfQuit r by auto
qed

lemma stopping_step:
  assumes inv: "srv_inv s" and st: "stopping s" and step: "srv_step s e s'"
  shows "stopping s'"
proof -
  have en: "srv_enabled e s" and r: "srv_do e s = Inr s'" using step by (auto elim: srv_stepE)
  note ns = not_started [OF inv st]
  show ?thesis
  proof (cases e)
    case (EvRun l starter ok)
    then have "sv_queues s l = hd (sv_queues s l) # tl (sv_queues s l)" using en by simp
    then show ?thesis using run_fn_stopping [OF inv st] r EvRun by simp
  next
    case (EvClose c)
    then obtain co where "sv_conns s c = Some co" using en by (auto simp: conn_open_def split: option.splits)
    then show ?thesis
      using r EvClose Srv_HandleClose_effect [of "co_loop co" c s s' co] stopping_winds_down [OF st] Srv_HandleClose_acceptor by auto
  next
    case (EvShutdown c)
    then obtain co where co: "sv_conns s c = Some co" "co_open co"
      using en by (auto simp: conn_open_def co_open_def dest: life_closeD split: option.splits)
    have "winds_down s (put_conn c (co\<lparr>co_state := life_shutdown (co_state co)\<rparr>) s)"
      by (rule winds_down_put_conn [OF co(1)]) (use co(2) in \<open>auto simp: co_open_def life_shutdown_def\<close>)
    then show ?thesis using r EvShutdown co stopping_winds_down [OF st] by (auto simp: Srv_ShutdownInLoop_def with_conn_def)
  next
    case (EvSetThreadNum n)
    have "winds_down s s'" by (rule winds_down_frame) (use r EvSetThreadNum in \<open>auto simp: SetThreadNum_def\<close>)
    then show ?thesis using stopping_winds_down [OF st] r EvSetThreadNum by (auto simp: SetThreadNum_def split: if_splits)
  next
    case (EvSetCallback setter)
    have same: "sv_conns (srv_set setter s) = sv_conns s" "sv_queues (srv_set setter s) = sv_queues s"
      "sv_acceptor (srv_set setter s) = sv_acceptor s"
      by (cases setter; simp add: setter_defs)+
    have "winds_down s s'" by (rule winds_down_frame) (use r EvSetCallback same in auto)
    then show ?thesis using stopping_winds_down [OF st] r EvSetCallback same by auto
  next
    case (EvExit l)
    have "winds_down s s'" by (rule winds_down_frame) (use r EvExit in auto)
    then show ?thesis using stopping_winds_down [OF st] r EvExit by auto
  next
    case EvJoined
    have "sv_acceptor (join_next ls s) = sv_acceptor s" for ls by (simp add: join_next_def split: list.splits)
    then show ?thesis using stopping_winds_down [OF st winds_down_join_next] r EvJoined by auto
  next
    case (EvStart in_loop starter ok)
    then have "s' = queue_fn 0 SfStart s"
      using r ns st by (auto simp: TcpServer_Start_def StartInLoop_def stopping_def split: if_splits)
    then show ?thesis using stopping_winds_down [OF st winds_down_queue_fn] by simp
  qed (use en r ns st in \<open>auto simp: stopping_def TcpServer_Stop_def\<close>)
qed

lemma rest_means_stopped:
  assumes inv: "srv_inv s" and st: "stopping s" and quiet: "srv_quiet s"
  shows "IsFullyStopped s"
proof (cases "sv_joining s")
  case (Some js)
  then obtain l ls where js: "js = l # ls" using srv_invD(3) [OF inv] by (cases js) (auto simp: ctrl_inv_def)
  have l: "l \<in> set (pool_loops s)" "SfQuit \<in> set (sv_queues s l) \<or> l \<in> sv_quitting s"
    using srv_invD(3) [OF inv] Some js unfolding ctrl_inv_def by (force, force)
  have "l \<in> sv_exited s"
  proof (rule ccontr)
    assume "l \<notin> sv_exited s"
    moreover have "l \<noteq> 0" using l(1) srv_invD(3) [OF inv] by (auto simp: ctrl_inv_def)
    ultimately show False using quiet l(2) by (auto simp: srv_quiet_def alive_def)
  qed
  then show ?thesis using quiet Some js by (simp add: srv_quiet_def)
next
  case None
  show ?thesis
  proof (cases "sv_connections s")
    case Nil
    then show ?thesis
      using srv_invD(4) [OF inv] st None by (simp add: stop_inv_def stopping_def IsFullyStopped_def)
  next
    case (Cons e es)
    obtain nm c where e: "e = (nm, c)" by fastforce
    then have "(nm, c) \<in> set (sv_connections s)" using Cons by simp
    from table_entry [OF srv_invD(1) [OF inv] this] obtain co where co: "sv_conns s c = Some co" "co_name co = nm" by blast
    have tab: "in_table s c co" using Cons e co(2) by (simp add: in_table_def)
    note cok = conns_invD [OF srv_invD(1) [OF inv] co(1)] and busy = in_table_busy [OF tab srv_invD(3) [OF inv]]
    have a0: "sv_queues s 0 = []" using quiet None by (auto simp: srv_quiet_def alive_def)
    have "\<not> sv_stop_complete s" using srv_invD(4) [OF inv] st Cons by (auto simp: stop_inv_def stopping_def)
    then have "co_loop co = 0 \<or> co_loop co \<notin> sv_exited s"
      using srv_invD(3) [OF inv] co(1) busy(2) unfolding ctrl_inv_def by blast
    then have "sv_queues s (co_loop co) = []"
      using quiet a0 by (cases "co_loop co = 0") (auto simp: srv_quiet_def alive_def)
    moreover have "co_open co" using st co(1) cok tab a0
      by (cases "co_state co") (auto simp: stopping_def asked_def co_open_def conn_ok_def fn_count_def)
    ultimately have "SfForceClose c \<in> set (sv_queues s (co_loop co))"
      using st co(1) unfolding stopping_def asked_def by blast
    then show ?thesis using \<open>sv_queues s (co_loop co) = []\<close> by simp
  qed
qed

lemma stopping_path:
  assumes "ev_path srv_step s0 es s" and "srv_inv s0" and "stopping s0" and "sv_next_conn_id s0 < 2 ^ 31 - 1"
  shows "srv_inv s \<and> stopping s \<and> sv_next_conn_id s = sv_next_conn_id s0"
  using assms
proof (induction s0 es s rule: ev_path.induct)
  case (ev_snoc s0 es s e s')
  then have s: "srv_inv s" "stopping s" "sv_next_conn_id s = sv_next_conn_id s0" by simp_all
  from ev_snoc.hyps(2) have step: "srv_enabled e s" "srv_do e s = Inr s'" by (auto elim: srv_stepE)
  have "srv_inv s'"
    using srv_do_ok [OF s(1) step(1) step_not_restart [OF s(1) step(2)]] step(2) s(3) ev_snoc.prems(3) by simp
  moreover have "\<not> is_accept e" using step(1) s(2) by (cases e) (auto simp: stopping_def)
  then have "sv_next_conn_id s' = sv_next_conn_id s" using srv_do_next_id [OF step(2)] by simp
  ultimately show ?case using stopping_step [OF s(1,2) ev_snoc.hyps(2)] s(3) by simp
qed simp

lemma fully_stopped:
  assumes inv: "srv_inv s" and full: "IsFullyStopped s"
  shows "sv_connections s = [] \<and> sv_joining s = None \<and> (sv_acceptor s = None \<longrightarrow> sv_pool s = None)
    \<and> (\<forall>c co. sv_conns s c = Some co \<longrightarrow> co_state co = kDisconnected \<and> co_removed co)
    \<and> (\<forall>l c. SfEstablish c \<notin> set (sv_queues s l) \<and> SfDestroy c \<notin> set (sv_queues s l) \<and> SfRemove c \<notin> set (sv_queues s l))"
proof -
  have acc: "sv_acceptor s = None \<or> sv_acceptor s = Some False"
    using srv_invD(3) [OF inv] full unfolding ctrl_inv_def IsFullyStopped_def by (cases "sv_acceptor s") auto
  have empty: "sv_connections s = [] \<and> sv_joining s = None \<and> (sv_acceptor s = None \<longrightarrow> sv_pool s = None)
      \<and> (\<forall>c co. sv_conns s c = Some co \<longrightarrow> co_removed co)"
  proof (cases "sv_acceptor s = None")
    case True
    then show ?thesis using srv_invD(4) [OF inv] full by (auto simp: stop_inv_def IsFullyStopped_def split: if_splits)
  next
    case False
    then have a: "sv_acceptor s = Some False" using acc by (cases "sv_acceptor s") simp_all
    then have "sv_conns s = Map.empty" "sv_joining s = None" using srv_invD(3) [OF inv] by (auto simp: ctrl_inv_def)
    moreover have "sv_connections s = []"
      using calculation(1) table_entry [OF srv_invD(1) [OF inv]] by (cases "sv_connections s") fastforce+
    ultimately show ?thesis using a by simp
  qed
  have gone: "co_state co = kDisconnected \<and> co_removed co \<and> fn_count s (co_loop co) (SfEstablish c) = 0
      \<and> fn_count s (co_loop co) (SfDestroy c) = 0 \<and> fn_count s 0 (SfRemove c) = 0" if c: "sv_conns s c = Some co" for c co
    using conns_invD [OF srv_invD(1) [OF inv] c] empty c
    by (cases "co_state co") (auto simp: conn_ok_def in_table_def split: if_splits)
  have "f \<notin> set (sv_queues s l)" if "fn_conn f = Some c" for l f c
  proof
    assume f: "f \<in> set (sv_queues s l)"
    have "fn_count s l f \<noteq> 0" using f by (simp add: fn_count_def count_list_0_iff)
    moreover have "fn_count s l f = 0"
      using queued_fn_ok [OF srv_invD(2) [OF inv] f] gone that by (cases f) fastforce+
    ultimately show False by simp
  qed
  then have "\<forall>l c. SfEstablish c \<notin> set (sv_queues s l) \<and> SfDestroy c \<notin> set (sv_queues s l) \<and> SfRemove c \<notin> set (sv_queues s l)"
    by simp
  then show ?thesis using empty gone by blast
qed

section \<open>Properties\<close>

text \<open>
  C3. Whatever the interleaving of the loops, of \<open>Start\<close>, \<open>Stop\<close> and \<open>SetThreadNum\<close> in any thread, of accepted,
  shut down and closing connections (fewer than the connection counter can number): no functor
  fails an assertion, except \<open>StartInLoop\<close> after a \<open>Stop\<close>. A connection is in the table under its name as
  long as it is not disconnected, and \<open>ConnectDestroyed\<close> runs only for connections that are disconnected
  and out of the table. \<open>IsFullyStopped\<close> tells the truth: then the table is empty, every connection
  there ever was is disconnected and destroyed, no join is going on, no functor of a connection is
  pending in any loop, and after a \<open>Stop\<close> the pool is gone.
\<close>

theorem server_safe:
  assumes "ev_path srv_step (TcpServer_ctor name addr) es s" and "accepts es < 2 ^ 31 - 2"
  shows "(\<forall>e. srv_enabled e s \<and> \<not> restarts e s \<longrightarrow> (\<exists>s'. srv_do e s = Inr s'))
    \<and> (\<forall>c co. sv_conns s c = Some co \<longrightarrow>
         (co_state co \<noteq> kDisconnected \<longrightarrow> map_of (sv_connections s) (co_name co) = Some c)
         \<and> (co_removed co \<longrightarrow> co_state co = kDisconnected \<and> map_of (sv_connections s) (co_name co) \<noteq> Some c))
    \<and> (IsFullyStopped s \<longrightarrow> sv_connections s = [] \<and> sv_joining s = None
         \<and> (\<forall>c co. sv_conns s c = Some co \<longrightarrow> co_state co = kDisconnected \<and> co_removed co)
         \<and> (\<forall>l c. SfEstablish c \<notin> set (sv_queues s l) \<and> SfDestroy c \<notin> set (sv_queues s l) \<and> SfRemove c \<notin> set (sv_queues s l))
         \<and> (sv_acceptor s = None \<longrightarrow> sv_pool s = None))"
proof (intro conjI allI impI)
  note inv = srv_reachable(1) [OF assms]
  show "\<exists>s'. srv_do e s = Inr s'" if "srv_enabled e s \<and> \<not> restarts e s" for e
    using srv_do_ok [OF inv, of e] srv_reachable(2) [OF assms] that by blast
  fix c co assume c: "sv_conns s c = Some co"
  note cok = conns_invD [OF srv_invD(1) [OF inv] c]
  show "map_of (sv_connections s) (co_name co) = Some c" if "co_state co \<noteq> kDisconnected"
    using cok that by (cases "co_state co") (simp_all add: conn_ok_def in_table_def)
  assume "co_removed co"
  then show "co_state co = kDisconnected" "map_of (sv_connections s) (co_name co) \<noteq> Some c"
    using cok by (cases "co_state co"; auto simp: conn_ok_def in_table_def split: if_splits)+
next
  note inv = srv_reachable(1) [OF assms]
  assume full: "IsFullyStopped s"
  note down = fully_stopped [OF inv full]
  show "sv_connections s = []" "sv_joining s = None" using down by blast+
  show "sv_pool s = None" if "sv_acceptor s = None" using down that by blast
  show "co_state co = kDisconnected" "co_removed co" if "sv_conns s c = Some co" for c co
    using down that by blast+
  show "SfEstablish c \<notin> set (sv_queues s l)" "SfDestroy c \<notin> set (sv_queues s l)" "SfRemove c \<notin> set (sv_queues s l)" for l c
    using down by blast+
qed

text \<open>Running a list of events.\<close>

fun srv_run :: "srv_ev list \<Rightarrow> server \<Rightarrow> server option" where
  "srv_run [] s = Some s"
| "srv_run (e # es) s = (if srv_enabled e s then (case srv_do e s of Inl _ \<Rightarrow> None | Inr s' \<Rightarrow> srv_run es s') else None)"

lemma srv_run_path: "srv_run es s = Some s' \<Longrightarrow> ev_path srv_step s es s'"
proof (induction es arbitrary: s)
  case (Cons e es)
  then obtain s1 where s1: "srv_enabled e s" "srv_do e s = Inr s1" "srv_run es s1 = Some s'"
    by (auto split: if_splits sum.splits)
  from srv_stepI [OF s1(1,2)] Cons.IH [OF s1(3)] show ?case by (rule ev_path_Cons)
qed (simp add: ev_nil)

text \<open>A server with one worker and one connection, stopped from the main loop.\<close>

definition any_addr :: inet_address where
  "any_addr = InetAddress_default Little"

definition one_worker :: thread_starter where
  "one_worker i name = (1, Some 1)"

definition serve_one :: "srv_ev list" where
  "serve_one = [EvSetThreadNum 1, EvStart True one_worker (Some any_addr), EvAccept 7 5 ''1.2.3.4:80'' True]"

definition worker_runs :: srv_ev where
  "worker_runs = EvRun 1 one_worker None"

definition main_runs :: srv_ev where
  "main_runs = EvRun 0 one_worker None"

lemmas srv_op_defs = TcpServer_ctor_def SetThreadNum_def TcpServer_Start_def StartInLoop_def start_pool_def Let_def
  NewConnection_def next_io_loop_def GetNextLoop_def LoopPool_Start_def LoopPool_ctor_def start_one_def one_worker_def
  alive_def new_loops_def run_in_loop_def queue_fn_def put_conn_def with_conn_def pop_fn_def TcpServer_Stop_def StopInLoop_def
  Srv_ForceClose_def Srv_ForceCloseInLoop_def Srv_HandleClose_def Srv_ConnectEstablished_def Srv_ConnectDestroyed_def
  RemoveConnection_def RemoveConnectionInLoop_def StopThreadPoolInLoop_def join_next_def life_close_def life_establish_def
  life_destroy_def int_inc_def map_erase_def kMinThreadCount_def given_cbs_def default_cbs_def

definition served :: server where
  "served = the (srv_run serve_one (TcpServer_ctor ''s'' any_addr))"

lemma served_run: "srv_run serve_one (TcpServer_ctor ''s'' any_addr) = Some served"
  by (simp add: served_def serve_one_def srv_op_defs)

lemma served_eq:
  "served = (TcpServer_ctor ''s'' any_addr)\<lparr>sv_thread_num := 1, sv_acceptor := Some True, sv_started := True, sv_stop_complete := False,
     sv_next_conn_id := 2, sv_pool := Some (snd (GetNextLoop (LoopPool_Start one_worker (LoopPool_ctor 1 ''s-worker'')))),
     sv_connections := [(conn_name ''s'' ''1.2.3.4:80'' 1 False, 7)],
     sv_conns := [7 \<mapsto> \<lparr>co_id = 1, co_name = conn_name ''s'' ''1.2.3.4:80'' 1 False, co_loop = 1, co_state = kConnecting,
                     co_removed = False, co_cbs = default_cbs\<rparr>],
     sv_queues := (\<lambda>_. [])(1 := [SfEstablish 7])\<rparr>"
  by (simp add: served_def serve_one_def srv_op_defs)

definition stop_events :: "srv_ev list" where
  "stop_events = [worker_runs, main_runs, worker_runs, worker_runs, EvExit 1, EvJoined]"

definition open_one :: server where
  "open_one = the (srv_run (serve_one @ [worker_runs]) (TcpServer_ctor ''s'' any_addr))"

lemma srv_run_append: "srv_run es s = Some s1 \<Longrightarrow> srv_run (es @ es') s = srv_run es' s1"
  by (induction es arbitrary: s) (auto split: if_splits sum.splits)

lemma open_one_eq:
  "srv_run (serve_one @ [worker_runs]) (TcpServer_ctor ''s'' any_addr) = Some open_one"
  "open_one = served\<lparr>sv_queues := (\<lambda>_. []), sv_conns := [7 \<mapsto> \<lparr>co_id = 1, co_name = conn_name ''s'' ''1.2.3.4:80'' 1 False,
     co_loop = 1, co_state = kConnected, co_removed = False, co_cbs = default_cbs\<rparr>]\<rparr>"
  unfolding open_one_def srv_run_append [OF served_run]
  by (simp_all add: served_eq worker_runs_def srv_op_defs fun_upd_def cong: if_cong)

definition stop_asked :: server where
  "stop_asked = open_one\<lparr>sv_started := False, sv_acceptor := None, sv_queues := (\<lambda>_. [])(1 := [SfForceClose 7])\<rparr>"

lemma stop_asked_run: "StopInLoop open_one = Inr stop_asked"
  by (simp add: stop_asked_def open_one_eq(2) served_eq srv_op_defs)

definition all_stopped :: server where
  "all_stopped = the (srv_run stop_events stop_asked)"

lemma all_stopped_eq:
  "srv_run stop_events stop_asked = Some all_stopped"
  "all_stopped = stop_asked\<lparr>sv_pool := None, sv_stop_complete := True, sv_connections := [], sv_queues := (\<lambda>_. []),
     sv_conns := [7 \<mapsto> \<lparr>co_id = 1, co_name = conn_name ''s'' ''1.2.3.4:80'' 1 False, co_loop = 1, co_state = kDisconnected,
                     co_removed = True, co_cbs = default_cbs\<rparr>], sv_quitting := {1}, sv_exited := {1}\<rparr>"
  by (simp_all add: all_stopped_def stop_events_def stop_asked_def open_one_eq(2) served_eq worker_runs_def main_runs_def
      srv_op_defs fun_upd_def cong: if_cong)

lemma all_stopped_path:
  "ev_path srv_step (TcpServer_ctor ''s'' any_addr) (serve_one @ [worker_runs, EvStop True] @ stop_events) all_stopped"
proof (rule srv_run_path)
  have "srv_run [EvStop True] open_one = Some stop_asked"
    using stop_asked_run by (simp add: alive_def TcpServer_Stop_def open_one_eq(2) served_eq TcpServer_ctor_def)
  from srv_run_append [OF srv_run_append [OF open_one_eq(1), of "[EvStop True]", unfolded this], of stop_events]
  show "srv_run (serve_one @ [worker_runs, EvStop True] @ stop_events) (TcpServer_ctor ''s'' any_addr) = Some all_stopped"
    by (simp add: all_stopped_eq(1))
qed

theorem server_safe_witness:
  "IsFullyStopped all_stopped \<and> sv_connections all_stopped = [] \<and> co_removed (the (sv_conns all_stopped 7))"
proof -
  have "accepts (serve_one @ [worker_runs, EvStop True] @ stop_events) < 2 ^ 31 - 2"
    by (simp add: accepts_def serve_one_def stop_events_def worker_runs_def main_runs_def)
  from server_safe [OF all_stopped_path this] show ?thesis by (simp add: IsFullyStopped_def all_stopped_eq(2))
qed

text \<open>
  C7. \<open>Stop\<close> is carried through. Let \<open>StopInLoop\<close> run on a started server none of whose connections is still
  waiting for its \<open>ConnectEstablished\<close>. Whatever happens afterwards, in any order: when the loops have come to rest
  (nothing queued in a loop that runs, no loop about to end, no join that could return), the
  server is fully stopped. So no connection is forgotten, the main loop does not wait for a
  worker that never ends, and no functor gets lost behind a quit request.
\<close>

theorem server_stops:
  assumes "ev_path srv_step (TcpServer_ctor name addr) es s0" and "sv_started s0"
    and "\<forall>c co. sv_conns s0 c = Some co \<longrightarrow> co_state co \<noteq> kConnecting"
    and "StopInLoop s0 = Inr s1" and "ev_path srv_step s1 es' s" and "accepts es < 2 ^ 31 - 2"
    and "srv_quiet s"
  shows "IsFullyStopped s"
proof -
  note inv0 = srv_reachable(1) [OF assms(1,6)]
  have inv1: "srv_inv s1" using StopInLoop_ok [OF inv0] assms(4) by auto
  have st1: "stopping s1" by (rule StopInLoop_stopping [OF inv0 assms(2,4)]) (use assms(3) in blast)
  have "sv_next_conn_id s1 < 2 ^ 31 - 1" using StopInLoop_next_id [OF assms(4)] srv_reachable(2) [OF assms(1,6)] by simp
  from stopping_path [OF assms(5) inv1 st1 this] show ?thesis using rest_means_stopped assms(7) by blast
qed

theorem server_stops_witness: "IsFullyStopped all_stopped"
proof (rule server_stops)
  show "ev_path srv_step (TcpServer_ctor ''s'' any_addr) (serve_one @ [worker_runs]) open_one"
    by (rule srv_run_path [OF open_one_eq(1)])
  show "ev_path srv_step stop_asked stop_events all_stopped" by (rule srv_run_path [OF all_stopped_eq(1)])
  show "StopInLoop open_one = Inr stop_asked" by (rule stop_asked_run)
  show "srv_quiet all_stopped"
    by (simp add: srv_quiet_def all_stopped_eq(2) stop_asked_def open_one_eq(2) served_eq TcpServer_ctor_def)
qed (simp_all add: open_one_eq(2) served_eq serve_one_def worker_runs_def accepts_def)


end
