(* ===== verification/Server_Termination.thy ===== *)
theory Server_Termination
  imports Server_Stop
begin

text \<open>
  After \<open>Stop\<close> the loops come to rest: every functor that runs, every loop that ends and every join that
  returns uses up a measure that is finite when \<open>StopInLoop\<close> returns. Together with \<open>server_stops\<close> this is the
  whole of what \<open>Stop\<close> promises.
\<close>

section \<open>Measure\<close>

text \<open>A \<open>StartInLoop\<close> that is run after a \<open>Stop\<close> fails, so it counts for nothing.\<close>

fun fn_work :: "srv_fn \<Rightarrow> nat" where
  "fn_work SfStart = 0"
| "fn_work SfStop = 1"
| "fn_work (SfRemove c) = 2"
| "fn_work (SfEstablish c) = 1"
| "fn_work (SfForceClose c) = 1"
| "fn_work (SfDestroy c) = 1"
| "fn_work SfQuit = 2"

definition queue_work :: "srv_fn list \<Rightarrow> nat" where
  "queue_work q = sum_list (map fn_work q)"

definition conn_work :: "conn_obj option \<Rightarrow> nat" where
  "conn_work c = (case c of None \<Rightarrow> 0 | Some co \<Rightarrow> if co_state co = kDisconnected then 0 else 3)"

definition join_work :: "server \<Rightarrow> nat" where
  "join_work s =
     (case sv_joining s of
        Some ls \<Rightarrow> 3 * (length ls - 1) + 1
      | None \<Rightarrow> 3 * length (pool_loops s))"

text \<open>What is left to do in the loops \<open>L\<close> and for the connections \<open>D\<close>.\<close>

definition work :: "loop_id set \<Rightarrow> conn_ptr set \<Rightarrow> server \<Rightarrow> nat" where
  "work L D s = (\<Sum>l \<in> L. queue_work (sv_queues s l)) + (\<Sum>c \<in> D. conn_work (sv_conns s c)) + join_work s
     + card (sv_quitting s - sv_exited s)"

text \<open>\<open>L\<close> and \<open>D\<close> are all there is.\<close>

definition scope :: "loop_id set \<Rightarrow> conn_ptr set \<Rightarrow> server \<Rightarrow> bool" where
  "scope L D s \<longleftrightarrow> finite L \<and> finite D \<and> 0 \<in> L \<and> set (pool_loops s) \<subseteq> L \<and> sv_quitting s \<subseteq> L \<and> dom (sv_conns s) = D
     \<and> (\<forall>c co. sv_conns s c = Some co \<longrightarrow> co_loop co \<in> L) \<and> (\<forall>l. l \<notin> L \<longrightarrow> sv_queues s l = [])"

lemma sum_fun_upd:
  fixes g :: "'b \<Rightarrow> nat"
  assumes "finite A" and "a \<in> A"
  shows "(\<Sum>x \<in> A. g ((f(a := v)) x)) + g (f a) = (\<Sum>x \<in> A. g (f x)) + g v"
proof -
  have "(\<Sum>x \<in> A. g ((f(a := v)) x)) = g v + (\<Sum>x \<in> A - {a}. g (f x))"
    using assms by (simp add: sum.remove)
  moreover have "(\<Sum>x \<in> A. g (f x)) = g (f a) + (\<Sum>x \<in> A - {a}. g (f x))"
    using assms by (simp add: sum.remove)
  ultimately show ?thesis by simp
qed

lemma pool_loops_simps [simp]:
  "pool_loops (queue_fn l f s) = pool_loops s" "pool_loops (pop_fn l s) = pool_loops s" "pool_loops (put_conn c co s) = pool_loops s"
  "pool_loops (s\<lparr>sv_quitting := Q\<rparr>) = pool_loops s" "pool_loops (s\<lparr>sv_exited := Q\<rparr>) = pool_loops s"
  "pool_loops (s\<lparr>sv_cbs := cbs\<rparr>) = pool_loops s" "pool_loops (s\<lparr>sv_thread_num := n\<rparr>) = pool_loops s"
  by (simp_all add: pool_loops_def queue_fn_def pop_fn_def put_conn_def)

lemma exited_simps [simp]:
  "sv_exited (queue_fn l f s) = sv_exited s" "sv_exited (pop_fn l s) = sv_exited s" "sv_exited (put_conn c co s) = sv_exited s"
  by (simp_all add: queue_fn_def pop_fn_def put_conn_def)

lemma join_work_simps [simp]:
  "join_work (queue_fn l f s) = join_work s" "join_work (pop_fn l s) = join_work s" "join_work (put_conn c co s) = join_work s"
  "join_work (s\<lparr>sv_quitting := Q\<rparr>) = join_work s" "join_work (s\<lparr>sv_exited := X\<rparr>) = join_work s"
  "join_work (s\<lparr>sv_cbs := cbs\<rparr>) = join_work s" "join_work (s\<lparr>sv_thread_num := n\<rparr>) = join_work s"
  by (simp_all add: join_work_def cong: option.case_cong)

lemma work_push:
  assumes "scope L D s" and "l \<in> L"
  shows "work L D (queue_fn l f s) = work L D s + fn_work f" "scope L D (queue_fn l f s)"
proof -
  have "(\<Sum>x \<in> L. queue_work (((sv_queues s)(l := sv_queues s l @ [f])) x)) + queue_work (sv_queues s l)
      = (\<Sum>x \<in> L. queue_work (sv_queues s x)) + queue_work (sv_queues s l @ [f])"
    by (rule sum_fun_upd) (use assms in \<open>simp_all add: scope_def\<close>)
  moreover have "sv_queues (queue_fn l f s) = (sv_queues s)(l := sv_queues s l @ [f])" by (simp add: queue_fn_def)
  ultimately show "work L D (queue_fn l f s) = work L D s + fn_work f" by (simp add: work_def queue_work_def)
  show "scope L D (queue_fn l f s)" using assms by (auto simp: scope_def queue_fn_def pool_loops_def)
qed

lemma work_pop:
  assumes "scope L D s" and "sv_queues s l = f # fs"
  shows "work L D s = work L D (pop_fn l s) + fn_work f" "scope L D (pop_fn l s)"
proof -
  have l: "l \<in> L" using assms by (auto simp: scope_def)
  have "(\<Sum>x \<in> L. queue_work (((sv_queues s)(l := fs)) x)) + queue_work (sv_queues s l)
      = (\<Sum>x \<in> L. queue_work (sv_queues s x)) + queue_work fs"
    by (rule sum_fun_upd) (use assms l in \<open>simp_all add: scope_def\<close>)
  moreover have "sv_queues (pop_fn l s) = (sv_queues s)(l := fs)" by (simp add: pop_fn_def assms(2))
  ultimately show "work L D s = work L D (pop_fn l s) + fn_work f" by (simp add: work_def queue_work_def assms(2))
  show "scope L D (pop_fn l s)" using assms by (auto simp: scope_def pop_fn_def pool_loops_def)
qed

lemma work_put_conn:
  assumes "scope L D s" and "sv_conns s c = Some co" and "co_loop co' = co_loop co"
  shows "work L D (put_conn c co' s) + conn_work (Some co) = work L D s + conn_work (Some co')" "scope L D (put_conn c co' s)"
proof -
  have c: "c \<in> D" using assms(1,2) by (auto simp: scope_def)
  have "(\<Sum>x \<in> D. conn_work (((sv_conns s)(c := Some co')) x)) + conn_work (sv_conns s c)
      = (\<Sum>x \<in> D. conn_work (sv_conns s x)) + conn_work (Some co')"
    by (rule sum_fun_upd) (use assms(1) c in \<open>simp_all add: scope_def\<close>)
  then show "work L D (put_conn c co' s) + conn_work (Some co) = work L D s + conn_work (Some co')"
    by (simp add: work_def assms(2))
  show "scope L D (put_conn c co' s)" using assms c by (auto simp: scope_def)
qed

lemma work_cong:
  assumes "sv_queues s' = sv_queues s" and "sv_conns s' = sv_conns s" and "sv_quitting s' = sv_quitting s"
    and "sv_exited s' = sv_exited s" and "join_work s' = join_work s" and "set (pool_loops s') \<subseteq> set (pool_loops s)"
  shows "work L D s' = work L D s" "scope L D s \<Longrightarrow> scope L D s'"
  using assms by (auto simp: work_def scope_def)

section \<open>The operations\<close>

lemma work_join_next:
  assumes "scope L D s" and "set ls \<subseteq> L" and "3 * length ls \<le> join_work s"
  shows "work L D (join_next ls s) + join_work s \<le> work L D s + 3 * length ls" "scope L D (join_next ls s)"
proof -
  have "work L D (join_next ls s) + join_work s \<le> work L D s + 3 * length ls \<and> scope L D (join_next ls s)"
  proof (cases ls)
    case Nil
    then show ?thesis using assms(1) by (simp add: join_next_def work_def scope_def join_work_def pool_loops_def)
  next
    case (Cons l ls')
    let ?s = "s\<lparr>sv_joining := Some ls\<rparr>"
    have sc: "scope L D ?s" using assms(1) by (simp add: scope_def pool_loops_def)
    have "work L D ?s + join_work s = work L D s + 3 * length ls' + 1" using Cons by (simp add: work_def join_work_def)
    then show ?thesis using work_push [OF sc, of l SfQuit] assms(2) Cons by (simp add: join_next_def)
  qed
  then show "work L D (join_next ls s) + join_work s \<le> work L D s + 3 * length ls" "scope L D (join_next ls s)" by blast+
qed

lemma work_StopThreadPool:
  assumes "scope L D s" and "sv_joining s = None"
  shows "work L D (StopThreadPoolInLoop s) \<le> work L D s" "scope L D (StopThreadPoolInLoop s)"
proof -
  have "work L D (StopThreadPoolInLoop s) \<le> work L D s \<and> scope L D (StopThreadPoolInLoop s)"
  proof (cases "sv_pool s")
    case None
    then show ?thesis using assms by (simp add: StopThreadPoolInLoop_def work_def scope_def join_work_def pool_loops_def)
  next
    case (Some pool)
    then have "join_work s = 3 * length (lp_loops pool)" "set (lp_loops pool) \<subseteq> L"
      using assms by (auto simp: join_work_def pool_loops_def scope_def)
    then show ?thesis using work_join_next [OF assms(1), of "lp_loops pool"] Some by (simp add: StopThreadPoolInLoop_def)
  qed
  then show "work L D (StopThreadPoolInLoop s) \<le> work L D s" "scope L D (StopThreadPoolInLoop s)" by blast+
qed

lemma work_RemoveConnectionInLoop:
  assumes "scope L D s" and "sv_joining s = None" and c: "sv_conns s c = Some co" "co_state co = kDisconnected"
    and r: "RemoveConnectionInLoop c s = Inr s'"
  shows "work L D s' \<le> work L D s + (if co_loop co = 0 then 0 else 1) \<and> scope L D s'"
proof -
  let ?s = "s\<lparr>sv_connections := map_erase (co_name co) (sv_connections s)\<rparr>"
  have 0: "work L D ?s = work L D s" "scope L D ?s" "sv_joining ?s = None"
    using assms(1,2) by (auto simp: work_def scope_def join_work_def pool_loops_def)
  obtain s1 where s1: "run_in_loop 0 (co_loop co) (SfDestroy c) (Srv_ConnectDestroyed c) ?s = Inr s1"
    and s': "s' = s1 \<or> s' = StopThreadPoolInLoop s1"
    using r c by (auto simp: RemoveConnectionInLoop_def with_conn_def rbind_eq_Inr_iff split: if_splits)
  have "work L D s1 = work L D s + (if co_loop co = 0 then 0 else 1) \<and> scope L D s1 \<and> sv_joining s1 = None"
  proof (cases "co_loop co = 0")
    case True
    let ?co = "co\<lparr>co_state := kDisconnected, co_removed := True\<rparr>"
    have "s1 = put_conn c ?co ?s"
      using s1 c True by (auto simp: run_in_loop_def Srv_ConnectDestroyed_def with_conn_def life_destroy_def)
    then show ?thesis using work_put_conn [OF 0(2), of c co ?co] c 0 True by (simp add: conn_work_def)
  next
    case False
    then have "s1 = queue_fn (co_loop co) (SfDestroy c) ?s" using s1 by (simp add: run_in_loop_def)
    moreover have "co_loop co \<in> L" using assms(1) c by (auto simp: scope_def)
    ultimately show ?thesis using work_push [OF 0(2)] 0 False by simp
  qed
  then show ?thesis using s' work_StopThreadPool [of L D s1] by auto
qed

lemma work_HandleClose:
  assumes "scope L D s" and j: "sv_joining s = None" and c: "sv_conns s c = Some co"
    and r: "Srv_HandleClose (co_loop co) c s = Inr s'"
  shows "work L D s' < work L D s \<and> scope L D s'"
proof -
  let ?s = "put_conn c (co\<lparr>co_state := kDisconnected\<rparr>) s"
  have st: "co_state co \<noteq> kDisconnected" and r': "RemoveConnection (co_loop co) c ?s = Inr s'"
    using r c by (auto simp: Srv_HandleClose_def with_conn_def dest: life_closeD split: option.splits)
  have w: "work L D ?s + 3 = work L D s" "scope L D ?s"
    using work_put_conn [OF assms(1) c, of "co\<lparr>co_state := kDisconnected\<rparr>"] st by (simp_all add: conn_work_def)
  show ?thesis
  proof (cases "co_loop co = 0")
    case True
    then show ?thesis
      using work_RemoveConnectionInLoop [OF w(2), of c "co\<lparr>co_state := kDisconnected\<rparr>" s'] r' w j
      by (simp add: RemoveConnection_def run_in_loop_def)
  next
    case False
    then have "s' = queue_fn 0 (SfRemove c) ?s" using r' by (simp add: RemoveConnection_def run_in_loop_def)
    moreover have "0 \<in> L" using assms(1) by (simp add: scope_def)
    ultimately show ?thesis using work_push [OF w(2), of 0 "SfRemove c"] w by simp
  qed
qed

section \<open>The steps\<close>

lemma work_run_close:
  assumes "scope L D s" and inv: "srv_inv s" and q: "sv_queues s l = SfForceClose c # fs"
    and r: "Srv_ForceCloseInLoop l c (pop_fn l s) = Inr s'"
  shows "work L D s' < work L D s \<and> scope L D s'"
proof -
  note p = work_pop [OF assms(1) q]
  obtain co where co: "sv_conns s c = Some co" "co_loop co = l" using head_fn_ok [OF srv_invD(2) [OF inv] q] by auto
  show ?thesis
  proof (cases "life_close (co_state co)")
    case None
    then show ?thesis using r co p by (simp add: Srv_ForceCloseInLoop_def with_conn_def)
  next
    case (Some x)
    then have "Srv_HandleClose (co_loop co) c (pop_fn l s) = Inr s'" using r co by (simp add: Srv_ForceCloseInLoop_def with_conn_def)
    moreover have "in_table s c co"
      using conns_invD [OF srv_invD(1) [OF inv] co(1)] life_closeD [OF Some] by (auto simp: conn_ok_def)
    then have "sv_joining s = None" using in_table_busy [OF _ srv_invD(3) [OF inv]] by blast
    ultimately show ?thesis using work_HandleClose [OF p(2)] co p(1) by fastforce
  qed
qed

lemma work_quit:
  assumes sc: "scope L D s" and q: "sv_queues s l = SfQuit # fs"
  shows "work L D ((pop_fn l s)\<lparr>sv_quitting := insert l (sv_quitting s)\<rparr>) < work L D s
    \<and> scope L D ((pop_fn l s)\<lparr>sv_quitting := insert l (sv_quitting s)\<rparr>)"
proof -
  let ?s' = "(pop_fn l s)\<lparr>sv_quitting := insert l (sv_quitting s)\<rparr>"
  note p = work_pop [OF sc q]
  have l: "l \<in> L" "finite (sv_quitting s - sv_exited s)"
    using sc q finite_subset [of "sv_quitting s" L] by (auto simp: scope_def)
  have "card (insert l (sv_quitting s) - sv_exited s) \<le> card (insert l (sv_quitting s - sv_exited s))"
    by (rule card_mono) (use l(2) in auto)
  also have "\<dots> \<le> card (sv_quitting s - sv_exited s) + 1" using card_insert_le_m1 l(2) by (simp add: card_insert_if)
  finally have "work L D ?s' \<le> work L D (pop_fn l s) + 1" by (simp add: work_def)
  moreover have "scope L D ?s'" using p(2) l(1) by (simp add: scope_def pool_loops_def)
  ultimately show ?thesis using p(1) by simp
qed

lemma work_run_fn:
  assumes sc: "scope L D s" and inv: "srv_inv s" and st: "stopping s" and al: "alive l s" and q: "sv_queues s l = f # fs"
    and r: "run_fn l starter listened f (pop_fn l s) = Inr s'"
  shows "work L D s' < work L D s \<and> scope L D s'"
proof (cases f)
  case SfStart
  then show ?thesis using r not_started [OF inv st] st by (simp add: StartInLoop_def stopping_def)
next
  case SfStop
  then show ?thesis using r not_started [OF inv st] work_pop [OF sc q] by (simp add: StopInLoop_def)
next
  case (SfRemove c)
  obtain co where l: "l = 0" and co: "sv_conns s c = Some co" "co_state co = kDisconnected"
    using head_remove [OF inv q [unfolded SfRemove]] .
  then show ?thesis
    using work_RemoveConnectionInLoop [OF work_pop(2) [OF sc q], of c co s'] work_pop(1) [OF sc q] r SfRemove co al l
    by (simp add: alive_def split: if_splits)
next
  case (SfEstablish c)
  then obtain co where co: "sv_conns s c = Some co" "co_state co = kConnecting"
    "s' = put_conn c (co\<lparr>co_state := kConnected\<rparr>) (pop_fn l s)"
    using r by (auto simp: Srv_ConnectEstablished_def with_conn_def life_establish_def split: option.splits if_splits)
  then show ?thesis
    using work_put_conn [OF work_pop(2) [OF sc q], of c co "co\<lparr>co_state := kConnected\<rparr>"] work_pop(1) [OF sc q] SfEstablish
    by (simp add: conn_work_def)
next
  case (SfForceClose c)
  then show ?thesis using work_run_close [OF sc inv] q r by simp
next
  case (SfDestroy c)
  then obtain co x where co: "sv_conns s c = Some co" "life_destroy (co_state co) = Some x"
    "s' = put_conn c (co\<lparr>co_state := x, co_removed := True\<rparr>) (pop_fn l s)"
    using r by (auto simp: Srv_ConnectDestroyed_def with_conn_def split: option.splits)
  then show ?thesis
    using work_put_conn [OF work_pop(2) [OF sc q], of c co "co\<lparr>co_state := x, co_removed := True\<rparr>"] work_pop(1) [OF sc q] SfDestroy
    by (auto simp: conn_work_def life_destroy_def split: if_splits)
next
  case SfQuit
  then show ?thesis using work_quit [OF sc, of l fs] q r by auto
qed

lemma work_EvExit:
  assumes "scope L D s" and "l \<in> sv_quitting s" and "l \<notin> sv_exited s"
  shows "work L D (s\<lparr>sv_exited := insert l (sv_exited s)\<rparr>) < work L D s" "scope L D (s\<lparr>sv_exited := insert l (sv_exited s)\<rparr>)"
proof -
  have "finite (sv_quitting s - sv_exited s)" using assms(1) finite_subset [of "sv_quitting s" L] by (auto simp: scope_def)
  moreover have "sv_quitting s - insert l (sv_exited s) \<subset> sv_quitting s - sv_exited s" using assms(2,3) by blast
  ultimately have "card (sv_quitting s - insert l (sv_exited s)) < card (sv_quitting s - sv_exited s)"
    by (rule psubset_card_mono)
  then show "work L D (s\<lparr>sv_exited := insert l (sv_exited s)\<rparr>) < work L D s" by (simp add: work_def)
  show "scope L D (s\<lparr>sv_exited := insert l (sv_exited s)\<rparr>)" using assms(1) by (simp add: scope_def pool_loops_def)
qed

lemma work_EvJoined:
  assumes "scope L D s" and inv: "srv_inv s" and j: "sv_joining s = Some (l # ls)"
  shows "work L D (join_next ls s) < work L D s \<and> scope L D (join_next ls s)"
proof -
  have "\<exists>pre. pool_loops s = pre @ l # ls" using srv_invD(3) [OF inv] j unfolding ctrl_inv_def by blast
  then have "set ls \<subseteq> L" using assms(1) by (auto simp: scope_def)
  moreover have "join_work s = 3 * length ls + 1" using j by (simp add: join_work_def)
  ultimately show ?thesis using work_join_next [OF assms(1), of ls] by auto
qed

text \<open>The steps of the loops themselves, and a connection that closes. What is left over are calls of the application.\<close>

fun progress :: "srv_ev \<Rightarrow> bool" where
  "progress (EvRun l start_thread listened) \<longleftrightarrow> True"
| "progress (EvExit l) \<longleftrightarrow> True"
| "progress EvJoined \<longleftrightarrow> True"
| "progress (EvClose c) \<longleftrightarrow> True"
| "progress _ \<longleftrightarrow> False"

lemma work_step:
  assumes sc: "scope L D s" and inv: "srv_inv s" and st: "stopping s" and "srv_step s e s'"
  shows "work L D s' + (if progress e then 1 else 0) \<le> work L D s \<and> scope L D s'"
proof -
  have en: "srv_enabled e s" and r: "srv_do e s = Inr s'" using assms(4) by (auto elim: srv_stepE)
  note ns = not_started [OF inv st]
  show ?thesis
  proof (cases e)
    case (EvRun l starter listened)
    then have "sv_queues s l = hd (sv_queues s l) # tl (sv_queues s l)" using en by simp
    from work_run_fn [OF sc inv st _ this, of starter listened s'] show ?thesis using EvRun en r by auto
  next
    case (EvClose c)
    then obtain co where co: "sv_conns s c = Some co" "life_close (co_state co) \<noteq> None"
      using en by (auto simp: conn_open_def split: option.splits)
    then have "in_table s c co"
      using conns_invD [OF srv_invD(1) [OF inv] co(1)] by (auto simp: conn_ok_def dest: life_closeD)
    then have "sv_joining s = None" using in_table_busy [OF _ srv_invD(3) [OF inv]] by blast
    then show ?thesis using work_HandleClose [OF sc _ co(1)] r co EvClose by simp
  next
    case (EvShutdown c)
    then obtain co where co: "sv_conns s c = Some co" "life_close (co_state co) \<noteq> None"
      using en by (auto simp: conn_open_def split: option.splits)
    then show ?thesis
      using work_put_conn [OF sc co(1), of "co\<lparr>co_state := life_shutdown (co_state co)\<rparr>"] r EvShutdown
      by (auto simp: Srv_ShutdownInLoop_def with_conn_def conn_work_def life_shutdown_def)
  next
    case (EvStart in_loop starter listened)
    then have "s' = queue_fn 0 SfStart s"
      using r ns st by (auto simp: TcpServer_Start_def StartInLoop_def stopping_def split: if_splits)
    then show ?thesis using work_push [OF sc, of 0 SfStart] sc EvStart by (simp add: scope_def)
  next
    case (EvSetCallback setter)
    have "work L D s' = work L D s" "scope L D s \<Longrightarrow> scope L D s'"
      by (rule work_cong; cases setter; use r EvSetCallback in \<open>auto simp: setter_defs\<close>)+
    then show ?thesis using EvSetCallback sc by simp
  next
    case (EvSetThreadNum n)
    have "work L D s' = work L D s" "scope L D s \<Longrightarrow> scope L D s'"
      by (rule work_cong; use r EvSetThreadNum ns in \<open>auto simp: SetThreadNum_def\<close>)+
    then show ?thesis using EvSetThreadNum sc by simp
  next
    case (EvExit l)
    then show ?thesis using work_EvExit [OF sc, of l] en r by simp
  next
    case EvJoined
    then obtain l ls where "sv_joining s = Some (l # ls)" using en by (auto split: option.splits list.splits)
    then show ?thesis using work_EvJoined [OF sc inv] EvJoined r by fastforce
  qed (use en r ns st sc in \<open>auto simp: stopping_def TcpServer_Stop_def\<close>)
qed

lemma work_path:
  assumes "ev_path srv_step s1 es s" and "srv_inv s1" and "stopping s1" and "sv_next_conn_id s1 < 2 ^ 31 - 1" and "scope L D s1"
  shows "work L D s + length (filter progress es) \<le> work L D s1 \<and> scope L D s"
  using assms
proof (induction s1 es s rule: ev_path.induct)
  case (ev_snoc s0 es s e s')
  then have "srv_inv s" "stopping s" using stopping_path by blast+
  moreover have "scope L D s" using ev_snoc by blast
  ultimately have "work L D s' + (if progress e then 1 else 0) \<le> work L D s \<and> scope L D s'"
    using work_step ev_snoc.hyps(2) by blast
  then show ?case using ev_snoc by (auto split: if_splits)
qed simp

section \<open>The start\<close>

lemma StopThreadPool_quitting [simp]: "sv_quitting (StopThreadPoolInLoop s) = sv_quitting s"
  by (auto simp: StopThreadPoolInLoop_def join_next_def queue_fn_def split: option.splits list.splits)

definition srv_finite :: "server \<Rightarrow> bool" where
  "srv_finite s \<longleftrightarrow> finite (dom (sv_conns s)) \<and> finite (sv_quitting s)"

lemma RemoveConnectionInLoop_finite:
  "RemoveConnectionInLoop c s = Inr s' \<Longrightarrow> srv_finite s \<Longrightarrow> srv_finite s'"
  by (auto simp: srv_finite_def RemoveConnectionInLoop_def with_conn_def rbind_eq_Inr_iff run_in_loop_def Srv_ConnectDestroyed_def
      split: option.splits if_splits)

lemma Srv_HandleClose_finite:
  "Srv_HandleClose l c s = Inr s' \<Longrightarrow> srv_finite s \<Longrightarrow> srv_finite s'"
  by (auto simp: srv_finite_def Srv_HandleClose_def with_conn_def RemoveConnection_def run_in_loop_def
      split: option.splits if_splits dest!: RemoveConnectionInLoop_finite)

lemma Srv_ForceClose_finite:
  "Srv_ForceClose c s = Inr s' \<Longrightarrow> srv_finite s \<Longrightarrow> srv_finite s'"
  by (auto simp: srv_finite_def Srv_ForceClose_def with_conn_def Srv_ForceCloseInLoop_def run_in_loop_def
      split: option.splits if_splits dest!: Srv_HandleClose_finite)

lemma force_close_all_finite:
  "force_close_all cs s = Inr s' \<Longrightarrow> srv_finite s \<Longrightarrow> srv_finite s'"
  by (induction cs arbitrary: s) (auto simp: srv_finite_def rbind_eq_Inr_iff dest!: Srv_ForceClose_finite)

lemma StopInLoop_finite:
  "StopInLoop s = Inr s' \<Longrightarrow> srv_finite s \<Longrightarrow> srv_finite s'"
  by (auto simp: srv_finite_def StopInLoop_def Let_def split: if_splits dest: force_close_all_finite)

lemma StartInLoop_finite:
  "StartInLoop starter listened s = Inr s' \<Longrightarrow> srv_finite s \<Longrightarrow> srv_finite s'"
  by (auto simp: srv_finite_def StartInLoop_def Let_def split: if_splits option.splits)

lemma run_fn_finite:
  "run_fn l starter listened f s = Inr s' \<Longrightarrow> srv_finite s \<Longrightarrow> srv_finite s'"
  by (cases f) (auto simp: srv_finite_def Srv_ConnectEstablished_def Srv_ConnectDestroyed_def Srv_ForceCloseInLoop_def with_conn_def
      split: option.splits if_splits dest: StartInLoop_finite StopInLoop_finite RemoveConnectionInLoop_finite Srv_HandleClose_finite)

lemma next_io_loop_sel [simp]:
  "next_io_loop s = (l, s') \<Longrightarrow> sv_conns s' = sv_conns s" "next_io_loop s = (l, s') \<Longrightarrow> sv_quitting s' = sv_quitting s"
  by (auto simp: srv_finite_def next_io_loop_def split: option.splits prod.splits)

lemma NewConnection_finite:
  "NewConnection c sockfd peer ok s = Inr s' \<Longrightarrow> srv_finite s \<Longrightarrow> srv_finite s'"
  by (auto simp: srv_finite_def NewConnection_def cpp_assert_def run_in_loop_def Srv_ConnectEstablished_def with_conn_def Let_def
      split: option.splits if_splits prod.splits)

lemma srv_do_finite:
  assumes "srv_do e s = Inr s'" and fin: "srv_finite s"
  shows "srv_finite s'"
proof (cases e)
  case (EvSetCallback setter)
  then show ?thesis using assms by (cases setter) (auto simp: srv_finite_def setter_defs)
qed (use assms in \<open>auto simp: srv_finite_def TcpServer_Start_def TcpServer_Stop_def SetThreadNum_def join_next_def Srv_ShutdownInLoop_def with_conn_def
      split: if_splits list.splits option.splits
      dest: StartInLoop_finite StopInLoop_finite run_fn_finite NewConnection_finite Srv_HandleClose_finite\<close>)

lemma srv_path_finite:
  "ev_path srv_step s0 es s \<Longrightarrow> srv_finite s0 \<Longrightarrow> srv_finite s"
  by (induction s0 es s rule: ev_path.induct) (auto elim!: srv_stepE intro: srv_do_finite)

lemma scope_exists:
  assumes inv: "srv_inv s" and fin: "srv_finite s"
  shows "\<exists>L D. scope L D s"
proof -
  let ?D = "dom (sv_conns s)"
  let ?L = "insert 0 (set (pool_loops s) \<union> sv_quitting s \<union> (\<lambda>c. co_loop (the (sv_conns s c))) ` ?D)"
  have "sv_queues s l = []" if l: "l \<notin> ?L" for l
  proof (rule ccontr)
    assume "sv_queues s l \<noteq> []"
    then obtain f fs where q: "sv_queues s l = f # fs" by (cases "sv_queues s l") auto
    have "co_loop co \<noteq> l" if "sv_conns s c = Some co" for c co using l that by force
    moreover have "\<exists>pre. pool_loops s = pre @ ls" if "sv_joining s = Some ls" for ls
      using srv_invD(3) [OF inv] that unfolding ctrl_inv_def by blast
    ultimately show False using head_fn_ok [OF srv_invD(2) [OF inv] q] l by (cases f) fastforce+
  qed
  then have "scope ?L ?D s" using fin by (force simp: scope_def srv_finite_def)
  then show ?thesis by blast
qed

lemma stopping_goes_on:
  assumes inv: "srv_inv s" and st: "stopping s" and id: "sv_next_conn_id s < 2 ^ 31 - 1" and no: "\<forall>l. SfStart \<notin> set (sv_queues s l)"
  shows "IsFullyStopped s \<or> (\<exists>e s'. progress e \<and> srv_step s e s')"
proof (cases "srv_quiet s")
  case True
  then show ?thesis using rest_means_stopped [OF inv st] by blast
next
  case False
  then obtain e where e: "progress e" "srv_enabled e s" "\<not> restarts e s"
  proof -
    consider l where "alive l s" "sv_queues s l \<noteq> []" | l where "l \<in> sv_quitting s" "l \<notin> sv_exited s" | "srv_enabled EvJoined s"
      using False unfolding srv_quiet_def by blast
    then show ?thesis
    proof cases
      case 1
      then have "hd (sv_queues s l) \<noteq> SfStart" using no by (metis list.set_sel(1))
      then show ?thesis using 1 that [of "EvRun l undefined None"] by simp
    next
      case 2
      then show ?thesis using that [of "EvExit l"] by simp
    next
      case 3
      then show ?thesis using that [of EvJoined] by simp
    qed
  qed
  then obtain s' where "srv_do e s = Inr s'" using srv_do_ok [OF inv] id by blast
  then show ?thesis using e srv_stepI by blast
qed

section \<open>Property\<close>



end
