(* ===== verification/Logger.thy ===== *)
theory Logger
  imports Net_Time "HOL-Library.Multiset"
begin

text \<open>
  \<open>base/logger.{h,cpp}\<close>: levels, events, the default format, the two appenders and the logger. The clock, the
  thread's number and the time formatting of the C library are arguments. A stream is the text
  that has been handed on and the text still in its buffer. \<open>Log\<close> is two steps, the level check
  with the construction of the event and the section under the lock, so that calls of several
  threads interleave.
\<close>

section \<open>Levels and events\<close>

datatype log_level = kTrace | kDebug | kInfo | kWarn | kError | kFatal | kOff

fun level_num :: "log_level \<Rightarrow> nat" where
  "level_num kTrace = 0"
| "level_num kDebug = 1"
| "level_num kInfo = 2"
| "level_num kWarn = 3"
| "level_num kError = 4"
| "level_num kFatal = 5"
| "level_num kOff = 6"

lemma level_num_inj: "level_num a = level_num b \<Longrightarrow> a = b"
  by (cases a; cases b) simp_all

text \<open>The comparison of a scoped enumeration is that of its numbers.\<close>

instantiation log_level :: linorder
begin

definition less_eq_log_level :: "log_level \<Rightarrow> log_level \<Rightarrow> bool" where
  "less_eq_log_level a b \<longleftrightarrow> level_num a \<le> level_num b"

definition less_log_level :: "log_level \<Rightarrow> log_level \<Rightarrow> bool" where
  "less_log_level a b \<longleftrightarrow> level_num a < level_num b"

instance
  by standard (auto simp: less_eq_log_level_def less_log_level_def intro: level_num_inj)

end

fun LogLevelToString :: "log_level \<Rightarrow> string" where
  "LogLevelToString kTrace = ''TRACE''"
| "LogLevelToString kDebug = ''DEBUG''"
| "LogLevelToString kInfo = ''INFO''"
| "LogLevelToString kWarn = ''WARN''"
| "LogLevelToString kError = ''ERROR''"
| "LogLevelToString kFatal = ''FATAL''"
| "LogLevelToString kOff = ''OFF''"

record source_location =
  loc_file :: string
  loc_line :: nat
  loc_function :: string

record log_event =
  ev_timestamp :: int
  ev_level :: log_level
  ev_message :: string
  ev_location :: source_location
  ev_thread_id :: nat

definition LogEvent_ctor :: "int \<Rightarrow> nat \<Rightarrow> log_level \<Rightarrow> string \<Rightarrow> source_location \<Rightarrow> log_event" where
  "LogEvent_ctor now tid level message location =
     \<lparr>ev_timestamp = now, ev_level = level, ev_message = message, ev_location = location, ev_thread_id = tid\<rparr>"

type_synonym formatter = "log_event \<Rightarrow> string"

definition DefaultFormatter_Format :: "(int \<Rightarrow> 'tm option) \<Rightarrow> ('tm \<Rightarrow> string \<Rightarrow> string) \<Rightarrow> formatter" where
  "DefaultFormatter_Format localtime_r put_time e =
     ToLogString localtime_r put_time (ev_timestamp e) @ '' ['' @ LogLevelToString (ev_level e) @ ''] ''
       @ loc_file (ev_location e) @ '':'' @ nat_digits (loc_line (ev_location e)) @ '' ''
       @ loc_function (ev_location e) @ ''() - '' @ ev_message e"

section \<open>Appenders\<close>

record out_stream =
  os_open :: bool
  os_flushed :: string
  os_buffer :: string

definition stream_text :: "out_stream \<Rightarrow> string" where
  "stream_text k = os_flushed k @ os_buffer k"

definition stream_put :: "string \<Rightarrow> out_stream \<Rightarrow> out_stream" where
  "stream_put txt k = k\<lparr>os_buffer := os_buffer k @ txt\<rparr>"

definition stream_flush :: "out_stream \<Rightarrow> out_stream" where
  "stream_flush k = k\<lparr>os_flushed := os_flushed k @ os_buffer k, os_buffer := ''''\<rparr>"

abbreviation newline :: string where "newline \<equiv> [CHR 0x0A]"

text \<open>\<open>ConsoleAppender\<close> writes to \<open>std::cout\<close>, which all of them share; a \<open>FileAppender\<close> has its own stream, which is not open when
  the file could not be opened.\<close>

definition ConsoleAppender_Append :: "string \<Rightarrow> out_stream \<Rightarrow> out_stream" where
  "ConsoleAppender_Append log k = stream_put (log @ newline) k"

definition ConsoleAppender_Flush :: "out_stream \<Rightarrow> out_stream" where
  "ConsoleAppender_Flush k = stream_flush k"

definition FileAppender_ctor :: "bool \<Rightarrow> string \<Rightarrow> out_stream" where
  "FileAppender_ctor opened old_text = \<lparr>os_open = opened, os_flushed = old_text, os_buffer = ''''\<rparr>"

definition FileAppender_Append :: "string \<Rightarrow> out_stream \<Rightarrow> out_stream" where
  "FileAppender_Append log k = (if \<not> os_open k then k else stream_put (log @ newline) k)"

definition FileAppender_Flush :: "out_stream \<Rightarrow> out_stream" where
  "FileAppender_Flush k = (if os_open k then stream_flush k else k)"

text \<open>What \<open>Append\<close> and \<open>Flush\<close> of an appender promise.\<close>

locale appender =
  fixes append :: "string \<Rightarrow> 'k \<Rightarrow> 'k" and flush :: "'k \<Rightarrow> 'k" and usable :: "'k \<Rightarrow> bool"
    and text_of :: "'k \<Rightarrow> string" and handed_on :: "'k \<Rightarrow> string"
  assumes append_text: "usable k \<Longrightarrow> text_of (append log k) = text_of k @ log @ newline"
    and append_usable: "usable (append log k) = usable k"
    and flush_text: "text_of (flush k) = text_of k"
    and flush_usable: "usable (flush k) = usable k"
    and flush_hands_on: "usable k \<Longrightarrow> handed_on (flush k) = text_of k"
begin

lemma usable_appends: "usable (fold append ls k) = usable k"
  by (induction ls arbitrary: k) (simp_all add: append_usable)

lemma appends_text: "usable k \<Longrightarrow> text_of (fold append ls k) = text_of k @ concat (map (\<lambda>l. l @ newline) ls)"
  by (induction ls arbitrary: k) (simp_all add: append_text append_usable)

lemma appends_then_flush:
  "usable k \<Longrightarrow> handed_on (flush (fold append ls k)) = text_of k @ concat (map (\<lambda>l. l @ newline) ls)"
  by (simp add: flush_hands_on usable_appends appends_text)

end

lemmas stream_defs = stream_text_def stream_put_def stream_flush_def

interpretation console: appender ConsoleAppender_Append ConsoleAppender_Flush "\<lambda>_. True" stream_text os_flushed
  by unfold_locales (simp_all add: ConsoleAppender_Append_def ConsoleAppender_Flush_def stream_defs)

interpretation files: appender FileAppender_Append FileAppender_Flush os_open stream_text os_flushed
  by unfold_locales (simp_all add: FileAppender_Append_def FileAppender_Flush_def stream_defs)

section \<open>Logger\<close>

datatype appender_obj = Console | File out_stream

text \<open>\<open>lg_waiting\<close>: events whose \<open>Log\<close> has passed the level check and has not taken the lock yet.\<close>

record logger =
  lg_level :: log_level
  lg_formatter :: formatter
  lg_appenders :: "appender_obj list"
  lg_cout :: out_stream
  lg_waiting :: "log_event list"

definition Logger_ctor :: "formatter \<Rightarrow> out_stream \<Rightarrow> logger" where
  "Logger_ctor default_format cout =
     \<lparr>lg_level = kInfo, lg_formatter = default_format, lg_appenders = [Console], lg_cout = cout, lg_waiting = []\<rparr>"

definition IsLevelEnabled :: "log_level \<Rightarrow> logger \<Rightarrow> bool" where
  "IsLevelEnabled level s \<longleftrightarrow> level \<ge> lg_level s \<and> level \<noteq> kOff"

definition SetLevel :: "log_level \<Rightarrow> logger \<Rightarrow> logger" where
  "SetLevel level s = s\<lparr>lg_level := level\<rparr>"

definition Log_enter :: "int \<Rightarrow> nat \<Rightarrow> log_level \<Rightarrow> source_location \<Rightarrow> string \<Rightarrow> logger \<Rightarrow> logger" where
  "Log_enter now tid level location message s =
     (if \<not> IsLevelEnabled level s then s
      else s\<lparr>lg_waiting := lg_waiting s @ [LogEvent_ctor now tid level message location]\<rparr>)"

fun append_to :: "string \<Rightarrow> appender_obj \<Rightarrow> out_stream \<Rightarrow> appender_obj \<times> out_stream" where
  "append_to log Console cout = (Console, ConsoleAppender_Append log cout)"
| "append_to log (File k) cout = (File (FileAppender_Append log k), cout)"

fun append_all :: "string \<Rightarrow> appender_obj list \<Rightarrow> out_stream \<Rightarrow> appender_obj list \<times> out_stream" where
  "append_all log [] cout = ([], cout)"
| "append_all log (a # as) cout =
     (case append_to log a cout of (a', cout') \<Rightarrow> case append_all log as cout' of (as', cout'') \<Rightarrow> (a' # as', cout''))"

definition Log_locked :: "log_event \<Rightarrow> logger \<Rightarrow> logger" where
  "Log_locked e s =
     (case append_all (lg_formatter s e) (lg_appenders s) (lg_cout s) of
        (as, cout) \<Rightarrow> s\<lparr>lg_appenders := as, lg_cout := cout, lg_waiting := remove1 e (lg_waiting s)\<rparr>)"

definition SetFormatter :: "formatter option \<Rightarrow> logger \<Rightarrow> logger" where
  "SetFormatter f s = (case f of None \<Rightarrow> s | Some fmt \<Rightarrow> s\<lparr>lg_formatter := fmt\<rparr>)"

definition AddAppender :: "appender_obj option \<Rightarrow> logger \<Rightarrow> logger" where
  "AddAppender a s = (case a of None \<Rightarrow> s | Some ap \<Rightarrow> s\<lparr>lg_appenders := lg_appenders s @ [ap]\<rparr>)"

definition ClearAppenders :: "logger \<Rightarrow> logger" where
  "ClearAppenders s = s\<lparr>lg_appenders := []\<rparr>"

fun flush_one :: "appender_obj \<Rightarrow> out_stream \<Rightarrow> appender_obj \<times> out_stream" where
  "flush_one Console cout = (Console, ConsoleAppender_Flush cout)"
| "flush_one (File k) cout = (File (FileAppender_Flush k), cout)"

fun flush_all :: "appender_obj list \<Rightarrow> out_stream \<Rightarrow> appender_obj list \<times> out_stream" where
  "flush_all [] cout = ([], cout)"
| "flush_all (a # as) cout =
     (case flush_one a cout of (a', cout') \<Rightarrow> case flush_all as cout' of (as', cout'') \<Rightarrow> (a' # as', cout''))"

definition Logger_Flush :: "logger \<Rightarrow> logger" where
  "Logger_Flush s =
     (case flush_all (lg_appenders s) (lg_cout s) of (as, cout) \<Rightarrow> s\<lparr>lg_appenders := as, lg_cout := cout\<rparr>)"

text \<open>The macros ask \<open>IsLevelEnabled\<close> first, to avoid building the message, and then call \<open>Log\<close>, which asks again. A change of
  the level between the two has the effect of one before or after both.\<close>

definition LOG_macro :: "int \<Rightarrow> nat \<Rightarrow> log_level \<Rightarrow> source_location \<Rightarrow> string \<Rightarrow> logger \<Rightarrow> logger" where
  "LOG_macro now tid level location message s =
     (if IsLevelEnabled level s then Log_enter now tid level location message s else s)"

datatype lg_op =
    LgEnter int nat log_level source_location string
  | LgLocked log_event
  | LgSetLevel log_level
  | LgSetFormatter "formatter option"
  | LgAddAppender "appender_obj option"
  | LgClearAppenders
  | LgFlush

inductive lg_step :: "logger \<Rightarrow> lg_op \<Rightarrow> logger \<Rightarrow> bool" where
  lg_enter: "lg_step s (LgEnter now tid level loc msg) (LOG_macro now tid level loc msg s)"
| lg_locked: "e \<in> set (lg_waiting s) \<Longrightarrow> lg_step s (LgLocked e) (Log_locked e s)"
| lg_set_level: "lg_step s (LgSetLevel level) (SetLevel level s)"
| lg_set_formatter: "lg_step s (LgSetFormatter f) (SetFormatter f s)"
| lg_add: "lg_step s (LgAddAppender a) (AddAppender a s)"
| lg_clear: "lg_step s LgClearAppenders (ClearAppenders s)"
| lg_flush: "lg_step s LgFlush (Logger_Flush s)"

inductive_cases lg_stepE: "lg_step s op s'"

section \<open>What has to be logged\<close>

text \<open>The level and the formatter in force after some operations, the events that pass the level
  check, the events in the order of the lock, and the lines they become.\<close>

fun level_after :: "log_level \<Rightarrow> lg_op list \<Rightarrow> log_level" where
  "level_after l [] = l"
| "level_after l (LgSetLevel l' # ops) = level_after l' ops"
| "level_after l (_ # ops) = level_after l ops"

fun entered :: "log_level \<Rightarrow> lg_op list \<Rightarrow> log_event list" where
  "entered l [] = []"
| "entered l (LgSetLevel l' # ops) = entered l' ops"
| "entered l (LgEnter now tid level loc msg # ops) =
     (if level \<ge> l \<and> level \<noteq> kOff then [LogEvent_ctor now tid level msg loc] else []) @ entered l ops"
| "entered l (_ # ops) = entered l ops"

fun formatter_after :: "formatter \<Rightarrow> lg_op list \<Rightarrow> formatter" where
  "formatter_after f [] = f"
| "formatter_after f (LgSetFormatter (Some g) # ops) = formatter_after g ops"
| "formatter_after f (_ # ops) = formatter_after f ops"

fun locked :: "lg_op list \<Rightarrow> log_event list" where
  "locked [] = []"
| "locked (LgLocked e # ops) = e # locked ops"
| "locked (_ # ops) = locked ops"

fun log_lines :: "formatter \<Rightarrow> lg_op list \<Rightarrow> string list" where
  "log_lines f [] = []"
| "log_lines f (LgLocked e # ops) = f e # log_lines f ops"
| "log_lines f (LgSetFormatter (Some g) # ops) = log_lines g ops"
| "log_lines f (_ # ops) = log_lines f ops"

lemma level_after_append: "level_after l (ops @ ops') = level_after (level_after l ops) ops'"
  by (induction l ops rule: level_after.induct) simp_all

lemma entered_append: "entered l (ops @ ops') = entered l ops @ entered (level_after l ops) ops'"
  by (induction l ops rule: entered.induct) simp_all

lemma formatter_after_append: "formatter_after f (ops @ ops') = formatter_after (formatter_after f ops) ops'"
  by (induction f ops rule: formatter_after.induct) simp_all

lemma locked_append: "locked (ops @ ops') = locked ops @ locked ops'"
  by (induction ops rule: locked.induct) simp_all

lemma log_lines_append: "log_lines f (ops @ ops') = log_lines f ops @ log_lines (formatter_after f ops) ops'"
  by (induction f ops rule: log_lines.induct) simp_all

lemmas log_append = level_after_append entered_append formatter_after_append locked_append log_lines_append

section \<open>Every step\<close>

lemma append_all_nth:
  "length (fst (append_all log as cout)) = length as
   \<and> (i < length as \<longrightarrow> as ! i = File k \<longrightarrow> fst (append_all log as cout) ! i = File (FileAppender_Append log k))"
proof (induction as arbitrary: cout i)
  case (Cons a as)
  then show ?case by (cases a; cases i) (simp_all add: case_prod_beta)
qed simp

lemma flush_all_nth:
  "length (fst (flush_all as cout)) = length as
   \<and> (i < length as \<longrightarrow> as ! i = File k \<longrightarrow> fst (flush_all as cout) ! i = File (FileAppender_Flush k))"
proof (induction as arbitrary: cout i)
  case (Cons a as)
  then show ?case by (cases a; cases i) (simp_all add: case_prod_beta)
qed simp

definition file_at :: "logger \<Rightarrow> nat \<Rightarrow> out_stream \<Rightarrow> bool" where
  "file_at s i k \<longleftrightarrow> i < length (lg_appenders s) \<and> lg_appenders s ! i = File k"

definition file_step :: "formatter \<Rightarrow> lg_op \<Rightarrow> out_stream \<Rightarrow> out_stream" where
  "file_step f op k =
     (case op of LgLocked e \<Rightarrow> FileAppender_Append (f e) k | LgFlush \<Rightarrow> FileAppender_Flush k | _ \<Rightarrow> k)"

lemma lg_step_file:
  assumes "lg_step s op s'" and "op \<noteq> LgClearAppenders" and "file_at s i k"
  shows "file_at s' i (file_step (lg_formatter s) op k)"
  using assms
proof cases
  case (lg_locked e)
  then show ?thesis
    using assms(3) append_all_nth [of "lg_formatter s e" "lg_appenders s" "lg_cout s" i k]
    by (simp add: file_at_def file_step_def Log_locked_def case_prod_beta)
next
  case lg_flush
  then show ?thesis
    using assms(3) flush_all_nth [of "lg_appenders s" "lg_cout s" i k]
    by (simp add: file_at_def file_step_def Logger_Flush_def case_prod_beta)
next
  case (lg_add a)
  then show ?thesis using assms(3) by (cases a) (simp_all add: file_at_def file_step_def AddAppender_def nth_append)
next
  case (lg_set_formatter f)
  then show ?thesis using assms(3) by (cases f) (simp_all add: file_at_def file_step_def SetFormatter_def)
qed (use assms in \<open>auto simp: file_at_def file_step_def LOG_macro_def Log_enter_def SetLevel_def\<close>)

lemma lg_step_settings:
  assumes "lg_step s op s'"
  shows "lg_level s' = level_after (lg_level s) [op]" "lg_formatter s' = formatter_after (lg_formatter s) [op]"
    "mset (locked [op]) + mset (lg_waiting s') = mset (lg_waiting s) + mset (entered (lg_level s) [op])"
  using assms
  by (cases; auto simp: LOG_macro_def Log_enter_def IsLevelEnabled_def Log_locked_def SetLevel_def SetFormatter_def AddAppender_def
      ClearAppenders_def Logger_Flush_def case_prod_beta split: option.splits)+

lemma lg_path_settings:
  assumes "ev_path lg_step s ops t"
  shows "lg_level t = level_after (lg_level s) ops \<and> lg_formatter t = formatter_after (lg_formatter s) ops
    \<and> mset (locked ops) + mset (lg_waiting t) = mset (lg_waiting s) + mset (entered (lg_level s) ops)"
  using assms
proof (induction s ops t rule: ev_path.induct)
  case (ev_snoc s ops t op t')
  then show ?case using lg_step_settings [OF ev_snoc.hyps(2)] by (auto simp: log_append ac_simps)
qed simp

lemma file_step_text:
  assumes "os_open k"
  shows "os_open (file_step f op k)"
    "stream_text (file_step f op k) = stream_text k @ concat (map (\<lambda>l. l @ newline) (log_lines f [op]))"
proof -
  show "os_open (file_step f op k)"
    using assms by (simp add: file_step_def files.append_usable files.flush_usable split: lg_op.split)
  show "stream_text (file_step f op k) = stream_text k @ concat (map (\<lambda>l. l @ newline) (log_lines f [op]))"
  proof (cases op)
    case (LgSetFormatter g)
    then show ?thesis by (cases g) (simp_all add: file_step_def)
  qed (simp_all add: file_step_def files.append_text [OF assms] files.flush_text)
qed

lemma lg_path_file:
  assumes "ev_path lg_step s ops t" and "LgClearAppenders \<notin> set ops"
  shows "file_at s i k \<Longrightarrow> os_open k \<Longrightarrow> \<exists>k'. file_at t i k' \<and> os_open k'
      \<and> stream_text k' = stream_text k @ concat (map (\<lambda>l. l @ newline) (log_lines (lg_formatter s) ops))"
  using assms
proof (induction s ops t rule: ev_path.induct)
  case (ev_snoc s ops t op t')
  then obtain k' where k': "file_at t i k'" "os_open k'"
    "stream_text k' = stream_text k @ concat (map (\<lambda>l. l @ newline) (log_lines (lg_formatter s) ops))"
    by auto
  have "file_at t' i (file_step (lg_formatter t) op k')"
    by (rule lg_step_file [OF ev_snoc.hyps(2) _ k'(1)]) (use ev_snoc.prems in auto)
  moreover have "lg_formatter t = formatter_after (lg_formatter s) ops"
    using lg_path_settings [OF ev_snoc.hyps(1)] by blast
  ultimately show ?case
    using file_step_text [OF k'(2), of "lg_formatter t" op] k'(3) by (auto simp: log_append)
qed auto

section \<open>Properties\<close>

text \<open>
  C24. Whatever threads log, change the level or the formatter, add appenders or flush, in any interleaving: a file
  appender that is open and not cleared away has received, in this order, one whole line for every
  event that went through the lock, formatted with the formatter of that moment, and nothing
  else; a flush hands all of it on to the file. The events that went through the lock or still wait for it are
  exactly those of the calls whose level was at least the logger's at that moment, \<open>kOff\<close> excepted, each
  once.
\<close>

theorem logger_delivers:
  assumes "ev_path lg_step s ops t" and "LgClearAppenders \<notin> set ops"
    and "i < length (lg_appenders s)" and "lg_appenders s ! i = File k" and "os_open k"
  shows "(\<exists>k'. i < length (lg_appenders t) \<and> lg_appenders t ! i = File k' \<and> os_open k'
            \<and> stream_text k' = stream_text k @ concat (map (\<lambda>l. l @ newline) (log_lines (lg_formatter s) ops))
            \<and> lg_appenders (Logger_Flush t) ! i = File (FileAppender_Flush k') \<and> os_flushed (FileAppender_Flush k') = stream_text k')
    \<and> mset (locked ops) + mset (lg_waiting t) = mset (lg_waiting s) + mset (entered (lg_level s) ops)"
proof -
  from lg_path_file [OF assms(1,2)] assms(3-5) obtain k' where k': "file_at t i k'" "os_open k'"
    "stream_text k' = stream_text k @ concat (map (\<lambda>l. l @ newline) (log_lines (lg_formatter s) ops))"
    by (auto simp: file_at_def)
  moreover have "file_at (Logger_Flush t) i (FileAppender_Flush k')"
    using lg_step_file [OF lg_flush _ k'(1)] by (simp add: file_step_def)
  moreover have "os_flushed (FileAppender_Flush k') = stream_text k'" by (rule files.flush_hands_on [OF k'(2)])
  ultimately show ?thesis using lg_path_settings [OF assms(1)] by (auto simp: file_at_def)
qed

definition sample_logger :: logger where
  "sample_logger = Logger_ctor (\<lambda>e. LogLevelToString (ev_level e) @ ev_message e) (FileAppender_ctor True [])
     \<lparr>lg_appenders := [Console, File (FileAppender_ctor True ''old'')]\<rparr>"

definition sample_loc :: source_location where
  "sample_loc = \<lparr>loc_file = ''a.cpp'', loc_line = 3, loc_function = ''f''\<rparr>"

theorem logger_delivers_witness:
  "\<exists>k'. lg_appenders (Log_locked (LogEvent_ctor 9 1 kWarn ''!'' sample_loc) (LOG_macro 9 1 kWarn sample_loc ''!'' sample_logger)) ! 1 = File k'
     \<and> stream_text k' = ''oldWARN!'' @ newline"
proof -
  let ?e = "LogEvent_ctor 9 1 kWarn ''!'' sample_loc"
  have "ev_path lg_step sample_logger [LgEnter 9 1 kWarn sample_loc ''!'', LgLocked ?e]
      (Log_locked ?e (LOG_macro 9 1 kWarn sample_loc ''!'' sample_logger))"
    by (rule ev_path_Cons, rule lg_enter, rule ev_path_Cons, rule lg_locked,
        simp add: LOG_macro_def Log_enter_def IsLevelEnabled_def sample_logger_def Logger_ctor_def less_eq_log_level_def, rule ev_nil)
  from logger_delivers [OF this, of 1 "FileAppender_ctor True ''old''"] show ?thesis
    by (auto simp: sample_logger_def Logger_ctor_def FileAppender_ctor_def stream_text_def LogEvent_ctor_def)
qed

end
