(* ===== verification/Conn_Stream.thy ===== *)
theory Conn_Stream
  imports Tcp_Connection "HOL-Library.Sublist"
begin

text \<open>
  The bytes of a connection from end to end: what the peer gets compared with what was to be sent. Two uses of the
  connection are followed through any sequence of events, the echo server of
  \<open>examples/example_tcp_connection.cpp\<close> and messages sent from other threads. Each event has its own outcome of
  \<open>readv\<close> and \<open>write\<close>.
\<close>

section \<open>Byte streams\<close>

text \<open>A step that hands over the bytes \<open>bytes e\<close> appends them to the stream; a step that is not clean may lose some, but it
  reorders, repeats and invents nothing. So it is for all steps together.\<close>

locale byte_stream =
  fixes step :: "'s \<Rightarrow> 'e \<Rightarrow> 's \<Rightarrow> bool" and good :: "'s \<Rightarrow> bool" and stream :: "'s \<Rightarrow> 'b list"
    and bytes :: "'e \<Rightarrow> 'b list" and clean :: "'e \<Rightarrow> bool"
  assumes step_good: "good s \<Longrightarrow> step s e s' \<Longrightarrow> good s'"
    and step_stream: "good s \<Longrightarrow> step s e s' \<Longrightarrow> subseq (stream s') (stream s @ bytes e)"
    and step_clean: "good s \<Longrightarrow> step s e s' \<Longrightarrow> clean e \<Longrightarrow> stream s' = stream s @ bytes e"
begin

lemma path_good: "ev_path step s0 es s \<Longrightarrow> good s0 \<Longrightarrow> good s"
  by (induction s0 es s rule: ev_path.induct) (auto intro: step_good)

lemma path_stream: "ev_path step s0 es s \<Longrightarrow> good s0 \<Longrightarrow> subseq (stream s) (stream s0 @ concat (map bytes es))"
proof (induction s0 es s rule: ev_path.induct)
  case (ev_snoc s0 es s e s')
  have "subseq (stream s') (stream s @ bytes e)"
    using step_stream [OF path_good [OF ev_snoc.hyps(1) ev_snoc.prems] ev_snoc.hyps(2)] .
  also have "subseq (stream s @ bytes e) ((stream s0 @ concat (map bytes es)) @ bytes e)"
    using ev_snoc by (intro list_emb_append_mono) simp_all
  finally show ?case by simp
qed simp

lemma path_clean:
  "ev_path step s0 es s \<Longrightarrow> good s0 \<Longrightarrow> list_all clean es \<Longrightarrow> stream s = stream s0 @ concat (map bytes es)"
  by (induction s0 es s rule: ev_path.induct) (auto simp: step_clean dest: path_good)

end

section \<open>A writable socket\<close>

text \<open>All or nothing is taken; the connection is not found broken.\<close>

definition all_or_none :: "write_fun \<Rightarrow> bool" where
  "all_or_none write \<longleftrightarrow> (\<forall>bs n. write bs = Inr n \<longrightarrow> n = 0 \<or> n = length bs)"

definition unbroken :: "write_fun \<Rightarrow> bool" where
  "unbroken write \<longleftrightarrow> (\<forall>bs err. write bs = Inl err \<longrightarrow> \<not> broken_pipe err)"

definition conn_stream :: "'u conn_sys \<Rightarrow> byte list" where
  "conn_stream s = tc_wire s @ content (tc_output s)"

lemma subseq_more [simp]: "subseq xs (xs @ ys)"
  using list_emb_append2 [of "(=)" xs "[]" ys] by (metis append_Nil2 list_emb_append_mono list_emb_Nil subseq_order.refl)

lemma subseq_skip: "subseq (take n xs @ drop (n + n) xs) xs"
proof -
  have "subseq (drop (n + n) xs) (drop n xs)"
    by (metis add.commute drop_drop suffix_drop suffix_imp_subseq)
  then have "subseq (take n xs @ drop (n + n) xs) (take n xs @ drop n xs)" by (intro list_emb_append_mono) simp_all
  then show ?thesis by simp
qed

lemma HandleWrite_stream:
  assumes inv: "conn_inv s"
  obtains s' where "Conn_HandleWrite write s = Inr s'" and "conn_inv s'" and "tc_state s' = tc_state s" and "tc_input s' = tc_input s"
    and "tc_has_message_cb s' = tc_has_message_cb s" and "subseq (conn_stream s') (conn_stream s)" and "all_or_none write \<Longrightarrow> conn_stream s' = conn_stream s"
    and "tc_queue s' = tc_queue s \<or> tc_queue s' = tc_queue s @ [FWriteComplete]"
proof (cases "is_open (tc_state s) \<and> content (tc_output s) \<noteq> []")
  case False
  then show ?thesis using HandleWrite_idle [OF inv] inv that [of s] by simp
next
  case True
  let ?C = "content (tc_output s)"
  show ?thesis
  proof (cases "\<exists>n. write ?C = Inr n \<and> 0 < n")
    case w: True
    then obtain n where n: "write ?C = Inr n" "0 < n" by blast
    with HandleWrite_ok [OF inv, of "write" n] True obtain s' where s': "Conn_HandleWrite write s = Inr s'" "conn_inv s'"
      "tc_state s' = tc_state s" "tc_wire s' = tc_wire s @ take n ?C" "content (tc_output s') = drop (n + n) ?C"
      "tc_queue s' = tc_queue s @ (if length ?C \<le> n + n \<and> tc_has_write_complete_cb s then [FWriteComplete] else [])"
      "tc_input s' = tc_input s" "tc_has_message_cb s' = tc_has_message_cb s" by blast
    have st: "conn_stream s' = tc_wire s @ take n ?C @ drop (n + n) ?C" using s'(4,5) by (simp add: conn_stream_def)
    then have "subseq (conn_stream s') (conn_stream s)" using list_emb_append_mono [OF subseq_order.refl subseq_skip] by (simp add: conn_stream_def)
    moreover have "conn_stream s' = conn_stream s" if "all_or_none write"
    proof -
      have "n = length ?C" using that n by (auto simp: all_or_none_def)
      then show ?thesis using st by (simp add: conn_stream_def del: length_content)
    qed
    ultimately show ?thesis using s' by (intro that [of s']) (auto split: if_splits)
  next
    case False
    then have "\<exists>b. Conn_HandleWrite write s = Inr (s\<lparr>tc_output := b\<rparr>) \<and> conn_inv (s\<lparr>tc_output := b\<rparr>) \<and> content b = ?C"
      using True by (intro HandleWrite_fails [OF inv]) auto
    then obtain b where "Conn_HandleWrite write s = Inr (s\<lparr>tc_output := b\<rparr>)" "conn_inv (s\<lparr>tc_output := b\<rparr>)" "content b = ?C" by blast
    then show ?thesis by (intro that [of "s\<lparr>tc_output := b\<rparr>"]) (simp_all add: conn_stream_def)
  qed
qed

lemma SendInLoop_stream:
  assumes "conn_inv s" and "write_contract write" and "m_writer_index (tc_output s) + length message \<le> vec_max"
  obtains s' where "SendInLoop write message s = Inr s'" and "conn_inv s'" and "tc_state s' = tc_state s" and "tc_input s' = tc_input s"
    and "tc_has_message_cb s' = tc_has_message_cb s" and "subseq (conn_stream s') (conn_stream s @ message)"
    and "unbroken write \<Longrightarrow> tc_state s = kConnected \<Longrightarrow> conn_stream s' = conn_stream s @ message"
    and "\<exists>fs. tc_queue s' = tc_queue s @ fs \<and> set fs \<subseteq> {FWriteComplete} \<union> range FHighWaterMark"
proof (cases "tc_state s = kConnected")
  case False
  then show ?thesis using assms(1) that [of s] by (simp add: SendInLoop_def)
next
  case True
  from SendInLoop_ok [OF assms(1) True assms(2,3)] obtain s' where s': "SendInLoop write message s = Inr s'" "conn_inv s'"
    "tc_state s' = kConnected" "conn_stream s' = conn_stream s @ (if drops write message s then [] else message)"
    "tc_queue s' = tc_queue s @ complete_fn write message s @ high_water_fn s (tc_output s')" "tc_input s' = tc_input s"
    "tc_has_message_cb s' = tc_has_message_cb s" by (auto simp: conn_stream_def)
  have "set (complete_fn write message s @ high_water_fn s (tc_output s')) \<subseteq> {FWriteComplete} \<union> range FHighWaterMark"
    by (auto simp: complete_fn_def high_water_fn_def)
  moreover have "subseq (conn_stream s') (conn_stream s @ message)" using s'(4) by simp
  moreover have "conn_stream s' = conn_stream s @ message" if "unbroken write"
    using that s'(4) by (auto simp: unbroken_def drops_def)
  ultimately show ?thesis using s' True by (intro that [of s']) auto
qed

section \<open>The echo server\<close>

text \<open>The callbacks that \<open>example_tcp_connection.cpp\<close> gives a new connection (the message callback is that of
  \<open>example_tcp_server.cpp\<close> too). The first prints the state; the second sends back the input buffer, which is the
  connection's own; the third calls \<open>ConnectDestroyed\<close>, at once since it runs in the loop.\<close>

definition echo_cb :: "write_fun \<Rightarrow> 'u user_cb" where
  "echo_cb write ev s =
     (case ev of
        EvConnection \<Rightarrow> Inr s
      | EvMessage t \<Rightarrow>
          rmap (\<lambda>(buf, s'). case buf of None \<Rightarrow> s' | Some b \<Rightarrow> s'\<lparr>tc_input := b\<rparr>) (Send_buffer True write (Some (tc_input s)) s)
      | EvClose \<Rightarrow> ConnectDestroyed (\<lambda>_ s. Inr s) s)"

text \<open>A new connection: \<open>sockname_ok\<close> is whether \<open>getsockname\<close> succeeds; otherwise the descriptor is closed again.\<close>

definition echo_NewConnection ::
  "chan_ptr \<Rightarrow> int \<Rightarrow> bool \<Rightarrow> nat \<Rightarrow> write_fun \<Rightarrow> 'u \<Rightarrow> conn_cb poll_state \<Rightarrow> 'u conn_sys option res" where
  "echo_NewConnection p sockfd sockname_ok self write u ps =
     (if \<not> sockname_ok then Inr None
      else rbind (TcpConnection_ctor p sockfd u ps) (\<lambda>conn.
           rmap Some (ConnectEstablished self (echo_cb write)
             (SetCloseCallback True (SetMessageCallback True (SetConnectionCallback True conn))))))"

text \<open>An event that says the socket is readable, or writable, with what the kernel does then.\<close>

datatype echo_ev =
    EchoRead readv_fun write_fun int
  | EchoWrite write_fun

fun echo_do :: "echo_ev \<Rightarrow> 'u conn_sys \<Rightarrow> 'u conn_sys res" where
  "echo_do (EchoRead readv write t) s = Conn_HandleRead readv (echo_cb write) t s"
| "echo_do (EchoWrite write) s = Conn_HandleWrite write s"

fun echo_got :: "echo_ev \<Rightarrow> 'u conn_sys \<Rightarrow> byte list" where
  "echo_got (EchoRead readv write t) s = (case readv (read_vec (tc_input s)) of Inl _ \<Rightarrow> [] | Inr bs \<Rightarrow> bs)"
| "echo_got (EchoWrite write) s = []"

text \<open>The kernel keeps its contracts, a closed connection is not read from, and there is memory.\<close>

fun echo_pre :: "echo_ev \<Rightarrow> 'u conn_sys \<Rightarrow> bool" where
  "echo_pre (EchoRead readv write t) s \<longleftrightarrow>
     is_open (tc_state s) \<and> readv_contract readv \<and> write_contract write \<and> read_room s
     \<and> m_writer_index (tc_output s) + length (echo_got (EchoRead readv write t) s) \<le> vec_max"
| "echo_pre (EchoWrite write) s \<longleftrightarrow> True"

fun echo_clean :: "echo_ev \<Rightarrow> bool" where
  "echo_clean (EchoRead readv write t) \<longleftrightarrow> unbroken write"
| "echo_clean (EchoWrite write) \<longleftrightarrow> all_or_none write"

text \<open>A step is labelled with the bytes that came in.\<close>

definition echo_step :: "'u conn_sys \<Rightarrow> echo_ev \<times> byte list \<Rightarrow> 'u conn_sys \<Rightarrow> bool" where
  "echo_step s e s' \<longleftrightarrow> echo_pre (fst e) s \<and> snd e = echo_got (fst e) s \<and> echo_do (fst e) s = Inr s'"

definition echo_good :: "'u conn_sys \<Rightarrow> bool" where
  "echo_good s \<longleftrightarrow> conn_inv s \<and> content (tc_input s) = [] \<and> tc_has_message_cb s
     \<and> (tc_state s = kConnected \<or> tc_state s = kDisconnected)"

lemma conn_inv_input: "conn_inv s \<Longrightarrow> buf_wf b \<Longrightarrow> conn_inv (s\<lparr>tc_input := b\<rparr>)"
  by (auto simp: conn_inv_def chan_inv_def cong: conn_state.case_cong)

lemma echo_message:
  assumes inv: "conn_inv s" and st: "tc_state s = kConnected" and w: "write_contract write"
    and mem: "m_writer_index (tc_output s) + length (content (tc_input s)) \<le> vec_max" and cb: "tc_has_message_cb s"
  obtains s' where "echo_cb write (EvMessage t) s = Inr s'" and "echo_good s'"
    and "subseq (conn_stream s') (conn_stream s @ content (tc_input s))"
    and "unbroken write \<Longrightarrow> conn_stream s' = conn_stream s @ content (tc_input s)"
proof (cases "content (tc_input s) = []")
  case True
  have wf: "buf_wf (tc_input s)" using inv by (auto elim: conn_invE)
  then have "ReadableBytes (tc_input s) = 0" using True by (simp add: ReadableBytes_content del: length_content ReadableBytes_wf)
  then have "echo_cb write (EvMessage t) s = Inr (s\<lparr>tc_input := tc_input s\<rparr>)" by (simp add: echo_cb_def Send_buffer_def)
  then show ?thesis using that [of s] assms True by (simp add: echo_good_def)
next
  case False
  have wf: "buf_wf (tc_input s)" using inv by (auto elim: conn_invE)
  let ?m = "content (tc_input s)"
  from SendInLoop_stream [OF inv w mem] obtain s1 where s1: "SendInLoop write ?m s = Inr s1" "conn_inv s1" "tc_state s1 = tc_state s"
    "tc_has_message_cb s1 = tc_has_message_cb s" "subseq (conn_stream s1) (conn_stream s @ ?m)"
    "unbroken write \<Longrightarrow> tc_state s = kConnected \<Longrightarrow> conn_stream s1 = conn_stream s @ ?m" by metis
  let ?s = "s1\<lparr>tc_input := RetrieveAll (tc_input s)\<rparr>"
  have "ReadableBytes (tc_input s) \<noteq> 0" using wf False by (simp add: ReadableBytes_content del: length_content ReadableBytes_wf)
  then have "echo_cb write (EvMessage t) s = Inr ?s"
    using s1(1) wf by (simp add: echo_cb_def Send_buffer_def ToStringView_wf)
  moreover have "echo_good ?s"
    using s1 st cb wf conn_inv_input [OF s1(2)] by (simp add: echo_good_def wf_intros)
  moreover have "conn_stream ?s = conn_stream s1" by (simp add: conn_stream_def)
  ultimately show ?thesis using that [of ?s] s1(5,6) st by simp
qed

lemma echo_close:
  assumes inv: "conn_inv s" and op: "is_open (tc_state s)"
  obtains ps where "HandleClose (echo_cb write) s = Inr (s\<lparr>tc_state := kDisconnected, tc_poll := ps\<rparr>)"
    and "conn_inv (s\<lparr>tc_state := kDisconnected, tc_poll := ps\<rparr>)"
proof -
  from close_channel [OF assms] obtain s1 where s1: "on_channel DisableAll (s\<lparr>tc_state := kDisconnected\<rparr>) = Inr s1" "conn_inv s1"
    "tc_state s1 = kDisconnected" "\<exists>ps. s1 = s\<lparr>tc_state := kDisconnected, tc_poll := ps\<rparr>" .
  from ConnectDestroyed_closed [OF s1(2,3)] obtain ps where ps: "ConnectDestroyed (\<lambda>_ s. Inr s) s1 = Inr (s1\<lparr>tc_poll := ps\<rparr>)"
    "conn_inv (s1\<lparr>tc_poll := ps\<rparr>)" using s1(3) by (auto simp: ConnectDestroyed_def)
  obtain ps' where ps': "s1 = s\<lparr>tc_state := kDisconnected, tc_poll := ps'\<rparr>" using s1(4) by blast
  show ?thesis
  proof (cases "tc_has_close_cb s")
    case True
    then show ?thesis
      using that [of ps] op s1(1) ps ps' by (simp add: HandleClose_def run_user_def echo_cb_def is_open_def)
  next
    case False
    then show ?thesis
      using that [of ps'] op s1(1,2) ps' by (simp add: HandleClose_def run_user_def echo_cb_def is_open_def)
  qed
qed

lemma echo_progress:
  assumes good: "echo_good s" and pre: "echo_pre e s"
  obtains s' where "echo_do e s = Inr s'" and "echo_good s'" and "subseq (conn_stream s') (conn_stream s @ echo_got e s)"
    and "echo_clean e \<Longrightarrow> conn_stream s' = conn_stream s @ echo_got e s"
proof (cases e)
  case (EchoWrite wr)
  have "conn_inv s" using good by (simp add: echo_good_def)
  from HandleWrite_stream [OF this, of wr] show ?thesis
    using that good EchoWrite by (metis append_Nil2 echo_clean.simps(2) echo_do.simps(2) echo_got.simps(2) echo_good_def)
next
  case (EchoRead readv wr t)
  have g: "conn_inv s" "content (tc_input s) = []" "tc_has_message_cb s" using good by (simp_all add: echo_good_def)
  have p: "readv_contract readv" "write_contract wr" "read_room s" "tc_state s = kConnected"
    using pre good EchoRead by (auto simp: echo_good_def is_open_def)
  from HandleRead_eq [OF g(1) p(1,3), of "echo_cb wr" t] obtain b where b: "conn_inv (s\<lparr>tc_input := b\<rparr>)"
    "content b = echo_got e s" "echo_do e s = (case readv (read_vec (tc_input s)) of
        Inl err \<Rightarrow> Inr (s\<lparr>tc_input := b\<rparr>)
      | Inr bs \<Rightarrow> if bs = [] then HandleClose (echo_cb wr) (s\<lparr>tc_input := b\<rparr>)
          else run_user (tc_has_message_cb s) (EvMessage t) (echo_cb wr) (s\<lparr>tc_input := b\<rparr>))"
    using g(2) EchoRead by auto
  have str: "conn_stream (s\<lparr>tc_input := b\<rparr>) = conn_stream s" by (simp add: conn_stream_def)
  consider err where "readv (read_vec (tc_input s)) = Inl err" | "readv (read_vec (tc_input s)) = Inr []"
    | bs where "readv (read_vec (tc_input s)) = Inr bs" "bs \<noteq> []" by (cases "readv (read_vec (tc_input s))") blast+
  then show ?thesis
  proof cases
    case 1
    then show ?thesis using that [of "s\<lparr>tc_input := b\<rparr>"] b g p(4) str EchoRead by (simp add: echo_good_def)
  next
    case 2
    have "is_open (tc_state (s\<lparr>tc_input := b\<rparr>))" using p(4) by (simp add: is_open_def)
    from echo_close [OF b(1) this] obtain ps where ps: "HandleClose (echo_cb wr) (s\<lparr>tc_input := b\<rparr>) =
        Inr (s\<lparr>tc_input := b, tc_state := kDisconnected, tc_poll := ps\<rparr>)"
      "conn_inv (s\<lparr>tc_input := b, tc_state := kDisconnected, tc_poll := ps\<rparr>)" by auto
    then show ?thesis
      using that [of "s\<lparr>tc_input := b, tc_state := kDisconnected, tc_poll := ps\<rparr>"] b(2,3) 2 g EchoRead
      by (simp add: echo_good_def conn_stream_def)
  next
    case 3
    let ?s = "s\<lparr>tc_input := b\<rparr>"
    have "tc_state ?s = kConnected" "m_writer_index (tc_output ?s) + length (content (tc_input ?s)) \<le> vec_max" "tc_has_message_cb ?s"
      using p(4) pre b(2) g(3) EchoRead by (simp_all del: length_content)
    from echo_message [OF b(1) this(1) p(2) this(2,3), of t] show ?thesis
      using that b(2,3) 3 g(3) str EchoRead by (force simp: run_user_def)
  qed
qed

interpretation echo: byte_stream echo_step echo_good conn_stream snd "\<lambda>e. echo_clean (fst e)"
proof
  fix s s' :: "'a conn_sys" and e assume s: "echo_good s" "echo_step s e s'"
  then obtain s1 where "echo_do (fst e) s = Inr s1" "echo_good s1" "subseq (conn_stream s1) (conn_stream s @ echo_got (fst e) s)"
    "echo_clean (fst e) \<Longrightarrow> conn_stream s1 = conn_stream s @ echo_got (fst e) s"
    using echo_progress [OF s(1)] unfolding echo_step_def by metis
  then show "echo_good s'" "subseq (conn_stream s') (conn_stream s @ snd e)"
    "echo_clean (fst e) \<Longrightarrow> conn_stream s' = conn_stream s @ snd e"
    using s(2) by (simp_all add: echo_step_def)
qed

section \<open>Messages from other threads\<close>

text \<open>Threads other than the loop's send messages; the loop runs the functors in the order in which they were queued, and writes
  when the socket is writable. The notifications of the application do not touch the connection.\<close>

datatype send_ev =
    SendFrom "byte list"
  | RunNext write_fun
  | SockWritable write_fun

fun send_do :: "send_ev \<Rightarrow> 'u conn_sys \<Rightarrow> 'u conn_sys res" where
  "send_do (SendFrom message) s = Send False (\<lambda>_. Inr 0) message s"
| "send_do (RunNext write) s =
     (case tc_queue s of
        [] \<Rightarrow> Inr s
      | f # fs \<Rightarrow> run_functor write (\<lambda>_ s. Inr s) (\<lambda>_ s. Inr s) f (s\<lparr>tc_queue := fs\<rparr>))"
| "send_do (SockWritable write) s = Conn_HandleWrite write s"

fun fn_bytes :: "conn_functor \<Rightarrow> byte list" where
  "fn_bytes (FSend message) = message"
| "fn_bytes _ = []"

definition queued_bytes :: "'u conn_sys \<Rightarrow> byte list" where
  "queued_bytes s = concat (map fn_bytes (tc_queue s))"

fun send_pre :: "send_ev \<Rightarrow> 'u conn_sys \<Rightarrow> bool" where
  "send_pre (SendFrom message) s \<longleftrightarrow> True"
| "send_pre (RunNext write) s \<longleftrightarrow> write_contract write
     \<and> (case tc_queue s of [] \<Rightarrow> True | f # fs \<Rightarrow> m_writer_index (tc_output s) + length (fn_bytes f) \<le> vec_max)"
| "send_pre (SockWritable write) s \<longleftrightarrow> True"

definition send_step :: "'u conn_sys \<Rightarrow> send_ev \<Rightarrow> 'u conn_sys \<Rightarrow> bool" where
  "send_step s e s' \<longleftrightarrow> send_pre e s \<and> send_do e s = Inr s'"

fun sent_bytes :: "send_ev \<Rightarrow> byte list" where
  "sent_bytes (SendFrom message) = message"
| "sent_bytes _ = []"

fun send_clean :: "send_ev \<Rightarrow> bool" where
  "send_clean (SendFrom message) \<longleftrightarrow> True"
| "send_clean (RunNext write) \<longleftrightarrow> unbroken write"
| "send_clean (SockWritable write) \<longleftrightarrow> all_or_none write"

definition send_stream :: "'u conn_sys \<Rightarrow> byte list" where
  "send_stream s = conn_stream s @ queued_bytes s"

definition only_sends :: "'u conn_sys \<Rightarrow> bool" where
  "only_sends s \<longleftrightarrow> FShutdown \<notin> set (tc_queue s) \<and> FForceClose \<notin> set (tc_queue s)"

definition send_good :: "'u conn_sys \<Rightarrow> bool" where
  "send_good s \<longleftrightarrow> conn_inv s \<and> tc_state s = kConnected \<and> only_sends s"

lemma notices:
  assumes "set fs \<subseteq> {FWriteComplete} \<union> range FHighWaterMark"
  shows "concat (map fn_bytes fs) = []" and "FShutdown \<notin> set fs" and "FForceClose \<notin> set fs"
  using assms by (induction fs) auto

lemma run_send:
  assumes good: "send_good s" and q: "tc_queue s = FSend m # fs" and pre: "send_pre (RunNext wr) s"
  obtains s' where "send_do (RunNext wr) s = Inr s'" and "send_good s'" and "subseq (send_stream s') (send_stream s)"
    and "unbroken wr \<Longrightarrow> send_stream s' = send_stream s"
proof -
  let ?s = "s\<lparr>tc_queue := fs\<rparr>"
  have st: "conn_inv ?s" "write_contract wr" "m_writer_index (tc_output ?s) + length m \<le> vec_max" "tc_state ?s = kConnected"
    using good pre q by (simp_all add: send_good_def)
  from SendInLoop_stream [OF st(1-3)] obtain s' gs where s': "SendInLoop wr m ?s = Inr s'" "conn_inv s'" "tc_state s' = kConnected"
    "subseq (conn_stream s') (conn_stream ?s @ m)" "unbroken wr \<Longrightarrow> conn_stream s' = conn_stream ?s @ m"
    "tc_queue s' = fs @ gs" "set gs \<subseteq> {FWriteComplete} \<union> range FHighWaterMark"
    using st(4) by (metis select_convs(13) surjective update_convs(13))
  have same: "conn_stream ?s = conn_stream s" by (simp add: conn_stream_def)
  have q': "queued_bytes s' = concat (map fn_bytes fs)" "queued_bytes s = m @ concat (map fn_bytes fs)"
    using s'(6) notices(1) [OF s'(7)] q by (simp_all add: queued_bytes_def)
  have "subseq (send_stream s') (send_stream s)"
    using list_emb_append_mono [OF s'(4) subseq_order.refl] q' same by (simp add: send_stream_def)
  moreover have "send_good s'" using good q s' notices(2,3) [OF s'(7)] by (auto simp: send_good_def only_sends_def)
  moreover have "unbroken wr \<Longrightarrow> send_stream s' = send_stream s" using s'(5) q' same by (simp add: send_stream_def)
  ultimately show ?thesis using that [of s'] s'(1) q by (simp add: run_functor_def)
qed

lemma send_progress:
  assumes good: "send_good s" and pre: "send_pre e s"
  obtains s' where "send_do e s = Inr s'" and "send_good s'" and "subseq (send_stream s') (send_stream s @ sent_bytes e)"
    and "send_clean e \<Longrightarrow> send_stream s' = send_stream s @ sent_bytes e"
proof (cases e)
  case (SendFrom m)
  then show ?thesis
    using that [of "if m = [] then s else QueueInLoop_fn (FSend m) s"] good
    by (auto simp: Send_def send_good_def only_sends_def QueueInLoop_fn_def send_stream_def queued_bytes_def conn_stream_def)
next
  case (SockWritable wr)
  have "conn_inv s" using good by (simp add: send_good_def)
  from HandleWrite_stream [OF this, of wr] obtain s' where s': "Conn_HandleWrite wr s = Inr s'" "conn_inv s'" "tc_state s' = tc_state s"
    "subseq (conn_stream s') (conn_stream s)" "all_or_none wr \<Longrightarrow> conn_stream s' = conn_stream s"
    "tc_queue s' = tc_queue s \<or> tc_queue s' = tc_queue s @ [FWriteComplete]" by metis
  have "queued_bytes s' = queued_bytes s" using s'(6) by (auto simp: queued_bytes_def)
  moreover have "send_good s'" using good s' by (auto simp: send_good_def only_sends_def)
  ultimately show ?thesis
    using that [of s'] s'(1,4,5) SockWritable list_emb_append_mono [OF s'(4) subseq_order.refl] by (simp add: send_stream_def)
next
  case (RunNext wr)
  show ?thesis
  proof (cases "\<exists>m fs. tc_queue s = FSend m # fs")
    case True
    then obtain m fs where "tc_queue s = FSend m # fs" by blast
    from run_send [OF good this, of wr] show ?thesis using that pre RunNext by auto
  next
    case False
    let ?s = "s\<lparr>tc_queue := tl (tc_queue s)\<rparr>"
    have "send_do e s = Inr ?s"
      using False good RunNext by (auto simp: run_functor_def send_good_def only_sends_def split: list.splits conn_functor.splits)
    moreover have "send_good ?s" using good by (cases "tc_queue s") (auto simp: send_good_def only_sends_def)
    moreover have "queued_bytes ?s = queued_bytes s"
      using False by (cases "tc_queue s"; cases "hd (tc_queue s)") (auto simp: queued_bytes_def)
    ultimately show ?thesis using that [of ?s] RunNext by (simp add: send_stream_def conn_stream_def)
  qed
qed

interpretation sends: byte_stream send_step send_good send_stream sent_bytes send_clean
proof
  fix s s' :: "'a conn_sys" and e assume s: "send_good s" "send_step s e s'"
  then obtain s1 where "send_do e s = Inr s1" "send_good s1" "subseq (send_stream s1) (send_stream s @ sent_bytes e)"
    "send_clean e \<Longrightarrow> send_stream s1 = send_stream s @ sent_bytes e"
    using send_progress [OF s(1)] unfolding send_step_def by metis
  then show "send_good s'" "subseq (send_stream s') (send_stream s @ sent_bytes e)"
    "send_clean e \<Longrightarrow> send_stream s' = send_stream s @ sent_bytes e"
    using s(2) by (simp_all add: send_step_def)
qed

section \<open>Properties\<close>

lemma echo_new:
  assumes "poller_inv ps" and "chan_heap ps p = None" and "m_channels ps fd = None" and "0 \<le> fd"
  shows "\<exists>s0. echo_NewConnection p fd True self write u ps = Inr (Some s0) \<and> echo_good s0 \<and> tc_state s0 = kConnected
    \<and> conn_stream s0 = []"
proof -
  from TcpConnection_ctor_inv [OF assms, of u] obtain s where s: "TcpConnection_ctor p fd u ps = Inr s" "conn_inv s"
    "tc_state s = kConnecting" "content (tc_input s) = []" "content (tc_output s) = []" "tc_wire s = []" by blast
  define s1 where "s1 = SetCloseCallback True (SetMessageCallback True (SetConnectionCallback True s))"
  have s1: "conn_inv s1" "tc_state s1 = kConnecting" "tc_input s1 = tc_input s" "tc_output s1 = tc_output s" "tc_wire s1 = []"
    "tc_has_message_cb s1"
    using s by (simp_all add: s1_def SetCloseCallback_def SetMessageCallback_def SetConnectionCallback_def conn_inv_def chan_inv_def
        cong: conn_state.case_cong)
  from ConnectEstablished_opens [OF s1(1,2)] obtain s2 ps' where s2: "ConnectEstablished self (echo_cb write) s1 =
      run_user (tc_has_connection_cb s1) EvConnection (echo_cb write) s2" "conn_inv s2" "s2 = s1\<lparr>tc_state := kConnected, tc_poll := ps'\<rparr>"
    by metis
  have "ConnectEstablished self (echo_cb write) s1 = Inr s2" using s2(1) by (simp add: run_user_def echo_cb_def)
  then show ?thesis
    using s s1 s2(2,3) by (simp add: echo_NewConnection_def s1_def [symmetric] echo_good_def conn_stream_def)
qed


text \<open>A kernel that takes everything.\<close>

definition all_out :: write_fun where
  "all_out bs = Inr (length bs)"


text \<open>
  C12. Messages sent from other threads reach the peer in the order in which they were sent. What the kernel has accepted, then the
  output buffer, then the messages still in the queue of the loop: together they are a subsequence of what was there, followed
  by all messages sent, and exactly that as long as no send finds the connection broken and no
  later write is partial. No functor fails, and the connection stays in order.
\<close>

theorem sends_in_order:
  assumes "conn_inv s0" and "tc_state s0 = kConnected" and "tc_queue s0 = []" and "ev_path send_step s0 es s"
  shows "conn_inv s \<and> tc_state s = kConnected
    \<and> subseq (tc_wire s @ content (tc_output s) @ queued_bytes s) (tc_wire s0 @ content (tc_output s0) @ concat (map sent_bytes es))
    \<and> (list_all send_clean es \<longrightarrow>
         tc_wire s @ content (tc_output s) @ queued_bytes s = tc_wire s0 @ content (tc_output s0) @ concat (map sent_bytes es))
    \<and> (\<forall>e. send_pre e s \<longrightarrow> (\<exists>s'. send_do e s = Inr s'))"
proof -
  have s0: "send_good s0" "send_stream s0 = tc_wire s0 @ content (tc_output s0)"
    using assms(1-3) by (simp_all add: send_good_def only_sends_def send_stream_def queued_bytes_def conn_stream_def)
  have good: "send_good s" by (rule sends.path_good [OF assms(4) s0(1)])
  have "\<exists>s'. send_do e s = Inr s'" if "send_pre e s" for e using send_progress [OF good that] by blast
  then show ?thesis
    using good sends.path_stream [OF assms(4) s0(1)] sends.path_clean [OF assms(4) s0(1)] s0(2)
    by (simp add: send_good_def send_stream_def conn_stream_def)
qed

theorem sends_in_order_witness:
  "\<exists>s. ev_path send_step (sample_conn kConnected buf10) [SendFrom [1], SendFrom [2, 3]] s
     \<and> tc_wire s @ content (tc_output s) @ queued_bytes s = [1, 2, 3]"
proof -
  let ?a = "sample_conn kConnected buf10"
  let ?b = "?a\<lparr>tc_queue := [FSend [1], FSend [2, 3]]\<rparr>"
  have inv: "conn_inv ?a" by (rule sample_conn_inv) (simp_all add: buf10_facts is_open_def)
  have st: "tc_state ?a = kConnected" "tc_queue ?a = []" "tc_wire ?a = []" "tc_output ?a = buf10"
    by (simp_all add: sample_conn_def)
  have p: "ev_path send_step ?a [SendFrom [1], SendFrom [2, 3]] ?b"
    by (rule ev_path_Cons [of _ _ _ "?a\<lparr>tc_queue := [FSend [1]]\<rparr>", OF _ ev_path_single])
      (simp_all add: send_step_def Send_def QueueInLoop_fn_def st)
  from sends_in_order [OF inv st(1,2) p] show ?thesis
    using p by (intro exI [of _ ?b]) (simp add: st buf10_facts)
qed

end
