(* ===== verification/Conn_Context.thy ===== *)
theory Conn_Context
  imports Net_Prelude
begin

text \<open>
  \<open>TcpConnection::SetContext\<close> and \<open>GetContext\<close> (\<open>net/transport/tcp_connection.cpp\<close>): the object that an application attaches to a
  connection, used from several threads. Threads are numbers. An access to \<open>m_context\<close> takes time, so it has a step
  for its beginning and one for its end.
\<close>

section \<open>State\<close>

datatype 'v access = Reading | Writing 'v

text \<open>\<open>cx_value\<close> is \<open>m_context\<close>, \<open>cx_lock\<close> the thread that has \<open>m_context_mutex\<close>. \<open>cx_using\<close> has what a thread is doing to
  \<open>m_context\<close>, \<open>cx_ref\<close> the threads that have got the reference which \<open>GetContext\<close> returns.\<close>

record 'v ctx_state =
  cx_value :: 'v
  cx_lock :: "nat option"
  cx_using :: "nat \<rightharpoonup> 'v access"
  cx_ref :: "nat set"

definition ctx_init :: "'v \<Rightarrow> 'v ctx_state" where
  "ctx_init v = \<lparr>cx_value = v, cx_lock = None, cx_using = Map.empty, cx_ref = {}\<rparr>"

section \<open>Operations\<close>

text \<open>\<open>SetContext\<close>: the loop thread assigns without the lock, any other thread holds it during the assignment.\<close>

definition SetContext_begin :: "nat \<Rightarrow> nat \<Rightarrow> 'v \<Rightarrow> 'v ctx_state \<Rightarrow> 'v ctx_state" where
  "SetContext_begin loop t v s =
     s\<lparr>cx_lock := (if t = loop then cx_lock s else Some t), cx_using := (cx_using s)(t \<mapsto> Writing v)\<rparr>"

definition SetContext_end :: "nat \<Rightarrow> nat \<Rightarrow> 'v ctx_state \<Rightarrow> 'v ctx_state" where
  "SetContext_end loop t s =
     (case cx_using s t of
        Some (Writing v) \<Rightarrow>
          s\<lparr>cx_value := v, cx_lock := (if t = loop then cx_lock s else None), cx_using := (cx_using s)(t := None)\<rparr>
      | _ \<Rightarrow> s)"

text \<open>\<open>GetContext\<close> returns a reference; in a thread other than the loop's the lock is released again on return, so
  the caller reads the object without it.\<close>

definition GetContext :: "nat \<Rightarrow> 'v ctx_state \<Rightarrow> 'v ctx_state" where
  "GetContext t s = s\<lparr>cx_ref := insert t (cx_ref s)\<rparr>"

datatype 'v ctx_ev =
    SetBegin nat 'v
  | SetEnd nat
  | Get nat
  | ReadBegin nat
  | ReadEnd nat

fun ctx_do :: "nat \<Rightarrow> 'v ctx_ev \<Rightarrow> 'v ctx_state \<Rightarrow> 'v ctx_state" where
  "ctx_do loop (SetBegin t v) s = SetContext_begin loop t v s"
| "ctx_do loop (SetEnd t) s = SetContext_end loop t s"
| "ctx_do loop (Get t) s = GetContext t s"
| "ctx_do loop (ReadBegin t) s = s\<lparr>cx_using := (cx_using s)(t \<mapsto> Reading)\<rparr>"
| "ctx_do loop (ReadEnd t) s = s\<lparr>cx_using := (cx_using s)(t := None)\<rparr>"

fun writing :: "'v access option \<Rightarrow> bool" where
  "writing (Some (Writing v)) \<longleftrightarrow> True"
| "writing _ \<longleftrightarrow> False"

fun ctx_enabled :: "nat \<Rightarrow> 'v ctx_ev \<Rightarrow> 'v ctx_state \<Rightarrow> bool" where
  "ctx_enabled loop (SetBegin t v) s \<longleftrightarrow> Option.is_none (cx_using s t) \<and> (t = loop \<or> Option.is_none (cx_lock s))"
| "ctx_enabled loop (SetEnd t) s \<longleftrightarrow> writing (cx_using s t)"
| "ctx_enabled loop (Get t) s \<longleftrightarrow> Option.is_none (cx_using s t) \<and> (t = loop \<or> Option.is_none (cx_lock s))"
| "ctx_enabled loop (ReadBegin t) s \<longleftrightarrow> t \<in> cx_ref s \<and> Option.is_none (cx_using s t)"
| "ctx_enabled loop (ReadEnd t) s \<longleftrightarrow> \<not> Option.is_none (cx_using s t) \<and> \<not> writing (cx_using s t)"

inductive ctx_step :: "nat \<Rightarrow> 'v ctx_state \<Rightarrow> 'v ctx_ev \<Rightarrow> 'v ctx_state \<Rightarrow> bool" where
  ctx_stepI: "ctx_enabled loop e s \<Longrightarrow> ctx_step loop s e (ctx_do loop e s)"

inductive_cases ctx_stepE: "ctx_step loop s e s'"

text \<open>Two threads use the object at the same time and one of them writes: undefined behaviour in C++.\<close>

definition data_race :: "'v ctx_state \<Rightarrow> nat \<Rightarrow> nat \<Rightarrow> bool" where
  "data_race s t t' \<longleftrightarrow> t \<noteq> t' \<and> writing (cx_using s t) \<and> cx_using s t' \<noteq> None"

section \<open>What the lock protects\<close>

definition lock_inv :: "nat \<Rightarrow> 'v ctx_state \<Rightarrow> bool" where
  "lock_inv loop s \<longleftrightarrow> (\<forall>t. t \<noteq> loop \<longrightarrow> (writing (cx_using s t) \<longleftrightarrow> cx_lock s = Some t)) \<and> cx_lock s \<noteq> Some loop"

lemma ctx_init_inv: "lock_inv loop (ctx_init v)"
  by (simp add: lock_inv_def ctx_init_def)

lemma ctx_step_inv:
  assumes "lock_inv loop s" and "ctx_step loop s e s'"
  shows "lock_inv loop s'"
proof -
  from assms(2) have en: "ctx_enabled loop e s" and s': "s' = ctx_do loop e s" by (auto elim: ctx_stepE)
  show ?thesis
  proof (cases e)
    case (SetEnd t)
    then obtain v where "cx_using s t = Some (Writing v)" using en by (auto elim: writing.elims)
    then show ?thesis using assms(1) SetEnd s' by (auto simp: lock_inv_def SetContext_end_def)
  next
    case (ReadEnd t)
    then show ?thesis using assms(1) en s' by (auto simp: lock_inv_def)
  next
    case (ReadBegin t)
    then have "\<not> writing (cx_using s t)" using en by (simp add: Option.is_none_def)
    then show ?thesis using assms(1) ReadBegin s' by (auto simp: lock_inv_def)
  qed (use assms(1) en s' in \<open>auto simp: lock_inv_def SetContext_begin_def GetContext_def\<close>)
qed

lemma ctx_reachable_inv: "ev_path (ctx_step loop) (ctx_init v) es s \<Longrightarrow> lock_inv loop s"
  by (rule ev_path_invariant [of "ctx_step loop" "ctx_init v" es s]) (auto intro: ctx_init_inv ctx_step_inv)

lemma other_writers_exclude:
  assumes "lock_inv loop s" and "t \<noteq> loop" and "t' \<noteq> loop" and "writing (cx_using s t)" and "writing (cx_using s t')"
  shows "t = t'"
  using assms by (auto simp: lock_inv_def)

section \<open>Property\<close>

text \<open>
  The lock of the context protects the threads other than the loop's from each other's \<open>SetContext\<close>, and from nothing else. In
  every interleaving at most one of them is writing. But the loop thread, which does not take the lock, can write while another thread writes;
  and a thread that reads through the reference it got from \<open>GetContext\<close> reads while another
  thread writes, even without the loop thread. Both are data races.
\<close>

theorem context_access:
  "(\<forall>loop (v :: 'v) es s t t'. ev_path (ctx_step loop) (ctx_init v) es s \<and> t \<noteq> loop \<and> t' \<noteq> loop
       \<and> writing (cx_using s t) \<and> writing (cx_using s t') \<longrightarrow> t = t')
   \<and> (\<forall>loop t. \<forall>(v :: 'v) w x. t \<noteq> loop \<longrightarrow>
       (\<exists>s. ev_path (ctx_step loop) (ctx_init v) [SetBegin t w, SetBegin loop x] s \<and> data_race s loop t \<and> data_race s t loop))
   \<and> (\<forall>loop t t'. \<forall>(v :: 'v) w. t \<noteq> t' \<longrightarrow>
       (\<exists>s. ev_path (ctx_step loop) (ctx_init v) [Get t, SetBegin t' w, ReadBegin t] s \<and> data_race s t' t))"
proof (intro conjI allI impI)
  fix loop t t' es s and v :: 'v
  assume "ev_path (ctx_step loop) (ctx_init v) es s \<and> t \<noteq> loop \<and> t' \<noteq> loop \<and> writing (cx_using s t) \<and> writing (cx_using s t')"
  then show "t = t'" using ctx_reachable_inv other_writers_exclude by metis
next
  fix loop t :: nat and v w x :: 'v assume ne: "t \<noteq> loop"
  let ?a = "SetContext_begin loop t w (ctx_init v)" and ?b = "SetContext_begin loop loop x (SetContext_begin loop t w (ctx_init v))"
  have "ctx_step loop (ctx_init v) (SetBegin t w) ?a" "ctx_step loop ?a (SetBegin loop x) ?b"
    using ctx_stepI [of loop "SetBegin t w" "ctx_init v"] ctx_stepI [of loop "SetBegin loop x" ?a] ne
    by (simp_all add: ctx_init_def SetContext_begin_def)
  then have "ev_path (ctx_step loop) (ctx_init v) [SetBegin t w, SetBegin loop x] ?b"
    by (rule ev_path_Cons [OF _ ev_path_single])
  then show "\<exists>s. ev_path (ctx_step loop) (ctx_init v) [SetBegin t w, SetBegin loop x] s \<and> data_race s loop t \<and> data_race s t loop"
    using ne by (intro exI [of _ ?b]) (simp add: data_race_def SetContext_begin_def)
next
  fix loop t t' :: nat and v w :: 'v assume ne: "t \<noteq> t'"
  let ?a = "GetContext t (ctx_init v)"
  let ?b = "SetContext_begin loop t' w ?a"
  let ?c = "ctx_do loop (ReadBegin t) ?b"
  have "ctx_step loop (ctx_init v) (Get t) ?a" "ctx_step loop ?a (SetBegin t' w) ?b" "ctx_step loop ?b (ReadBegin t) ?c"
    using ctx_stepI [of loop "Get t" "ctx_init v"] ctx_stepI [of loop "SetBegin t' w" ?a] ctx_stepI [of loop "ReadBegin t" ?b] ne
    by (simp_all add: ctx_init_def SetContext_begin_def GetContext_def)
  then have "ev_path (ctx_step loop) (ctx_init v) [Get t, SetBegin t' w, ReadBegin t] ?c"
    by (blast intro: ev_path_Cons ev_path_single)
  then show "\<exists>s. ev_path (ctx_step loop) (ctx_init v) [Get t, SetBegin t' w, ReadBegin t] s \<and> data_race s t' t"
    using ne by (intro exI [of _ ?c]) (simp add: data_race_def SetContext_begin_def)
qed

theorem context_access_witness:
  "\<exists>s. ev_path (ctx_step 0) (ctx_init False) [SetBegin 1 True, SetBegin 0 True] s \<and> data_race s 0 1"
proof -
  have ne: "(1 :: nat) \<noteq> 0" by simp
  from context_access [where 'v = bool, THEN conjunct2, THEN conjunct1, rule_format, OF ne, of False True True]
  show ?thesis by blast
qed

end
