(* ===== verification/Loop_Affinity.thy ===== *)
theory Loop_Affinity
  imports Channel_Owner
begin

text \<open>
  The thread a loop belongs to (\<open>net/event_loop.cpp\<close>, \<open>net/poller.cpp\<close>, \<open>net/channel.cpp\<close>): the test for it, what \<open>AssertInLoopThread\<close> does,
  and the calls through which a channel reaches the poller of its loop. Threads are numbers; \<open>la_fatal\<close> are the lines written by \<open>LOG_FATAL\<close>, which
  does not end the program.
\<close>

record 'cb affine_loop =
  la_thread_id :: nat
  la_poll :: "'cb poll_state"
  la_fatal :: "string list"

definition IsInLoopThread :: "nat \<Rightarrow> 'cb affine_loop \<Rightarrow> bool" where
  "IsInLoopThread self s \<longleftrightarrow> self = la_thread_id s"

definition AssertInLoopThread :: "nat \<Rightarrow> 'cb affine_loop \<Rightarrow> 'cb affine_loop" where
  "AssertInLoopThread self s =
     (if \<not> IsInLoopThread self s
      then s\<lparr>la_fatal := la_fatal s @ [''EventLoop::AssertInLoopThread - not in loop thread'']\<rparr> else s)"

definition EventLoop_UpdateChannel :: "nat \<Rightarrow> chan_ptr \<Rightarrow> 'cb affine_loop \<Rightarrow> 'cb affine_loop res" where
  "EventLoop_UpdateChannel self p s =
     (let s = AssertInLoopThread self s in rmap (\<lambda>ps. s\<lparr>la_poll := ps\<rparr>) (UpdateChannel p (la_poll s)))"

definition EventLoop_RemoveChannel :: "nat \<Rightarrow> chan_ptr \<Rightarrow> 'cb affine_loop \<Rightarrow> 'cb affine_loop res" where
  "EventLoop_RemoveChannel self p s =
     (let s = AssertInLoopThread self s in rmap (\<lambda>ps. s\<lparr>la_poll := ps\<rparr>) (RemoveChannel p (la_poll s)))"

text \<open>\<open>Channel::Update\<close>, and a change of a channel's events from some thread.\<close>

definition Channel_Update :: "nat \<Rightarrow> chan_ptr \<Rightarrow> 'cb affine_loop \<Rightarrow> 'cb affine_loop res" where
  "Channel_Update self p s = EventLoop_UpdateChannel self p s"

definition set_events_from :: "nat \<Rightarrow> (events \<Rightarrow> events) \<Rightarrow> chan_ptr \<Rightarrow> 'cb affine_loop \<Rightarrow> 'cb affine_loop res" where
  "set_events_from self f p s = with_channel p (la_poll s) (\<lambda>c.
     Channel_Update self p (s\<lparr>la_poll := put_channel p (c\<lparr>ch_events := f (ch_events c)\<rparr>) (la_poll s)\<rparr>))"

definition warning :: "nat \<Rightarrow> 'cb affine_loop \<Rightarrow> string list" where
  "warning self s = (if self = la_thread_id s then [] else [''EventLoop::AssertInLoopThread - not in loop thread''])"

text \<open>
  \<open>AssertInLoopThread\<close> protects nothing: enabling or disabling events of a channel and removing it from a thread other than the loop's does to the poller
  exactly what it does in the loop thread, including the failed assertions; the only difference is a line in the log. In the loop thread the calls are those on the
  poller itself.
\<close>

lemma thread_check_only_logs:
  "set_events_from self f p s =
     rmap (\<lambda>ps. s\<lparr>la_fatal := la_fatal s @ warning self s, la_poll := ps\<rparr>) (Channel_set_events f p (la_poll s))
   \<and> EventLoop_RemoveChannel self p s =
     rmap (\<lambda>ps. s\<lparr>la_fatal := la_fatal s @ warning self s, la_poll := ps\<rparr>) (RemoveChannel p (la_poll s))"
proof -
  have log: "AssertInLoopThread self t = t\<lparr>la_fatal := la_fatal t @ warning self t\<rparr>" for t :: "'a affine_loop"
    by (simp add: AssertInLoopThread_def IsInLoopThread_def warning_def)
  show ?thesis
    by (auto simp: set_events_from_def Channel_Update_def EventLoop_UpdateChannel_def EventLoop_RemoveChannel_def log Let_def
        Channel_set_events_def with_channel_def warning_def split: option.splits)
qed

end
