(* ===== verification/Poller_Object.thy ===== *)
theory Poller_Object
  imports Channel_Owner
begin

text \<open>
  The poller as an object: \<open>Poller\<close> and \<open>EpollPoller\<close> with the descriptor \<open>m_epoll_fd\<close>, which the constructor opens and the destructor closes.
  \<open>Epoll_Poller\<close> has the rest of the state. If \<open>epoll_create1\<close> fails, the constructor logs and goes on, and every later call of
  \<open>epoll_ctl\<close> and \<open>epoll_wait\<close> fails.
\<close>

section \<open>State\<close>

record 'cb poller_obj =
  po_epoll_fd :: int
  po_state :: "'cb poll_state"

section \<open>Construction and destruction\<close>

text \<open>\<open>loop_given\<close>: the pointer to the loop is not null. \<open>fd\<close> is what \<open>epoll_create1\<close> returns.\<close>

definition Poller_ctor :: "bool \<Rightarrow> 'a res \<Rightarrow> 'a res" where
  "Poller_ctor loop_given rest = cpp_assert loop_given rest"

definition EpollPoller_create :: "bool \<Rightarrow> int \<Rightarrow> 'cb poller_obj res" where
  "EpollPoller_create loop_given fd = Poller_ctor loop_given (Inr \<lparr>po_epoll_fd = fd, po_state = EpollPoller_ctor\<rparr>)"

definition NewDefaultPoller :: "bool \<Rightarrow> int \<Rightarrow> 'cb poller_obj res" where
  "NewDefaultPoller loop_given fd = EpollPoller_create loop_given fd"

text \<open>The descriptors closed, and the object.\<close>

definition EpollPoller_dtor :: "'cb poller_obj \<Rightarrow> int list \<times> 'cb poller_obj" where
  "EpollPoller_dtor po = (if po_epoll_fd po \<ge> 0 then ([po_epoll_fd po], po\<lparr>po_epoll_fd := - 1\<rparr>) else ([], po))"

section \<open>Calls\<close>

text \<open>The list the kernel keeps: on a bad descriptor every \<open>epoll_ctl\<close> fails. \<open>Poll\<close> gets events from the kernel only through a good
  descriptor.\<close>

definition kernel_list :: "'cb poller_obj \<Rightarrow> (int \<rightharpoonup> events \<times> chan_ptr) option" where
  "kernel_list po = (if po_epoll_fd po \<ge> 0 then interest_of (ctl_calls (po_state po)) else Some Map.empty)"

definition on_state :: "('cb poll_state \<Rightarrow> 'cb poll_state res) \<Rightarrow> 'cb poller_obj \<Rightarrow> 'cb poller_obj res" where
  "on_state oper po = rmap (\<lambda>s. po\<lparr>po_state := s\<rparr>) (oper (po_state po))"

definition Poller_Poll :: "(nat \<Rightarrow> (events \<times> chan_ptr) list) \<Rightarrow> 'cb poller_obj \<Rightarrow> (chan_ptr list \<times> 'cb poller_obj) res" where
  "Poller_Poll epoll_wait po =
     rmap (\<lambda>(active, s). (active, po\<lparr>po_state := s\<rparr>))
       (EpollPoller_Poll (if po_epoll_fd po \<ge> 0 then epoll_wait else (\<lambda>_. [])) (po_state po))"

section \<open>Facts\<close>

text \<open>The descriptor is closed once, however often the destructor's code runs.\<close>

lemma dtor_closes_once:
  assumes "NewDefaultPoller True fd = Inr po" and "0 \<le> fd"
  shows "EpollPoller_dtor (po\<lparr>po_state := s\<rparr>) = ([fd], po\<lparr>po_state := s, po_epoll_fd := - 1\<rparr>)"
    and "fst (EpollPoller_dtor (snd (EpollPoller_dtor (po\<lparr>po_state := s\<rparr>)))) = []"
  using assms by (auto simp: NewDefaultPoller_def EpollPoller_create_def Poller_ctor_def EpollPoller_dtor_def)

text \<open>A poller without its descriptor takes a channel as a good one does, the channel counts as registered, and no event is ever reported: \<open>Poll\<close>
  returns at once, with nothing.\<close>

lemma dead_poller:
  assumes "NewDefaultPoller True fd = Inr po" and "fd < 0" and "0 \<le> cfd"
  shows "\<exists>po'. on_state (\<lambda>s. rbind (make_read_channel p cfd cb s) (EnableReading p)) po = Inr po' \<and> reading p cfd cb (po_state po')
    \<and> watched (po_state po') cfd = Some (kReadEvent, p) \<and> kernel_list po' = Some Map.empty
    \<and> Poller_Poll epoll_wait po' = Inr ([], po')"
proof -
  have po: "po_state po = EpollPoller_ctor" "po_epoll_fd po = fd"
    using assms(1) by (auto simp: NewDefaultPoller_def EpollPoller_create_def Poller_ctor_def)
  from open_reading_ok [OF poller_inv_ctor, of p cfd cb] assms(3) obtain s where
    s: "rbind (make_read_channel p cfd cb EpollPoller_ctor) (EnableReading p) = Inr s" "reading p cfd cb s"
    "watched s = [cfd \<mapsto> (kReadEvent, p)]"
    by (auto simp: EpollPoller_ctor_def watched_def fun_eq_iff)
  then show ?thesis
    using po assms(2) by (intro exI [of _ "po\<lparr>po_state := s\<rparr>"]) (simp add: on_state_def kernel_list_def Poller_Poll_def EpollPoller_Poll_def)
qed

end
