(* ===== verification/Example_Programs.thy ===== *)
theory Example_Programs
  imports Epoll_Poller Socket_Fd Thread_Pool Logger Buffer Inet_Address
begin

unbundle bit_operations_syntax

text \<open>
  The programs of \<open>examples/\<close> that use one component from one thread, and the pool example. Each is translated as a whole, so
  that the components are used together as an application uses them; what it prints is its result.
\<close>

section \<open>Channel and poller\<close>

text \<open>The channel of these programs counts its callbacks. \<open>ew_poll\<close> is the poller of the program's event loop.\<close>

datatype count_cb = CountRead | CountWrite | CountClose | CountError

record count_world =
  ew_poll :: "count_cb poll_state"
  ew_read :: nat
  ew_write :: nat
  ew_close :: nat
  ew_error :: nat

definition ex_call :: "int option \<Rightarrow> count_cb \<Rightarrow> count_world \<Rightarrow> count_world res" where
  "ex_call t cb w =
     (case cb of
        CountRead \<Rightarrow> Inr (w\<lparr>ew_read := ew_read w + 1\<rparr>)
      | CountWrite \<Rightarrow> Inr (w\<lparr>ew_write := ew_write w + 1\<rparr>)
      | CountClose \<Rightarrow> Inr (w\<lparr>ew_close := ew_close w + 1\<rparr>)
      | CountError \<Rightarrow> Inr (w\<lparr>ew_error := ew_error w + 1\<rparr>))"

definition on_poll :: "(count_cb poll_state \<Rightarrow> count_cb poll_state res) \<Rightarrow> count_world \<Rightarrow> count_world res" where
  "on_poll oper w = rmap (\<lambda>ps. w\<lparr>ew_poll := ps\<rparr>) (oper (ew_poll w))"

definition on_chan :: "chan_ptr \<Rightarrow> (count_cb channel \<Rightarrow> count_cb channel) \<Rightarrow> count_world \<Rightarrow> count_world res" where
  "on_chan p f w = on_poll (\<lambda>ps. with_channel p ps (\<lambda>c. Inr (put_channel p (f c) ps))) w"

definition ex_HandleEvent :: "chan_ptr \<Rightarrow> int \<Rightarrow> count_world \<Rightarrow> count_world res" where
  "ex_HandleEvent p now w = HandleEvent (\<lambda>_ _. True) (\<lambda>w. chan_heap (ew_poll w) p) ex_call now w"

definition fire :: "chan_ptr \<Rightarrow> int \<Rightarrow> events \<Rightarrow> count_world \<Rightarrow> count_world res" where
  "fire p now revents w = rbind (on_chan p (SetRevents revents) w) (ex_HandleEvent p now)"

definition ex_callbacks :: "count_cb channel \<Rightarrow> count_cb channel" where
  "ex_callbacks c = Channel_SetErrorCallback (Some CountError) (Channel_SetCloseCallback (Some CountClose)
     (Channel_SetWriteCallback (Some CountWrite) (Channel_SetReadCallback (Some CountRead) c)))"

text \<open>\<open>example_channel.cpp\<close> up to the end of \<open>main\<close>; \<open>now\<close> is what the clock says. Then the channel is destroyed.\<close>

definition example_channel :: "chan_ptr \<Rightarrow> int \<Rightarrow> count_cb poll_state \<Rightarrow> count_world res" where
  "example_channel p now ps =
     rbind (on_poll (new_channel p 0) \<lparr>ew_poll = ps, ew_read = 0, ew_write = 0, ew_close = 0, ew_error = 0\<rparr>) (\<lambda>w.
     rbind (on_chan p ex_callbacks w) (\<lambda>w.
     rbind (on_poll (EnableReading p) w) (\<lambda>w.
     rbind (on_poll (EnableWriting p) w) (\<lambda>w.
     rbind (fire p now (POLLIN OR POLLOUT) w) (\<lambda>w.
     rbind (fire p now POLLHUP w) (\<lambda>w.
     rbind (fire p now POLLERR w) (\<lambda>w.
       on_poll (DisableAll p) w)))))))"

definition example_channel_exit :: "chan_ptr \<Rightarrow> int \<Rightarrow> count_cb poll_state \<Rightarrow> count_world res" where
  "example_channel_exit p now ps = rbind (example_channel p now ps) (on_poll (Channel_dtor p))"

text \<open>\<open>example_poller.cpp\<close>: \<open>fd\<close> is the reading end of the pipe. It prints the number of active channels and \<open>ew_read\<close>.\<close>

fun handle_all :: "chan_ptr list \<Rightarrow> int \<Rightarrow> count_world \<Rightarrow> count_world res" where
  "handle_all [] now w = Inr w"
| "handle_all (p # ps) now w = rbind (ex_HandleEvent p now w) (handle_all ps now)"

definition example_poller ::
  "chan_ptr \<Rightarrow> int \<Rightarrow> int \<Rightarrow> (nat \<Rightarrow> (events \<times> chan_ptr) list) \<Rightarrow> count_cb poll_state \<Rightarrow> (nat \<times> count_world) res" where
  "example_poller p fd now epoll_wait ps =
     rbind (on_poll (new_channel p fd) \<lparr>ew_poll = ps, ew_read = 0, ew_write = 0, ew_close = 0, ew_error = 0\<rparr>) (\<lambda>w.
     rbind (on_chan p (Channel_SetReadCallback (Some CountRead)) w) (\<lambda>w.
     rbind (on_poll (EnableReading p) w) (\<lambda>w.
     rbind (EpollPoller_Poll epoll_wait (ew_poll w)) (\<lambda>(active, ps).
     rbind (handle_all active now (w\<lparr>ew_poll := ps\<rparr>)) (\<lambda>w.
     rbind (on_poll (DisableAll p) w) (\<lambda>w.
     rbind (on_poll (RemoveChannel p) w) (\<lambda>w.
     rbind (on_poll (Channel_dtor p) w) (\<lambda>w.
       Inr (length active, w)))))))))"

lemmas ex_channel_defs = on_poll_def on_chan_def new_channel_def Channel_ctor_def ex_callbacks_def Channel_SetErrorCallback_def
  Channel_SetCloseCallback_def Channel_SetWriteCallback_def Channel_SetReadCallback_def EnableReading_def EnableWriting_def
  DisableAll_def Channel_set_events_def UpdateChannel_def with_channel_def put_channel_def IsNoneEvent_def EpollPoller_Update_def
  fire_def ex_HandleEvent_def HandleEvent_def HandleEventWithGuard_def dispatch_def SetRevents_def ex_call_def
  closes_def fails_def reads_def writes_def has_event_def index_defs kReadEvent_def kWriteEvent_def kNoneEvent_def poll_bits
  Channel_dtor_def RemoveChannel_def EpollPoller_Poll_def

lemma example_channel_runs:
  assumes "m_channels ps 0 = None"
  shows "\<exists>w. example_channel p now ps = Inr w \<and> (ew_read w, ew_write w, ew_close w, ew_error w) = (1, 1, 1, 1)
    \<and> (\<exists>c. chan_heap (ew_poll w) p = Some c \<and> ch_index c = kDeleted)"
  using assms by (simp add: example_channel_def ex_channel_defs)

lemma example_poller_runs:
  assumes "m_channels ps fd = None" and "0 \<le> fd" and "epoll_wait (m_events_size ps) = [(POLLIN, p)]"
  shows "\<exists>w. example_poller p fd now epoll_wait ps = Inr (1, w) \<and> ew_read w = 1
    \<and> chan_heap (ew_poll w) = (chan_heap ps)(p := None) \<and> m_channels (ew_poll w) = m_channels ps"
proof -
  have same: "(m_channels ps)(fd := None) = m_channels ps" using assms(1) by (rule fun_upd_idem)
  show ?thesis using assms same by (simp add: example_poller_def ex_channel_defs)
qed

section \<open>Buffer\<close>

text \<open>\<open>example_buffer.cpp\<close>: the numbers and texts it prints. \<open>str_bytes\<close> are the bytes of a literal.\<close>

definition str_bytes :: "string \<Rightarrow> byte list" where
  "str_bytes s = map of_char s"

definition crlf :: string where
  "crlf = [CHR 0x0D, CHR 0x0A]"

definition request_line :: string where
  "request_line = ''GET / HTTP/1.1''"

definition host_line :: string where
  "host_line = ''Host: localhost''"

definition example_buffer :: "endian \<Rightarrow> (nat \<times> byte list \<times> byte list option \<times> nat \<times> string) res" where
  "example_buffer e =
     rbind Buffer_default (\<lambda>b.
     rbind (Buffer_Append_string b (str_bytes (request_line @ crlf))) (\<lambda>b.
     rbind (Buffer_Append_string b (str_bytes (host_line @ crlf @ crlf))) (\<lambda>b.
     rbind (ToStringView b) (\<lambda>view.
     rbind (FindCRLF b) (\<lambda>line_end.
     rbind (if line_end \<noteq> ReaderBegin b + ReadableBytes b
            then rmap Some (mem_read (m_data b) (ReaderBegin b) (line_end - ReaderBegin b)) else Inr None) (\<lambda>first_line.
     rbind (PrependInt32 e b (of_nat (ReadableBytes b))) (\<lambda>b2.
     rbind (ToHexString b2) (\<lambda>hex.
       Inr (ReadableBytes b, view, first_line, ReadableBytes b2, hex)))))))))"

section \<open>Socket\<close>

text \<open>\<open>example_socket.cpp\<close>: the exit code, and what it prints about the accepted connection. The results of the system
  calls are arguments; the options set before \<open>Bind\<close> are kept in \<open>opts\<close>, and their results are not looked at.\<close>

definition set_options :: "int \<Rightarrow> (sockopt \<Rightarrow> bool) \<Rightarrow> sockopts \<Rightarrow> sockopts" where
  "set_options fd ok opts =
     snd (SetKeepAlive True fd (ok SO_KEEPALIVE) (snd (SetTcpNoDelay True fd (ok TCP_NODELAY)
       (snd (SetReusePort True fd (ok SO_REUSEPORT) (snd (SetReuseAddr True fd (ok SO_REUSEADDR) opts)))))))"

definition example_socket ::
  "endian \<Rightarrow> socket_fun \<Rightarrow> (sockopt \<Rightarrow> bool) \<Rightarrow> bool \<Rightarrow> bool \<Rightarrow> (int \<times> byte list) option \<Rightarrow> sock_ptr \<Rightarrow> sock_world \<Rightarrow>
   (int \<times> int option \<times> sockopts \<times> sock_world) res" where
  "example_socket e socket opt_ok bind_ok listen_ok accept4 p w =
     (let w = CreateTcp socket AF_INET p w in
      with_socket p w (\<lambda>fd.
        if \<not> Socket_IsValid fd then rmap (\<lambda>w. (1, None, Map.empty, w)) (Socket_dtor p w)
        else let opts = set_options fd opt_ok Map.empty in
             if \<not> Socket_Bind fd bind_ok then rmap (\<lambda>w. (1, None, opts, w)) (Socket_dtor p w)
             else if \<not> Socket_Listen fd listen_ok then rmap (\<lambda>w. (1, None, opts, w)) (Socket_dtor p w)
             else rbind (Socket_Accept e fd accept4) (\<lambda>(conn_fd, peer).
               let w = (if conn_fd \<ge> 0 then snd (sys_close conn_fd (w\<lparr>open_fds := insert conn_fd (open_fds w)\<rparr>)) else w)
               in rmap (\<lambda>w. (0, if conn_fd \<ge> 0 then Some conn_fd else None, opts, w)) (Socket_dtor p w))))"

section \<open>Logger\<close>

text \<open>\<open>example_logger.cpp\<close>: the events of the five macros, in the main thread \<open>tid\<close>; \<open>now\<close> is the clock at each of them. Nothing else uses
  the logger, so \<open>Log\<close> takes the lock at once.\<close>

definition log_now :: "int \<Rightarrow> nat \<Rightarrow> source_location \<Rightarrow> log_level \<times> string \<Rightarrow> logger \<Rightarrow> logger" where
  "log_now now tid loc m s =
     (let s1 = LOG_macro now tid (fst m) loc (snd m) s
      in if lg_waiting s1 = lg_waiting s then s1 else Log_locked (LogEvent_ctor now tid (fst m) (snd m) loc) s1)"

definition example_logger :: "(nat \<Rightarrow> int) \<Rightarrow> nat \<Rightarrow> (nat \<Rightarrow> source_location) \<Rightarrow> logger \<Rightarrow> logger" where
  "example_logger now tid loc s =
     log_now (now 4) tid (loc 4) (kInfo, ''formatted: 42 hello'')
    (log_now (now 3) tid (loc 3) (kError, ''error message'')
    (log_now (now 2) tid (loc 2) (kWarn, ''warn message'')
    (log_now (now 1) tid (loc 1) (kInfo, ''info message'')
    (log_now (now 0) tid (loc 0) (kDebug, ''debug message'') (SetLevel kDebug s)))))"

section \<open>Thread pool\<close>

text \<open>\<open>example_thread_pool.cpp\<close>: what \<open>main\<close> calls before it waits, with the tasks numbered. The workers and the notifications go on in between,
  and what \<open>Submit\<close> returns is not looked at.\<close>

definition example_thread_pool :: "nat pool_ev list" where
  "example_thread_pool = [PStart] @ replicate 4 PSpawn @ map (\<lambda>i. PSubmit (Some i) True) [0..<20] @ [PStop]"

fun main_call :: "'t pool_ev \<Rightarrow> 't pool_ev list" where
  "main_call (PSubmit task b) = [PSubmit task True]"
| "main_call PNotify = []"
| "main_call (PWorker i) = []"
| "main_call e = [e]"

definition main_calls :: "'t pool_ev list \<Rightarrow> 't pool_ev list" where
  "main_calls es = concat (map main_call es)"

fun submitted :: "'t pool_ev list \<Rightarrow> 't list" where
  "submitted [] = []"
| "submitted (PStop # es) = []"
| "submitted (PSubmit (Some t) b # es) = t # submitted es"
| "submitted (_ # es) = submitted es"

lemma submitted_snoc:
  "submitted (es @ [e]) = submitted es @ (if PStop \<in> set es then [] else case e of PSubmit (Some t) b \<Rightarrow> [t] | _ \<Rightarrow> [])"
  by (induction es rule: submitted.induct) (auto split: pool_ev.splits option.splits)

lemma pool_path_accepts:
  "ev_path pool_step s0 es s \<Longrightarrow> accepted s0 = [] \<Longrightarrow> \<not> m_stopping s0 \<Longrightarrow> accepted s = submitted es \<and> (m_stopping s \<longleftrightarrow> PStop \<in> set es)"
proof (induction s0 es s rule: ev_path.induct)
  case (ev_snoc s0 es s e s')
  then have s: "accepted s = submitted es" "m_stopping s \<longleftrightarrow> PStop \<in> set es" by simp_all
  from ev_snoc.hyps(2) show ?case
    by cases (use s in \<open>auto simp: submitted_snoc Submit_def Start_flag_def Start_thread_def Stop_flag_def set_worker_def worker_check_def
        worker_finish_def Wait_done_def split: option.splits if_splits list.splits\<close>)
qed simp

lemma pool_path_workers:
  "ev_path pool_step s0 es s \<Longrightarrow> workers s0 = [] \<Longrightarrow> length (workers s) = length (filter (\<lambda>e. e = PSpawn) es)"
proof (induction s0 es s rule: ev_path.induct)
  case (ev_snoc s0 es s e s')
  then have s: "length (workers s) = length (filter (\<lambda>e. e = PSpawn) es)" by simp
  from ev_snoc.hyps(2) show ?case
    by cases (use s in \<open>auto simp: Submit_def Start_flag_def Start_thread_def Stop_flag_def set_worker_def worker_check_def
        worker_finish_def Wait_done_def split: option.splits if_splits list.splits\<close>)
qed simp

lemma submitted_main_calls: "submitted (main_calls es) = submitted es"
proof (induction es)
  case (Cons e es)
  then show ?case
  proof (cases e)
    case (PSubmit task b)
    then show ?thesis using Cons by (cases task) (simp_all add: main_calls_def)
  qed (simp_all add: main_calls_def)
qed (simp add: main_calls_def)

lemma spawns_main_calls: "length (filter (\<lambda>e. e = PSpawn) (main_calls es)) = length (filter (\<lambda>e. e = PSpawn) es)"
proof (induction es)
  case (Cons e es)
  then show ?case by (cases e) (simp_all add: main_calls_def)
qed (simp add: main_calls_def)

lemma example_tasks:
  "submitted example_thread_pool = [0..<20]" "length (filter (\<lambda>e. e = PSpawn) example_thread_pool) = 4"
  by code_simp+

section \<open>Properties\<close>

text \<open>
  \<open>example_poller.cpp\<close> and \<open>example_channel.cpp\<close>. When the poller reports the pipe as readable, the first prints one event and one read, and leaves the poller of
  the loop as it found it, the channel destroyed without a failed assertion. The second dispatches
  each of its events to the right callback, once; but it ends with \<open>DisableAll\<close> and does not remove the channel, and the
  destructor of the channel fails its assertion.
\<close>

theorem channel_examples:
  assumes "m_channels ps fd = None" and "0 \<le> fd" and "epoll_wait (m_events_size ps) = [(POLLIN, p)]" and "m_channels ps 0 = None"
  shows "(\<exists>w. example_poller p fd now epoll_wait ps = Inr (1, w) \<and> ew_read w = 1
        \<and> chan_heap (ew_poll w) = (chan_heap ps)(p := None) \<and> m_channels (ew_poll w) = m_channels ps)
    \<and> (\<exists>w. example_channel p now ps = Inr w \<and> (ew_read w, ew_write w, ew_close w, ew_error w) = (1, 1, 1, 1))
    \<and> example_channel_exit p now ps = Inl AssertionFailed"
proof (intro conjI)
  show "\<exists>w. example_poller p fd now epoll_wait ps = Inr (1, w) \<and> ew_read w = 1
      \<and> chan_heap (ew_poll w) = (chan_heap ps)(p := None) \<and> m_channels (ew_poll w) = m_channels ps"
    by (rule example_poller_runs) (use assms in simp_all)
  from example_channel_runs [OF assms(4), of p now] obtain w c where w: "example_channel p now ps = Inr w"
    "(ew_read w, ew_write w, ew_close w, ew_error w) = (1, 1, 1, 1)" "chan_heap (ew_poll w) p = Some c" "ch_index c = kDeleted" by blast
  then show "\<exists>w. example_channel p now ps = Inr w \<and> (ew_read w, ew_write w, ew_close w, ew_error w) = (1, 1, 1, 1)" by blast
  show "example_channel_exit p now ps = Inl AssertionFailed"
    using w by (cases "IsNoneEvent c") (simp_all add: example_channel_exit_def on_poll_def Channel_dtor_def with_channel_def kDeleted_def)
qed

theorem channel_examples_witness:
  "(\<exists>w. example_poller 1 5 0 (\<lambda>_. [(POLLIN, 1)]) EpollPoller_ctor = Inr (1, w) \<and> ew_read w = 1)
   \<and> example_channel_exit 1 0 EpollPoller_ctor = Inl AssertionFailed"
proof -
  have "m_channels (EpollPoller_ctor :: count_cb poll_state) = Map.empty" by (simp add: EpollPoller_ctor_def)
  then have "m_channels (EpollPoller_ctor :: count_cb poll_state) fd = None" for fd by simp
  from channel_examples [OF this _ _ this, of 5 "\<lambda>_. [(POLLIN, 1)]" 1 0] show ?thesis by auto
qed

definition request_bytes :: "byte list" where
  "request_bytes = str_bytes (request_line @ crlf @ host_line @ crlf @ crlf)"

lemma request_facts:
  "length request_bytes = 35" "takeWhile (\<lambda>y. y \<noteq> kLF) request_bytes = str_bytes request_line @ [kCR]"
  "request_bytes ! 14 = kCR" "take 14 request_bytes = str_bytes request_line" "length (str_bytes request_line) = 14"
  "length (str_bytes (request_line @ crlf)) = 16" "length (str_bytes (host_line @ crlf @ crlf)) = 19"
  "str_bytes (request_line @ crlf) @ str_bytes (host_line @ crlf @ crlf) = request_bytes"
  by code_simp+

lemma example_buffer_prints:
  "example_buffer e = Inr (35, request_bytes, Some (str_bytes request_line), 39,
     ''00000023'' @ concat (map (\<lambda>x. setw2_fill0 (hex_out (unat x))) request_bytes))"
proof -
  have "kInitialSize + 8 \<le> vec_max" by (simp add: kInitialSize_def vec_max_def)
  then obtain b0 where b0: "Buffer_default = Inr b0" "buf_wf b0" "content b0 = []" "m_reader_index b0 = 8" "m_writer_index b0 = 8"
    "length (m_data b0) = 1032"
    unfolding Buffer_default_def by (rule Buffer_ctor_wf) (simp add: kInitialSize_def)
  have "length (str_bytes (request_line @ crlf)) \<le> WritableBytes b0" using b0 by (simp add: request_facts)
  from Append_room [OF b0(2) this] obtain b1 where b1: "Buffer_Append b0 (str_bytes (request_line @ crlf)) = Inr b1" "buf_wf b1"
    "content b1 = content b0 @ str_bytes (request_line @ crlf)" "m_reader_index b1 = m_reader_index b0"
    "m_writer_index b1 = m_writer_index b0 + length (str_bytes (request_line @ crlf))" "length (m_data b1) = length (m_data b0)" .
  have "length (str_bytes (host_line @ crlf @ crlf)) \<le> WritableBytes b1" using b0 b1 by (simp add: request_facts)
  from Append_room [OF b1(2) this] obtain b where b: "Buffer_Append b1 (str_bytes (host_line @ crlf @ crlf)) = Inr b" "buf_wf b"
    "content b = content b1 @ str_bytes (host_line @ crlf @ crlf)" "m_reader_index b = m_reader_index b1" .
  have c: "content b = request_bytes" "m_reader_index b = 8"
    using b(3,4) b1(3,4) b0(3,4) request_facts(8) by simp_all
  have rd: "ReadableBytes b = 35" using b(2) c(1) request_facts(1) by (simp add: ReadableBytes_content del: length_content ReadableBytes_wf)
  have find: "FindCRLF b = Inr 22" using FindCRLF_eq [OF b(2)] c by (simp add: request_facts)
  have line: "mem_read (m_data b) 8 14 = Inr (str_bytes request_line)"
    using mem_read_content [OF b(2), of 14] c by (simp add: request_facts ReaderBegin_def)
  have int: "obj_bytes e (ToNetwork e (35 :: 32 word)) = [0, 0, 0, 35]"
  proof -
    have "obj_bytes e (ToNetwork e (35 :: 32 word)) = be_bytes (35 :: 32 word)" by (rule obj_bytes_ToNetwork) simp
    also have "be_bytes (35 :: 32 word) = [0, 0, 0, 35]" by code_simp
    finally show ?thesis .
  qed
  from Buffer_Prepend_in_place [OF b(2), of "[0, 0, 0, 35]"] c obtain b2 where b2: "Buffer_Prepend b [0, 0, 0, 35] = Inr b2" "buf_wf b2"
    "content b2 = [0, 0, 0, 35] @ request_bytes" by auto
  have "ReadableBytes b2 = 39" using b2(2,3) request_facts(1) by (simp add: ReadableBytes_content del: length_content ReadableBytes_wf)
  moreover have "ToHexString b2 = Inr (''00000023'' @ concat (map (\<lambda>x. setw2_fill0 (hex_out (unat x))) request_bytes))"
    using b2(2,3) by (simp add: ToHexString_def setw2_fill0_def hex_out_def hex_digit_def)
  ultimately show ?thesis
    unfolding example_buffer_def Buffer_Append_string_def b0(1) rbind_Inr b1(1) b(1) ToStringView_wf [OF b(2)] find rd
      ReaderBegin_def PrependInt32_def Let_def c
    using line int b2(1) by simp
qed

text \<open>
  \<open>example_thread_pool.cpp\<close>: in every interleaving of \<open>main\<close> with the four workers and the notifications, when \<open>Wait\<close> returns all twenty tasks have run to
  their end, each once, so that the counter is 20.
\<close>

theorem example_thread_pool_counts:
  assumes "ev_path pool_step (ThreadPool_ctor 4) (es @ [PWaited]) s" and "main_calls es = example_thread_pool"
  shows "length (finished s) = 20 \<and> mset (finished s) = mset [0..<20]"
proof -
  from assms(1) obtain s1 where s1: "ev_path pool_step (ThreadPool_ctor 4) es s1" "pool_step s1 PWaited s"
    by (cases rule: ev_path.cases) auto
  from s1(2) have w: "\<forall>w \<in> set (workers s1). w = WExited" "s = Wait_done s1" by (cases; simp)+
  have "submitted es = [0..<20]" using submitted_main_calls [of es] example_tasks(1) assms(2) by simp
  then have "accepted s1 = [0..<20]" using pool_path_accepts [OF s1(1)] by (simp add: ThreadPool_ctor_def)
  moreover have "length (workers s1) = 4"
    using pool_path_workers [OF s1(1)] spawns_main_calls [of es] example_tasks(2) assms(2) by (simp add: ThreadPool_ctor_def)
  ultimately have "mset (finished s1) = mset [0..<20]"
    using all_exited_finished [OF pool_reachable_inv [OF s1(1)] _ w(1)] by fastforce
  then show ?thesis using mset_eq_length [of "finished s1" "[0..<20]"] w(2) by (simp add: Wait_done_def)
qed

text \<open>One schedule: the first worker runs everything.\<close>

fun pool_next :: "'t pool_ev \<Rightarrow> 't pool \<Rightarrow> 't pool option" where
  "pool_next (PSubmit task b) s = (case Submit task s of (b', s') \<Rightarrow> if b = b' then Some s' else None)"
| "pool_next PStart s = Some (Start_flag s)"
| "pool_next PSpawn s = (if m_started s \<and> length (workers s) < m_thread_count s then Some (Start_thread s) else None)"
| "pool_next PStop s = Some (Stop_flag s)"
| "pool_next PNotify s =
     (if 0 < notify_alls s then Some (s\<lparr>notify_alls := notify_alls s - 1, workers := map wake (workers s)\<rparr>) else None)"
| "pool_next (PWorker i) s =
     (if i < length (workers s)
      then (case workers s ! i of WReady \<Rightarrow> Some (worker_check i s) | WRunning t \<Rightarrow> Some (worker_finish i t s) | _ \<Rightarrow> None)
      else None)"
| "pool_next PWaited s = (if list_all (\<lambda>w. case w of WExited \<Rightarrow> True | _ \<Rightarrow> False) (workers s) then Some (Wait_done s) else None)"

fun pool_run :: "'t pool_ev list \<Rightarrow> 't pool \<Rightarrow> 't pool option" where
  "pool_run [] s = Some s"
| "pool_run (e # es) s = (case pool_next e s of None \<Rightarrow> None | Some s' \<Rightarrow> pool_run es s')"

lemma pool_next_step:
  assumes "pool_next e s = Some s'"
  shows "pool_step s e s'"
proof (cases e)
  case PWaited
  have "(case w of WExited \<Rightarrow> True | _ \<Rightarrow> False) \<longleftrightarrow> w = WExited" for w :: "'a worker" by (cases w) simp_all
  then show ?thesis using assms PWaited p_waited [of s] by (auto simp: list_all_iff split: if_splits)
qed (use assms in \<open>auto split: prod.splits if_splits worker.splits intro: pool_step.intros simp del: One_nat_def\<close>)

lemma pool_run_path: "pool_run es s = Some s' \<Longrightarrow> ev_path pool_step s es s'"
proof (induction es arbitrary: s)
  case (Cons e es)
  then obtain s1 where "pool_next e s = Some s1" "pool_run es s1 = Some s'" by (auto split: option.splits)
  then show ?case using Cons.IH pool_next_step by (blast intro: ev_path_Cons)
qed (simp add: ev_nil)

definition one_schedule :: "nat pool_ev list" where
  "one_schedule = example_thread_pool @ [PNotify] @ replicate 41 (PWorker 0) @ [PWorker 1, PWorker 2, PWorker 3]"

theorem example_thread_pool_counts_witness:
  "\<exists>s. pool_run (one_schedule @ [PWaited]) (ThreadPool_ctor 4) = Some s \<and> length (finished s) = 20"
proof -
  have m: "main_calls one_schedule = example_thread_pool" by code_simp
  have "pool_run (one_schedule @ [PWaited]) (ThreadPool_ctor 4) \<noteq> None" by code_simp
  then obtain s where s: "pool_run (one_schedule @ [PWaited]) (ThreadPool_ctor 4) = Some s" by blast
  then show ?thesis using example_thread_pool_counts [OF pool_run_path [OF s] m] by blast
qed

section \<open>The socket and logger examples\<close>

lemma dtor_closes:
  assumes "socks w p = Some fd" and "0 \<le> fd"
  shows "Socket_dtor p w = Inr (w\<lparr>socks := (socks w)(p := None), open_fds := open_fds w - {fd}, close_calls := close_calls w @ [fd]\<rparr>)"
  using assms by (simp add: Socket_dtor_def Socket_Close_def with_socket_def Socket_IsValid_def sys_close_def set_fd_def)

lemma dtor_invalid: "socks w p = Some fd \<Longrightarrow> fd < 0 \<Longrightarrow> Socket_dtor p w = Inr (w\<lparr>socks := (socks w)(p := None)\<rparr>)"
  by (simp add: Socket_dtor_def Socket_Close_def with_socket_def Socket_IsValid_def)

lemma Accept_returns:
  "\<exists>peer. Socket_Accept e fd accept4 =
     Inr (if Socket_IsValid fd then (case accept4 of None \<Rightarrow> kInvalidFd | Some (c, _) \<Rightarrow> c) else kInvalidFd, peer)"
proof (cases accept4)
  case None
  then show ?thesis by (simp add: Socket_Accept_def)
next
  case (Some a)
  obtain c bs where a: "a = (c, bs)" by fastforce
  have "\<exists>x. InetAddress_sockaddr e (Some bs) (length bs) = Inr x" by (simp add: InetAddress_sockaddr_def Let_def)
  then show ?thesis using Some a by (auto simp: Socket_Accept_def)
qed

text \<open>
  \<open>example_socket.cpp\<close> returns on every outcome of its system calls, exits with 0 exactly if the socket could be created, bound and made
  listen, and leaves no descriptor open: neither the listening socket, closed by its destructor on every path, nor the accepted connection.
\<close>

theorem example_socket_no_leak:
  assumes "socket AF_INET (SOCK_STREAM OR SOCK_NONBLOCK OR SOCK_CLOEXEC) IPPROTO_TCP = fd" and "fd < 0 \<or> fd \<notin> open_fds w"
    and "\<And>c addr. accept4 = Some (c, addr) \<Longrightarrow> c \<notin> open_fds w \<and> c \<noteq> fd"
  shows "\<exists>code conn opts w'. example_socket e socket opt_ok bind_ok listen_ok accept4 p w = Inr (code, conn, opts, w')
    \<and> (code = 0 \<longleftrightarrow> 0 \<le> fd \<and> bind_ok \<and> listen_ok) \<and> open_fds w' = open_fds w"
proof (cases "fd < 0")
  case True
  let ?w = "Socket_ctor p kInvalidFd w"
  have "CreateTcp socket AF_INET p w = ?w" using True assms(1) by (simp add: CreateTcp_def Socket_create_def)
  then show ?thesis
    using True dtor_invalid [of ?w p kInvalidFd]
    by (simp add: example_socket_def Let_def with_socket_def Socket_ctor_def kInvalidFd_def Socket_IsValid_def set_fd_def)
next
  case False
  define w1 where "w1 = Socket_ctor p fd (w\<lparr>open_fds := insert fd (open_fds w)\<rparr>)"
  have w1: "CreateTcp socket AF_INET p w = w1" "socks w1 p = Some fd" "open_fds w1 - {fd} = open_fds w"
    using False assms(1,2) by (auto simp: CreateTcp_def Socket_create_def w1_def Socket_ctor_def)
  have dtor: "\<exists>w2. Socket_dtor p w1 = Inr w2 \<and> open_fds w2 = open_fds w"
    using dtor_closes [OF w1(2)] False w1(3) by simp
  obtain peer where acc: "Socket_Accept e fd accept4 = Inr (case accept4 of None \<Rightarrow> kInvalidFd | Some (c, _) \<Rightarrow> c, peer)"
    using Accept_returns [of e fd accept4] False by (auto simp: Socket_IsValid_def)
  define w3 where "w3 c = snd (sys_close c (w1\<lparr>open_fds := insert c (open_fds w1)\<rparr>))" for c
  have dtor3: "\<exists>w2. Socket_dtor p (w3 c) = Inr w2 \<and> open_fds w2 = open_fds w" if "accept4 = Some (c, addr)" for c addr
    using dtor_closes [of "w3 c" p fd] False w1 assms(3) [OF that] by (auto simp: w3_def sys_close_def)
  show ?thesis
  proof (cases "bind_ok \<and> listen_ok")
    case ok: True
    let ?c = "case accept4 of None \<Rightarrow> kInvalidFd | Some (c, _) \<Rightarrow> c"
    have run: "example_socket e socket opt_ok bind_ok listen_ok accept4 p w =
        rmap (\<lambda>w. (0, if ?c \<ge> 0 then Some ?c else None, set_options fd opt_ok Map.empty, w))
          (Socket_dtor p (if ?c \<ge> 0 then w3 ?c else w1))"
      using False ok w1(1,2) acc
      by (simp add: example_socket_def Let_def with_socket_def Socket_IsValid_def Socket_Bind_def Socket_Listen_def w3_def)
    have "\<exists>w2. Socket_dtor p (if ?c \<ge> 0 then w3 ?c else w1) = Inr w2 \<and> open_fds w2 = open_fds w"
      using dtor dtor3 by (cases accept4) (auto simp: kInvalidFd_def)
    then obtain w2 where "Socket_dtor p (if ?c \<ge> 0 then w3 ?c else w1) = Inr w2" "open_fds w2 = open_fds w" by blast
    then show ?thesis using run False ok by simp
  qed (use False w1 dtor in \<open>auto simp: example_socket_def Let_def with_socket_def Socket_IsValid_def Socket_Bind_def Socket_Listen_def\<close>)
qed

theorem example_socket_no_leak_witness:
  "\<exists>code conn opts w'. example_socket Little (\<lambda>_ _ _. 3) (\<lambda>_. True) True True (Some (4, [2, 0])) 0 sock_init = Inr (code, conn, opts, w')
     \<and> code = 0 \<and> open_fds w' = {}"
  using example_socket_no_leak [of "\<lambda>_ _ _. 3" 3 sock_init "Some (4, [2, 0])" Little "\<lambda>_. True" True True 0]
  by (auto simp: sock_init_def)

lemma log_now_prints:
  assumes "lg_waiting s = []" and "lg_appenders s = [Console]" and "fst m \<ge> lg_level s" and "fst m \<noteq> kOff"
  shows "log_now now tid loc m s = s\<lparr>lg_cout := ConsoleAppender_Append (lg_formatter s (LogEvent_ctor now tid (fst m) (snd m) loc)) (lg_cout s)\<rparr>"
  using assms by (simp add: log_now_def LOG_macro_def Log_enter_def IsLevelEnabled_def Log_locked_def Let_def)

text \<open>\<open>example_logger.cpp\<close> prints its five messages, the debug message too, in order, one line each.\<close>

lemma example_logger_prints:
  "stream_text (lg_cout (example_logger now tid loc (Logger_ctor fmt cout))) =
     stream_text cout @ concat (map (\<lambda>(i, level, msg). fmt (LogEvent_ctor (now i) tid level msg (loc i)) @ newline)
       [(0, kDebug, ''debug message''), (1, kInfo, ''info message''), (2, kWarn, ''warn message''), (3, kError, ''error message''),
        (4, kInfo, ''formatted: 42 hello'')])"
  by (simp add: example_logger_def Logger_ctor_def SetLevel_def log_now_prints less_eq_log_level_def ConsoleAppender_Append_def
      stream_text_def stream_put_def)

section \<open>Addresses\<close>

text \<open>\<open>example_inet_address.cpp\<close>: the lines printed.\<close>

definition example_inet_address ::
  "endian \<Rightarrow> (sa_family \<Rightarrow> string \<Rightarrow> byte list option) \<Rightarrow> (sa_family \<Rightarrow> byte list \<Rightarrow> string) \<Rightarrow> string list" where
  "example_inet_address e inet_pton inet_ntop =
     [''any:      '' @ ToIpPort e inet_ntop (InetAddress_port e 8080 False AF_INET),
      ''loopback: '' @ ToIpPort e inet_ntop (InetAddress_port e 8080 True AF_INET),
      ''ipv4:     '' @ ToIpPort e inet_ntop (InetAddress_ip e inet_pton ''192.168.1.1'' 8080 AF_INET),
      ''ipv6:     '' @ ToIpPort e inet_ntop (InetAddress_port e 8080 True AF_INET6)]"

lemma loopback_bytes: "obj_bytes e (ToNetwork e INADDR_LOOPBACK) = [127, 0, 0, 1]"
proof -
  have "obj_bytes e (ToNetwork e INADDR_LOOPBACK) = be_bytes INADDR_LOOPBACK" by (simp add: obj_bytes_ToNetwork)
  then show ?thesis by (simp add: be_bytes_def le_bytes_numeral INADDR_LOOPBACK_def)
qed

lemma any_bytes: "peek 4 4 (ia_addr (ResetToAny e AF_INET)) = [0, 0, 0, 0]"
  by (simp add: ResetToAny_def Let_def sockaddr_sizes)

lemma port_text:
  "ToIpPort e ntop (InetAddress_port e port lb AF_INET) =
     ntop AF_INET (if lb then [127, 0, 0, 1] else [0, 0, 0, 0]) @ '':'' @ nat_digits (unat port)"
  "ToIpPort e ntop (InetAddress_port e port True AF_INET6) =
     ''['' @ ntop AF_INET6 in6addr_loopback @ '']:'' @ nat_digits (unat port)"
  by (simp_all add: ToIpPort_def ToIp_def Port_def Family_def InetAddress_port_def Let_def set_bytes_def ss_family_later
      ResetToAny_facts port_bytes loopback_bytes any_bytes in6addr_loopback_def)

lemma ip_text:
  assumes "inet_pton AF_INET ip = Some bs" and "length bs = 4"
  shows "ToIpPort e ntop (InetAddress_ip e inet_pton ip port AF_INET) = ntop AF_INET bs @ '':'' @ nat_digits (unat port)"
  using assms
  by (simp add: ToIpPort_def ToIp_def Port_def Family_def InetAddress_ip_def Let_def set_bytes_def ss_family_later
      ResetToAny_facts port_bytes)

text \<open>On a host of either byte order the example prints the wildcard, the IPv4 loopback, the given and the IPv6 loopback address.\<close>

lemma example_inet_address_prints:
  assumes "inet_pton AF_INET ''192.168.1.1'' = Some [192, 168, 1, 1]"
  shows "example_inet_address e inet_pton inet_ntop =
    [''any:      '' @ inet_ntop AF_INET [0, 0, 0, 0] @ '':'' @ nat_digits 8080,
     ''loopback: '' @ inet_ntop AF_INET [127, 0, 0, 1] @ '':'' @ nat_digits 8080,
     ''ipv4:     '' @ inet_ntop AF_INET [192, 168, 1, 1] @ '':'' @ nat_digits 8080,
     ''ipv6:     '' @ ''['' @ inet_ntop AF_INET6 in6addr_loopback @ '']:'' @ nat_digits 8080]"
  using assms by (simp add: example_inet_address_def port_text ip_text)

end
