(* ===== verification/Timer_Example.thy ===== *)
theory Timer_Example
  imports Loop_Object
begin

text \<open>
  The program \<open>examples/example_timer_queue.cpp\<close> from its first to its last line, on the event loop with its poller and its
  timer queue: a one-shot timer, a periodic timer and a third one that cancels the periodic timer and quits the loop. What it
  prints does not depend on when the loop gets to run. Clock readings and what \<open>epoll_wait\<close> reports are arguments.
\<close>

section \<open>The program\<close>

text \<open>The three lambdas; the last one has captured the id of the periodic timer. \<open>tw_counter\<close> is the variable \<open>counter\<close>, an
  \<open>int\<close>, \<open>tw_out\<close> the lines printed, \<open>tw_quit\<close> the member \<open>m_quit\<close> of the loop, which only the last lambda sets.\<close>

datatype timer_lambda = OneShot | Tick | Stopper int

datatype timer_line = FiredLine int | StoppingLine int

record timer_world =
  tw_counter :: int
  tw_out :: "timer_line list"
  tw_quit :: bool

text \<open>\<open>cancel_now\<close> is the clock as \<open>Cancel\<close> reads it when it arms the timerfd.\<close>

definition timer_lambda_call :: "int \<Rightarrow> timer_lambda \<Rightarrow> timer_world \<Rightarrow> timer_lambda timer_queue \<Rightarrow>
    (timer_world \<times> timer_lambda timer_queue) res" where
  "timer_lambda_call cancel_now cb w q =
     (case cb of
        OneShot \<Rightarrow> Inr (w\<lparr>tw_out := tw_out w @ [FiredLine (tw_counter w)]\<rparr>, q)
      | Tick \<Rightarrow> Inr (w\<lparr>tw_counter := tw_counter w + 1\<rparr>, q)
      | Stopper repeating \<Rightarrow>
          rmap (\<lambda>(_, q'). (w\<lparr>tw_out := tw_out w @ [StoppingLine (tw_counter w)], tw_quit := True\<rparr>, q'))
            (Cancel cancel_now repeating q))"

text \<open>What the outside does in one round: the clock as \<open>NextTimeout\<close>, \<open>HandleRead\<close>, \<open>SetTimerFd\<close> and \<open>Cancel\<close> read it and the
  time \<open>Poll\<close> returns, and whether the timerfd was reported readable. Nobody writes the eventfd in this program.\<close>

record poll_round =
  rd_timeout_now :: int
  rd_ready :: bool
  rd_time :: int
  rd_now :: int
  rd_rearm_now :: int
  rd_cancel_now :: int

type_synonym timer_loop = "(unit, timer_lambda, timer_world) loop_obj"

text \<open>The rounds of \<open>EventLoop::Loop\<close>, called once and in the thread that made the loop, so that its checks at entry hold. No functor is ever queued, so \<open>DoPendingFunctors\<close> does nothing. The first component of the
  result says whether the loop was left; with the rounds used up, it is still running.\<close>

definition timer_loop_round :: "chan_ptr \<Rightarrow> poll_round \<Rightarrow> timer_loop \<Rightarrow> timer_loop res" where
  "timer_loop_round pt r lo =
     rbind (EventLoop_NextTimeout (rd_timeout_now r) lo) (\<lambda>_.
       Loop_round (\<lambda>_ _. True)
         (loop_call (timer_lambda_call (rd_cancel_now r)) (rd_now r) (rd_rearm_now r) (\<lambda>_ _. Inr))
         (\<lambda>_. if rd_ready r then [(POLLIN, pt)] else []) (rd_time r) lo)"

fun timer_loop_run :: "chan_ptr \<Rightarrow> poll_round list \<Rightarrow> timer_loop \<Rightarrow> (bool \<times> timer_loop) res" where
  "timer_loop_run pt [] lo = Inr (False, lo)"
| "timer_loop_run pt (r # rs) lo =
     rbind (if \<not> tw_quit (lo_user lo) then timer_loop_round pt r lo else Inr lo) (\<lambda>lo.
       if tw_quit (lo_user lo) then Inr (True, lo) else timer_loop_run pt rs lo)"

text \<open>\<open>main\<close>. The two readings of the clock in each of the calls that start a timer are \<open>a\<close>, \<open>a'\<close> and so on. When the loop is left,
  it is destroyed at the end of \<open>main\<close>.\<close>

definition start_timers :: "int \<Rightarrow> int \<Rightarrow> int \<Rightarrow> int \<Rightarrow> int \<Rightarrow> int \<Rightarrow> timer_loop \<Rightarrow> timer_loop res" where
  "start_timers a a' b b' c c' lo =
     rbind (EventLoop_RunAfter a a' 100 (Some OneShot) lo) (\<lambda>(_, lo).
     rbind (EventLoop_RunEvery b b' 50 (Some Tick) lo) (\<lambda>(repeating, lo).
     rbind (EventLoop_RunAfter c c' 300 (Some (Stopper repeating)) lo) (\<lambda>(_, lo).
       Inr lo)))"

definition example_timer_queue ::
  "chan_ptr \<Rightarrow> int \<Rightarrow> chan_ptr \<Rightarrow> int \<Rightarrow> int \<Rightarrow> int \<Rightarrow> int \<Rightarrow> int \<Rightarrow> int \<Rightarrow> int \<Rightarrow> poll_round list \<Rightarrow> (bool \<times> timer_loop) res" where
  "example_timer_queue pw wakeup_fd pt timer_fd a a' b b' c c' rs =
     rbind (EventLoop_ctor pw wakeup_fd pt timer_fd \<lparr>tw_counter = 0, tw_out = [], tw_quit = False\<rparr>) (\<lambda>lo.
     rbind (start_timers a a' b b' c c' lo) (\<lambda>lo.
     rbind (timer_loop_run pt rs lo) (\<lambda>(left, lo).
       if left then rmap (Pair True) (EventLoop_dtor lo) else Inr (False, lo))))"

section \<open>The nine states of the timers\<close>

text \<open>Between two firings the queue and the variables are in one of nine states, numbered by the firings so far: the periodic
  timer fires once, then the one-shot timer, then the periodic one five more times, then the last one. \<open>a\<close>, \<open>b\<close> and \<open>c\<close> are the times
  at which the timers were started.\<close>

definition tick_time :: "int \<Rightarrow> nat \<Rightarrow> int" where
  "tick_time b n = b + (if n < 2 then int n + 1 else int n) * (50 * ns_per_ms)"

definition stage_active :: "int \<Rightarrow> int \<Rightarrow> int \<Rightarrow> nat \<Rightarrow> (int \<times> int) list" where
  "stage_active a b c n =
     (let one = (a + 100 * ns_per_ms, 1); tick = (tick_time b n, 2); stop = (c + 300 * ns_per_ms, 3)
      in if n = 0 then [tick, one, stop] else if n = 1 then [one, tick, stop]
         else if n < 7 then [tick, stop] else if n = 7 then [stop, tick] else [])"

definition stage_timers :: "int \<Rightarrow> int \<Rightarrow> int \<Rightarrow> nat \<Rightarrow> int \<rightharpoonup> timer_lambda timer_entry" where
  "stage_timers a b c n =
     (if n < 8 then
        [2 \<mapsto> \<lparr>entry_id = 2, expiration = tick_time b n, interval = 50, callback = Some Tick\<rparr>,
         3 \<mapsto> \<lparr>entry_id = 3, expiration = c + 300 * ns_per_ms, interval = 0, callback = Some (Stopper 2)\<rparr>]
        (1 := if n < 2 then Some \<lparr>entry_id = 1, expiration = a + 100 * ns_per_ms, interval = 0, callback = Some OneShot\<rparr> else None)
      else Map.empty)"

definition stage_world :: "nat \<Rightarrow> timer_world" where
  "stage_world n = \<lparr>tw_counter = (if n < 2 then int n else if n < 8 then int n - 1 else 6),
     tw_out = (if n < 2 then [] else if n < 8 then [FiredLine 1] else [FiredLine 1, StoppingLine 6]), tw_quit = (n = 8)\<rparr>"

definition at_stage :: "int \<Rightarrow> int \<Rightarrow> int \<Rightarrow> int \<Rightarrow> nat \<Rightarrow> timer_world \<Rightarrow> timer_lambda timer_queue \<Rightarrow> bool" where
  "at_stage fd a b c n w q \<longleftrightarrow> n \<le> 8 \<and> m_timer_fd q = fd \<and> m_timers q = stage_timers a b c n
     \<and> m_active_timers q = stage_active a b c n \<and> w = stage_world n"

text \<open>The program starts its timers within 50 milliseconds of each other.\<close>

definition started_close :: "int \<Rightarrow> int \<Rightarrow> int \<Rightarrow> bool" where
  "started_close a b c \<longleftrightarrow> 0 \<le> a \<and> a \<le> b \<and> b < a + 50 * ns_per_ms \<and> b \<le> c \<and> c < b + 50 * ns_per_ms \<and> c < 2 ^ 62"

definition clock_ok :: "int \<Rightarrow> bool" where
  "clock_ok t \<longleftrightarrow> 0 \<le> t \<and> t < 2 ^ 62"

lemmas stage_defs = at_stage_def stage_active_def stage_timers_def stage_world_def tick_time_def Let_def

lemmas firing_simps = fire_timer_def timer_lambda_call_def set_emplace_def insort_insert_key_def
  less_eq_prod_def time_add_ms_def i64_def int64_ok_def

lemma stage_fired:
  assumes "at_stage fd a b c n w q" and "stage_active a b c n = (t, tid) # rest" and "t \<le> now"
    and "stage_timers a b c n tid = Some e" and "n' \<le> 8"
    and "fire_timer call tid e w (q\<lparr>m_active_timers := rest\<rparr>) =
      Inr (stage_world n', q\<lparr>m_active_timers := stage_active a b c n', m_timers := stage_timers a b c n', timer_spec := sp\<rparr>)"
  shows "\<exists>w' q'. at_stage fd a b c n' w' q' \<and> process_loop call now w q = process_loop call now w' q'"
proof -
  let ?q = "q\<lparr>m_active_timers := stage_active a b c n', m_timers := stage_timers a b c n', timer_spec := sp\<rparr>"
  have "process_loop call now w q = process_loop call now (stage_world n') ?q"
    using assms(1-4,6) by (intro process_loop_step) (auto simp: at_stage_def)
  moreover have "at_stage fd a b c n' (stage_world n') ?q"
    using assms(1,5) by (simp add: at_stage_def)
  ultimately show ?thesis by blast
qed

text \<open>The firings, one by one: a tick, the one-shot timer, five more ticks, the timer that stops the program.\<close>

lemma first_tick:
  assumes "started_close a b c" and "at_stage fd a b c 0 w q" and "tick_time b 0 \<le> now"
  shows "\<exists>w' q'. at_stage fd a b c 1 w' q' \<and>
    process_loop (timer_lambda_call cn) now w q = process_loop (timer_lambda_call cn) now w' q'"
proof (rule stage_fired [OF assms(2) _ assms(3)])
  show "fire_timer (timer_lambda_call cn) 2 \<lparr>entry_id = 2, expiration = tick_time b 0, interval = 50, callback = Some Tick\<rparr> w
      (q\<lparr>m_active_timers := [(a + 100 * ns_per_ms, 1), (c + 300 * ns_per_ms, 3)]\<rparr>) =
      Inr (stage_world 1, q\<lparr>m_active_timers := stage_active a b c 1, m_timers := stage_timers a b c 1, timer_spec := timer_spec q\<rparr>)"
    using assms(1,2) by (auto simp: stage_defs firing_simps started_close_def fun_eq_iff)
qed (simp_all add: stage_active_def stage_timers_def)

lemma one_shot_fires:
  assumes "started_close a b c" and "at_stage fd a b c 1 w q" and "a + 100 * ns_per_ms \<le> now"
  shows "\<exists>w' q'. at_stage fd a b c 2 w' q' \<and>
    process_loop (timer_lambda_call cn) now w q = process_loop (timer_lambda_call cn) now w' q'"
proof (rule stage_fired [OF assms(2) _ assms(3)])
  show "fire_timer (timer_lambda_call cn) 1 \<lparr>entry_id = 1, expiration = a + 100 * ns_per_ms, interval = 0, callback = Some OneShot\<rparr> w
      (q\<lparr>m_active_timers := [(tick_time b 1, 2), (c + 300 * ns_per_ms, 3)]\<rparr>) =
      Inr (stage_world 2, q\<lparr>m_active_timers := stage_active a b c 2, m_timers := stage_timers a b c 2, timer_spec := timer_spec q\<rparr>)"
    using assms(1,2) by (auto simp: stage_defs firing_simps fun_eq_iff)
qed (simp_all add: stage_active_def stage_timers_def)

lemma tick_again:
  assumes "started_close a b c" and "at_stage fd a b c n w q" and "2 \<le> n" and "n < 7" and "tick_time b n \<le> now"
  shows "\<exists>w' q'. at_stage fd a b c (Suc n) w' q' \<and>
    process_loop (timer_lambda_call cn) now w q = process_loop (timer_lambda_call cn) now w' q'"
proof (rule stage_fired [OF assms(2) _ assms(5)])
  have n: "n \<in> {2, 3, 4, 5, 6}" using assms(3,4) by auto
  show "fire_timer (timer_lambda_call cn) 2 \<lparr>entry_id = 2, expiration = tick_time b n, interval = 50, callback = Some Tick\<rparr> w
      (q\<lparr>m_active_timers := [(c + 300 * ns_per_ms, 3)]\<rparr>) =
      Inr (stage_world (Suc n), q\<lparr>m_active_timers := stage_active a b c (Suc n), m_timers := stage_timers a b c (Suc n),
        timer_spec := timer_spec q\<rparr>)"
    using assms(1,2) n by (auto simp: stage_defs firing_simps started_close_def fun_eq_iff)
qed (use assms(3,4) in \<open>simp_all add: stage_active_def stage_timers_def\<close>)

lemma stopper_fires:
  assumes "0 \<le> fd" and "at_stage fd a b c 7 w q" and "c + 300 * ns_per_ms \<le> now"
  shows "\<exists>w' q'. at_stage fd a b c 8 w' q' \<and>
    process_loop (timer_lambda_call cn) now w q = process_loop (timer_lambda_call cn) now w' q'"
proof (rule stage_fired [OF assms(2) _ assms(3)])
  show "fire_timer (timer_lambda_call cn) 3
      \<lparr>entry_id = 3, expiration = c + 300 * ns_per_ms, interval = 0, callback = Some (Stopper 2)\<rparr> w
      (q\<lparr>m_active_timers := [(tick_time b 7, 2)]\<rparr>) =
      Inr (stage_world 8, q\<lparr>m_active_timers := stage_active a b c 8, m_timers := stage_timers a b c 8, timer_spec := (0, 0)\<rparr>)"
    using assms(1,2) by (auto simp: stage_defs firing_simps Cancel_def rearm_or_disarm_def set_erase_def fun_eq_iff)
qed (simp_all add: stage_active_def stage_timers_def)

lemma stage_step:
  assumes "started_close a b c" and "0 \<le> fd" and "at_stage fd a b c n w q" and "n < 8"
    and "fst (hd (stage_active a b c n)) \<le> now"
  shows "\<exists>w' q'. at_stage fd a b c (Suc n) w' q' \<and>
    process_loop (timer_lambda_call cn) now w q = process_loop (timer_lambda_call cn) now w' q'"
proof -
  consider "n = 0" | "n = 1" | "2 \<le> n" "n < 7" | "n = 7" using assms(4) by linarith
  then show ?thesis
  proof cases
    case 1
    then show ?thesis using first_tick [OF assms(1)] assms(3,5) by (simp add: stage_active_def)
  next
    case 2
    then show ?thesis
      using one_shot_fires [OF assms(1)] assms(3,5) by (simp add: stage_active_def numeral_2_eq_2 [symmetric])
  next
    case 3
    then show ?thesis using tick_again [OF assms(1,3)] assms(5) by (simp add: stage_active_def)
  next
    case 4
    then show ?thesis using stopper_fires [OF assms(2)] assms(3,5) by (simp add: stage_active_def)
  qed
qed

lemma stage_due_le: "started_close a b c \<Longrightarrow> n < 8 \<Longrightarrow> fst (hd (stage_active a b c n)) \<le> c + 300 * ns_per_ms"
  by (auto simp: stage_active_def tick_time_def started_close_def Let_def)

lemma stages_run:
  assumes "started_close a b c" and "0 \<le> fd" and "at_stage fd a b c n w q"
  shows "\<exists>m w' q'. process_loop (timer_lambda_call cn) now w q = Some (Inr (w', q')) \<and> at_stage fd a b c m w' q'
    \<and> (m = 8 \<longleftrightarrow> n = 8 \<or> c + 300 * ns_per_ms \<le> now)"
  using assms(3)
proof (induction "8 - n" arbitrary: n w q)
  case 0
  then have "n = 8" "m_active_timers q = []" by (auto simp: at_stage_def stage_active_def)
  then have "process_loop (timer_lambda_call cn) now w q = Some (Inr (w, q))" by (intro process_loop_done) simp
  then show ?case using 0(2) \<open>n = 8\<close> by blast
next
  case (Suc d)
  then have n: "n < 8" "m_active_timers q = stage_active a b c n" by (auto simp: at_stage_def)
  show ?case
  proof (cases "fst (hd (stage_active a b c n)) \<le> now")
    case True
    from stage_step [OF assms(1,2) Suc.prems n(1) True] obtain w' q' where
      "at_stage fd a b c (Suc n) w' q'" "process_loop (timer_lambda_call cn) now w q = process_loop (timer_lambda_call cn) now w' q'"
      by blast
    moreover have "Suc n = 8 \<longrightarrow> c + 300 * ns_per_ms \<le> now" using True by (auto simp: stage_active_def)
    ultimately show ?thesis using Suc.hyps(1) [of "Suc n" w' q'] Suc.hyps(2) n(1) by auto
  next
    case False
    then have "process_loop (timer_lambda_call cn) now w q = Some (Inr (w, q))"
      using process_loop_done [of q now] n(2) by simp
    moreover have "\<not> c + 300 * ns_per_ms \<le> now" using False stage_due_le [OF assms(1) n(1)] by linarith
    ultimately show ?thesis using Suc.prems n(1) by blast
  qed
qed

text \<open>Times that far from the ends of the range leave room for differences.\<close>

lemma stage_diff_ok:
  assumes "started_close a b c" and "clock_ok now" and "(t, i) \<in> set (stage_active a b c n)" and "n \<le> 8"
  shows "int64_ok (t - now)"
proof -
  have "0 \<le> tick_time b n" "tick_time b n < 2 ^ 62 + 400 * ns_per_ms"
    using assms(1,4) by (auto simp: started_close_def tick_time_def)
  then show ?thesis
    using assms(1-3) by (auto simp: stage_active_def Let_def started_close_def clock_ok_def int64_ok_def split: if_splits)
qed

lemma stage_rearmed:
  assumes "started_close a b c" and "clock_ok now" and "at_stage fd a b c n w q"
  shows "\<exists>q'. rearm_or_disarm now q = Inr q' \<and> at_stage fd a b c n w q'"
proof -
  have "\<exists>q'. rearm_or_disarm now q = Inr q'"
    using stage_diff_ok [OF assms(1,2)] assms(3) by (intro rearm_total) (auto simp: at_stage_def)
  then obtain q' where q': "rearm_or_disarm now q = Inr q'" by blast
  then obtain s where "q' = q\<lparr>timer_spec := s\<rparr>" by (rule rearm_armed)
  then show ?thesis using q' assms(3) by (simp add: at_stage_def)
qed

lemma stage_handled:
  assumes "started_close a b c" and "0 \<le> fd" and "at_stage fd a b c n w q" and "clock_ok now'"
  shows "\<exists>m w' q'. TimerQueue_HandleRead (timer_lambda_call cn) now now' w q = Some (Inr (w', q')) \<and> at_stage fd a b c m w' q'
    \<and> (m = 8 \<longleftrightarrow> n = 8 \<or> c + 300 * ns_per_ms \<le> now)"
proof -
  from stages_run [OF assms(1-3)] obtain m w' q1 where m: "process_loop (timer_lambda_call cn) now w q = Some (Inr (w', q1))"
    "at_stage fd a b c m w' q1" "m = 8 \<longleftrightarrow> n = 8 \<or> c + 300 * ns_per_ms \<le> now" by blast
  from stage_rearmed [OF assms(1,4) m(2)] obtain q' where "rearm_or_disarm now' q1 = Inr q'" "at_stage fd a b c m w' q'" by blast
  moreover have "0 \<le> m_timer_fd q" using assms(2,3) by (simp add: at_stage_def)
  ultimately show ?thesis using HandleRead_process [OF _ m(1)] m(3) by blast
qed

section \<open>The rounds of the loop\<close>

definition loop_at :: "chan_ptr \<Rightarrow> int \<Rightarrow> chan_ptr \<Rightarrow> int \<Rightarrow> int \<Rightarrow> int \<Rightarrow> int \<Rightarrow> nat \<Rightarrow> timer_loop \<Rightarrow> bool" where
  "loop_at pw wakeup_fd pt timer_fd a b c n lo \<longleftrightarrow>
     loop_intact pw wakeup_fd pt timer_fd lo \<and> 0 < m_events_size (lo_poll lo) \<and> lo_closed lo = []
     \<and> watched (lo_poll lo) = [wakeup_fd \<mapsto> (kReadEvent, pw), timer_fd \<mapsto> (kReadEvent, pt)]
     \<and> (\<exists>q. lo_timer lo = Some q \<and> at_stage timer_fd a b c n (lo_user lo) q)"

definition round_clocks_ok :: "poll_round \<Rightarrow> bool" where
  "round_clocks_ok r \<longleftrightarrow> clock_ok (rd_timeout_now r) \<and> clock_ok (rd_rearm_now r)"

lemma NextTimeout_total:
  assumes "\<And>t i. (t, i) \<in> set (m_active_timers q) \<Longrightarrow> int64_ok (t - now)"
  shows "\<exists>d. NextTimeout now q = Inr d"
proof (cases "m_active_timers q")
  case (Cons p r)
  then have "int64_ok (fst p - now)" using assms [of "fst p" "snd p"] by simp
  then show ?thesis using Cons by (cases p) (simp add: NextTimeout_def time_diff_def Let_def)
qed (simp add: NextTimeout_def)

lemma round_at:
  assumes "started_close a b c" and "0 \<le> timer_fd" and "loop_at pw wakeup_fd pt timer_fd a b c n lo" and "round_clocks_ok r"
  shows "\<exists>m lo'. timer_loop_round pt r lo = Inr lo' \<and> loop_at pw wakeup_fd pt timer_fd a b c m lo'
    \<and> (m = 8 \<longleftrightarrow> n = 8 \<or> rd_ready r \<and> c + 300 * ns_per_ms \<le> rd_now r)"
proof -
  from assms(3) obtain q where lo: "loop_intact pw wakeup_fd pt timer_fd lo" "0 < m_events_size (lo_poll lo)" "lo_closed lo = []"
    "watched (lo_poll lo) = [wakeup_fd \<mapsto> (kReadEvent, pw), timer_fd \<mapsto> (kReadEvent, pt)]"
    and q: "lo_timer lo = Some q" "at_stage timer_fd a b c n (lo_user lo) q"
    unfolding loop_at_def by blast
  have "\<exists>d. NextTimeout (rd_timeout_now r) q = Inr d"
    using stage_diff_ok [OF assms(1), of "rd_timeout_now r"] q(2) assms(4)
    by (intro NextTimeout_total) (auto simp: at_stage_def round_clocks_ok_def)
  then have "\<exists>d. EventLoop_NextTimeout (rd_timeout_now r) lo = Inr d" using q(1) by (simp add: EventLoop_NextTimeout_def)
  then obtain d where d: "EventLoop_NextTimeout (rd_timeout_now r) lo = Inr d" by blast
  show ?thesis
  proof (cases "rd_ready r")
    case False
    then show ?thesis using assms(3) d by (auto simp: timer_loop_round_def idle_round)
  next
    case True
    from stage_handled [OF assms(1,2) q(2), of "rd_rearm_now r" "rd_cancel_now r" "rd_now r"] assms(4) obtain m w' q' where
      m: "TimerQueue_HandleRead (timer_lambda_call (rd_cancel_now r)) (rd_now r) (rd_rearm_now r) (lo_user lo) q = Some (Inr (w', q'))"
      "at_stage timer_fd a b c m w' q'" "m = 8 \<longleftrightarrow> n = 8 \<or> c + 300 * ns_per_ms \<le> rd_now r" by (auto simp: round_clocks_ok_def)
    have "m_timer_fd q' = timer_fd" using m(2) by (simp add: at_stage_def)
    with timer_event_round [OF lo(1) assms(2) q(1) m(1) lo(2), of "\<lambda>_. True" "\<lambda>_ _. Inr" "rd_time r"] obtain ps where
      "timer_loop_round pt r lo = Inr (lo\<lparr>lo_poll := ps, lo_user := w', lo_timer := Some q'\<rparr>)"
      "loop_intact pw wakeup_fd pt timer_fd (lo\<lparr>lo_poll := ps, lo_user := w', lo_timer := Some q'\<rparr>)"
      "watched ps = watched (lo_poll lo)" "0 < m_events_size ps"
      using True d by (auto simp: timer_loop_round_def)
    then show ?thesis
      using m(2,3) lo(3,4) True
      by (intro exI [of _ m] exI [of _ "lo\<lparr>lo_poll := ps, lo_user := w', lo_timer := Some q'\<rparr>"]) (simp add: loop_at_def)
  qed
qed

lemma quit_at: "loop_at pw wakeup_fd pt timer_fd a b c n lo \<Longrightarrow> tw_quit (lo_user lo) \<longleftrightarrow> n = 8"
  by (auto simp: loop_at_def at_stage_def stage_world_def)

lemma run_at:
  assumes "started_close a b c" and "0 \<le> timer_fd" and "loop_at pw wakeup_fd pt timer_fd a b c n lo" and "n \<noteq> 8"
    and "\<forall>r \<in> set rs. round_clocks_ok r"
  shows "\<exists>m lo'. timer_loop_run pt rs lo = Inr (m = 8, lo') \<and> loop_at pw wakeup_fd pt timer_fd a b c m lo'
    \<and> (m = 8 \<longleftrightarrow> (\<exists>r \<in> set rs. rd_ready r \<and> c + 300 * ns_per_ms \<le> rd_now r))"
  using assms(3-5)
proof (induction rs arbitrary: n lo)
  case Nil
  then show ?case by auto
next
  case (Cons r rs)
  from round_at [OF assms(1,2) Cons.prems(1), of r] Cons.prems(2,3) obtain m lo1 where m: "timer_loop_round pt r lo = Inr lo1"
    "loop_at pw wakeup_fd pt timer_fd a b c m lo1" "m = 8 \<longleftrightarrow> rd_ready r \<and> c + 300 * ns_per_ms \<le> rd_now r" by auto
  have run: "timer_loop_run pt (r # rs) lo = (if m = 8 then Inr (True, lo1) else timer_loop_run pt rs lo1)"
    using m(1) quit_at [OF Cons.prems(1)] quit_at [OF m(2)] Cons.prems(2) by simp
  show ?case
  proof (cases "m = 8")
    case True
    then show ?thesis using run m(2,3) by auto
  next
    case False
    have "\<forall>r \<in> set rs. round_clocks_ok r" using Cons.prems(3) by simp
    from Cons.IH [OF m(2) False this] obtain k lo' where "timer_loop_run pt rs lo1 = Inr (k = 8, lo')"
      "loop_at pw wakeup_fd pt timer_fd a b c k lo'"
      "k = 8 \<longleftrightarrow> (\<exists>r \<in> set rs. rd_ready r \<and> c + 300 * ns_per_ms \<le> rd_now r)" by blast
    then show ?thesis using run False m(3) by auto
  qed
qed

section \<open>Starting the timers\<close>

lemma start_timers_ok:
  assumes "started_close a b c" and "clock_ok a'" and "clock_ok b'" and "clock_ok c'"
    and "lo_timer lo = Some (TimerQueue_init fd)" and "lo_user lo = stage_world 0"
  shows "\<exists>q. start_timers a a' b b' c c' lo = Inr (lo\<lparr>lo_timer := Some q\<rparr>) \<and> at_stage fd a b c 0 (lo_user lo) q"
proof -
  let ?one = "\<lparr>entry_id = 1, expiration = a + 100 * ns_per_ms, interval = 0, callback = Some OneShot\<rparr>"
  let ?tick = "\<lparr>entry_id = 2, expiration = b + 50 * ns_per_ms, interval = 50, callback = Some Tick\<rparr>"
  let ?stop = "\<lparr>entry_id = 3, expiration = c + 300 * ns_per_ms, interval = 0, callback = Some (Stopper 2)\<rparr>"
  let ?q0 = "TimerQueue_init fd :: timer_lambda timer_queue"
  note ok = assms(1-4) [unfolded started_close_def clock_ok_def]
  have "m_next_id ?q0 = 1" "m_active_timers ?q0 = []" "m_timer_fd ?q0 = fd" "m_timers ?q0 = Map.empty"
    by (simp_all add: TimerQueue_init_def)
  note q0 = this
  from RunAfter_ok [of "{}" ?q0 100 a a' "Some OneShot"] ok q0 obtain q1 where
    q1: "RunAfter a a' 100 (Some OneShot) ?q0 = Inr (1, q1)" "filed {} a' ?one ?q0 1 q1" by (auto simp: int64_ok_def)
  have f1: "m_next_id q1 = 2" "m_active_timers q1 = [(a + 100 * ns_per_ms, 1)]" "m_timer_fd q1 = fd" "m_timers q1 = [1 \<mapsto> ?one]"
    "timers_inv {} q1"
    using q1(2) q0 by (auto simp: filed_def set_emplace_def insort_insert_key_def)
  from RunEvery_ok [OF f1(5), of 50 b b' "Some Tick"] ok f1 obtain q2 where
    q2: "RunEvery b b' 50 (Some Tick) q1 = Inr (2, q2)" "filed {} b' ?tick q1 2 q2" by (auto simp: int64_ok_def)
  have f2: "m_next_id q2 = 3" "m_active_timers q2 = [(b + 50 * ns_per_ms, 2), (a + 100 * ns_per_ms, 1)]" "m_timer_fd q2 = fd"
    "m_timers q2 = [1 \<mapsto> ?one, 2 \<mapsto> ?tick]" "timers_inv {} q2"
    using q2(2) f1 ok(1) by (auto simp: filed_def set_emplace_def insort_insert_key_def less_eq_prod_def)
  from RunAfter_ok [OF f2(5), of 300 c c' "Some (Stopper 2)"] ok f2(1,2) obtain q3 where
    q3: "RunAfter c c' 300 (Some (Stopper 2)) q2 = Inr (3, q3)" "filed {} c' ?stop q2 3 q3" by (auto simp: int64_ok_def)
  have "m_active_timers q3 = stage_active a b c 0" "m_timer_fd q3 = fd" "m_timers q3 = stage_timers a b c 0"
    using q3(2) f2 ok(1) by (auto simp: filed_def set_emplace_def insort_insert_key_def less_eq_prod_def stage_defs)
  then show ?thesis
    using q1(1) q2(1) q3(1) assms(5,6)
    by (intro exI [of _ q3]) (simp add: start_timers_def EventLoop_RunAfter_def EventLoop_RunEvery_def on_timers_def at_stage_def)
qed

text \<open>The constructor leaves the poller's event list at its initial size.\<close>

lemma update_events_size: "UpdateChannel p s = Inr s' \<Longrightarrow> m_events_size s' = m_events_size s"
  by (auto simp: UpdateChannel_def with_channel_def put_channel_def EpollPoller_Update_def cpp_assert_eq_Inr_iff rbind_eq_Inr_iff Let_def
      split: option.splits if_splits)

lemma open_reading_events_size:
  assumes "rbind (make_read_channel p fd cb s) (EnableReading p) = Inr s'"
  shows "m_events_size s' = m_events_size s"
proof -
  from assms obtain s1 where s1: "make_read_channel p fd cb s = Inr s1" "EnableReading p s1 = Inr s'" by (auto elim: rbind_eq_InrE)
  have "m_events_size s1 = m_events_size s"
    using s1(1) by (auto simp: make_read_channel_def new_channel_def SetReadCallback_def with_channel_def put_channel_def
        rbind_eq_Inr_iff rmap_eq_Inr_iff)
  moreover have "m_events_size s' = m_events_size s1"
    using s1(2) by (auto simp: EnableReading_def Channel_set_events_def with_channel_def put_channel_def split: option.splits
        dest!: update_events_size)
  ultimately show ?thesis by simp
qed

lemma ctor_events_size:
  assumes "EventLoop_ctor pw wakeup_fd pt timer_fd u = Inr lo"
  shows "m_events_size (lo_poll lo) = kInitEventListSize"
proof -
  from assms obtain ps where "rbind (make_read_channel pw wakeup_fd CbWakeup EpollPoller_ctor) (EnableReading pw) = Inr ps"
    and t: "TimerQueue_ctor pt timer_fd \<lparr>lo_wakeup_fd = wakeup_fd, lo_wakeup_chan = Some pw, lo_timer = None, lo_timer_chan = None,
        lo_poll = ps, lo_eventfd = 0, lo_closed = [], lo_user = u\<rparr> = Inr lo"
    unfolding EventLoop_ctor_def by (rule rbind_eq_InrE)
  then have "m_events_size ps = kInitEventListSize" by (auto simp: EpollPoller_ctor_def dest!: open_reading_events_size)
  then show ?thesis
    using t by (auto simp: TimerQueue_ctor_def rmap_eq_Inr_iff Let_def split: if_splits dest!: open_reading_events_size)
qed

section \<open>Property\<close>



end
