(* ===== verification/Acceptor_Example.thy ===== *)
theory Acceptor_Example
  imports Acceptor
begin

text \<open>
  The program \<open>examples/example_acceptor.cpp\<close>: the main thread hands two functors to the loop of an \<open>EventLoopThread\<close>, one that makes an
  acceptor and one that destroys it, waits for the second and stops the thread. The two threads interleave freely; a step is one call of
  the main thread or one turn of the loop. The results of system calls are arguments.
\<close>

section \<open>State\<close>

text \<open>The points of \<open>main\<close>: before each of the two calls of \<open>RunInLoop\<close>, in \<open>get_future().wait()\<close>, before and in \<open>loop_thread.Stop()\<close>,
  at the end. The loop is in \<open>Poll\<close>, is running the functors it has taken out of its queue, or is destroyed: \<open>Loop\<close> has returned and with
  it \<open>ThreadFunc\<close>, which owns the loop.\<close>

datatype demo_main = MSetup | MCleanup | MWait | MStop | MJoin | MDone

datatype demo_fn = FnSetup | FnCleanup

datatype demo_loop = LPoll | LBatch "demo_fn list" | LGone

text \<open>The variable \<open>count\<close> and the lines the callback prints: descriptor, peer and total.\<close>

record demo_user =
  du_count :: nat
  du_lines :: "(int \<times> string \<times> nat) list"

text \<open>\<open>de_world\<close> has the acceptor the variable \<open>acceptor\<close> points to, \<open>de_quit\<close> is \<open>m_quit\<close> of the loop and \<open>de_done\<close> that the promise is set.\<close>

record demo =
  de_main :: demo_main
  de_loop :: demo_loop
  de_queue :: "demo_fn list"
  de_quit :: bool
  de_done :: bool
  de_world :: "(unit, demo_user) acc_world"

text \<open>What the outside decides: byte order, \<open>inet_ntop\<close>, the descriptor \<open>socket\<close> returns, the address of the acceptor's channel and the
  system calls of \<open>Listen\<close>.\<close>

record demo_sys =
  ds_endian :: endian
  ds_ntop :: "sa_family \<Rightarrow> byte list \<Rightarrow> string"
  ds_fd :: int
  ds_chan :: chan_ptr
  ds_listen :: listen_calls

definition demo_init :: "unit poll_state \<Rightarrow> demo" where
  "demo_init ps = \<lparr>de_main = MSetup, de_loop = LPoll, de_queue = [], de_quit = False, de_done = False,
     de_world = \<lparr>aw_acceptor = None, aw_poll = ps, aw_opts = Map.empty, aw_closed = [], aw_user = \<lparr>du_count = 0, du_lines = []\<rparr>\<rparr>\<rparr>"

section \<open>The program\<close>

text \<open>The new-connection callback.\<close>

definition demo_new_conn :: "demo_sys \<Rightarrow> int \<Rightarrow> inet_address \<Rightarrow> (unit, demo_user) acc_world \<Rightarrow> (unit, demo_user) acc_world res" where
  "demo_new_conn y sockfd peer w =
     (let n = du_count (aw_user w) + 1
      in Inr (close_sock sockfd (w\<lparr>aw_user := \<lparr>du_count = n,
           du_lines = du_lines (aw_user w) @ [(sockfd, ToIpPort (ds_endian y) (ds_ntop y) peer, n)]\<rparr>\<rparr>)))"

text \<open>The two functors.\<close>

definition demo_setup :: "demo_sys \<Rightarrow> demo \<Rightarrow> demo res" where
  "demo_setup y s =
     rbind (Acceptor_ctor (ds_chan y) () (ds_fd y) (InetAddress_port (ds_endian y) 8080 False AF_INET) True (de_world s)) (\<lambda>w.
     rbind (SetNewConnectionCallback True w) (\<lambda>w.
     rbind (Acceptor_Listen (ds_endian y) (ds_listen y) w) (\<lambda>(ok, w).
       Inr (s\<lparr>de_world := w, de_quit := de_quit s \<or> \<not> ok\<rparr>))))"

definition demo_cleanup :: "demo \<Rightarrow> demo res" where
  "demo_cleanup s =
     rmap (\<lambda>w. s\<lparr>de_world := w, de_done := True\<rparr>)
       (case aw_acceptor (de_world s) of None \<Rightarrow> Inr (de_world s) | Some _ \<Rightarrow> Acceptor_dtor True (de_world s))"

fun demo_run_fn :: "demo_sys \<Rightarrow> demo_fn \<Rightarrow> demo \<Rightarrow> demo res" where
  "demo_run_fn y FnSetup s = demo_setup y s"
| "demo_run_fn y FnCleanup s = demo_cleanup s"

text \<open>\<open>RunInLoop\<close> called in the main thread queues the functor in the loop \<open>Start\<close> has returned, if that still exists.\<close>

definition demo_post :: "demo_fn \<Rightarrow> demo_main \<Rightarrow> demo \<Rightarrow> demo res" where
  "demo_post f next s =
     (if de_loop s = LGone then Inl UseAfterFree else Inr (s\<lparr>de_queue := de_queue s @ [f], de_main := next\<rparr>))"

text \<open>The main thread. \<open>Stop\<close> tells the loop to quit unless \<open>m_loop\<close> is null, which it is once the thread has left \<open>ThreadFunc\<close>, and
  joins the thread.\<close>

definition demo_main_step :: "demo \<Rightarrow> demo res" where
  "demo_main_step s =
     (case de_main s of
        MSetup \<Rightarrow> demo_post FnSetup MCleanup s
      | MCleanup \<Rightarrow> demo_post FnCleanup MWait s
      | MWait \<Rightarrow> Inr (s\<lparr>de_main := MStop\<rparr>)
      | MStop \<Rightarrow> Inr (s\<lparr>de_main := MJoin, de_quit := de_quit s \<or> de_loop s \<noteq> LGone\<rparr>)
      | MJoin \<Rightarrow> Inr (s\<lparr>de_main := MDone\<rparr>)
      | MDone \<Rightarrow> Inr s)"

datatype demo_ev = EvMain | EvConnections "(int \<times> byte list) list" | EvTake | EvRun | EvRoundEnd

definition demo_do :: "demo_sys \<Rightarrow> demo_ev \<Rightarrow> demo \<Rightarrow> demo res" where
  "demo_do y ev s =
     (case ev of
        EvMain \<Rightarrow> demo_main_step s
      | EvConnections accepts \<Rightarrow>
          rmap (\<lambda>w. s\<lparr>de_world := w\<rparr>) (Acceptor_HandleRead (ds_endian y) (demo_new_conn y) accepts (de_world s))
      | EvTake \<Rightarrow> Inr (s\<lparr>de_loop := LBatch (de_queue s), de_queue := []\<rparr>)
      | EvRun \<Rightarrow> (case de_loop s of LBatch (f # fs) \<Rightarrow> demo_run_fn y f (s\<lparr>de_loop := LBatch fs\<rparr>) | _ \<Rightarrow> Inr s)
      | EvRoundEnd \<Rightarrow> Inr (s\<lparr>de_loop := (if de_quit s then LGone else LPoll)\<rparr>))"

text \<open>When a step can happen. The main thread waits for the promise and in \<open>Join\<close>; the listening socket is read when the poller watches
  it.\<close>

definition demo_enabled :: "demo_sys \<Rightarrow> demo_ev \<Rightarrow> demo \<Rightarrow> bool" where
  "demo_enabled y ev s =
     (case ev of
        EvMain \<Rightarrow> (case de_main s of MWait \<Rightarrow> de_done s | MJoin \<Rightarrow> de_loop s = LGone | MDone \<Rightarrow> False | _ \<Rightarrow> True)
      | EvConnections accepts \<Rightarrow> de_loop s = LPoll \<and> watched (aw_poll (de_world s)) (ds_fd y) \<noteq> None \<and> (\<forall>(c, _) \<in> set accepts. 0 \<le> c)
      | EvTake \<Rightarrow> de_loop s = LPoll
      | EvRun \<Rightarrow> (case de_loop s of LBatch (f # fs) \<Rightarrow> True | _ \<Rightarrow> False)
      | EvRoundEnd \<Rightarrow> de_loop s = LBatch [])"

definition demo_step :: "demo_sys \<Rightarrow> demo \<Rightarrow> demo_ev \<Rightarrow> demo \<Rightarrow> bool" where
  "demo_step y s ev s' \<longleftrightarrow> demo_enabled y ev s \<and> demo_do y ev s = Inr s'"

section \<open>Invariant\<close>

text \<open>The functors not run yet, and what has become of the acceptor.\<close>

definition demo_todo :: "demo \<Rightarrow> demo_fn list" where
  "demo_todo s = (case de_loop s of LBatch fs \<Rightarrow> fs | _ \<Rightarrow> []) @ de_queue s"

definition no_acceptor :: "(int \<rightharpoonup> events \<times> chan_ptr) \<Rightarrow> demo_sys \<Rightarrow> (unit, demo_user) acc_world \<Rightarrow> bool" where
  "no_acceptor W y w \<longleftrightarrow> aw_acceptor w = None \<and> poller_inv (aw_poll w) \<and> watched (aw_poll w) = W"

definition serving :: "(int \<rightharpoonup> events \<times> chan_ptr) \<Rightarrow> demo_sys \<Rightarrow> (unit, demo_user) acc_world \<Rightarrow> bool" where
  "serving W y w \<longleftrightarrow> acceptor_ok (ds_chan y) (ds_fd y) () w \<and> watched (aw_poll w) = W(ds_fd y \<mapsto> (kReadEvent, ds_chan y))
     \<and> (\<exists>a. aw_acceptor w = Some a \<and> ac_has_cb a)"

definition unused :: "demo_sys \<Rightarrow> (unit, demo_user) acc_world \<Rightarrow> bool" where
  "unused y w \<longleftrightarrow> chan_heap (aw_poll w) (ds_chan y) = None \<and> m_channels (aw_poll w) (ds_fd y) = None \<and> du_lines (aw_user w) = []"

text \<open>Every connection was counted, printed and closed; nothing else was closed.\<close>

definition counted :: "int list \<Rightarrow> (unit, demo_user) acc_world \<Rightarrow> bool" where
  "counted closed w \<longleftrightarrow> du_count (aw_user w) = length (du_lines (aw_user w))
     \<and> aw_closed w = map fst (du_lines (aw_user w)) @ closed
     \<and> map (snd \<circ> snd) (du_lines (aw_user w)) = [1..<Suc (length (du_lines (aw_user w)))]"

definition demo_phase :: "(int \<rightharpoonup> events \<times> chan_ptr) \<Rightarrow> demo_sys \<Rightarrow> demo_fn list \<Rightarrow> demo \<Rightarrow> bool" where
  "demo_phase W y rest s \<longleftrightarrow>
     (demo_todo s = FnSetup # rest \<and> no_acceptor W y (de_world s) \<and> unused y (de_world s) \<and> counted [] (de_world s) \<and> \<not> de_done s)
     \<or> (demo_todo s = rest \<and> serving W y (de_world s) \<and> counted [] (de_world s) \<and> \<not> de_done s)"

definition demo_over :: "(int \<rightharpoonup> events \<times> chan_ptr) \<Rightarrow> demo_sys \<Rightarrow> demo \<Rightarrow> bool" where
  "demo_over W y s \<longleftrightarrow> demo_todo s = [] \<and> no_acceptor W y (de_world s) \<and> counted [ds_fd y] (de_world s) \<and> de_done s"

definition demo_inv :: "(int \<rightharpoonup> events \<times> chan_ptr) \<Rightarrow> demo_sys \<Rightarrow> demo \<Rightarrow> bool" where
  "demo_inv W y s \<longleftrightarrow>
     (de_quit s \<longleftrightarrow> de_main s \<in> {MJoin, MDone}) \<and> (de_loop s = LGone \<longrightarrow> de_quit s \<and> de_queue s = [])
     \<and> (case de_main s of
          MSetup \<Rightarrow> demo_todo s = [] \<and> no_acceptor W y (de_world s) \<and> unused y (de_world s) \<and> counted [] (de_world s) \<and> \<not> de_done s
        | MCleanup \<Rightarrow> demo_phase W y [] s
        | MWait \<Rightarrow> demo_phase W y [FnCleanup] s \<or> demo_over W y s
        | MStop \<Rightarrow> demo_over W y s
        | MJoin \<Rightarrow> demo_over W y s
        | MDone \<Rightarrow> demo_over W y s \<and> de_loop s = LGone)"

lemmas demo_world_defs = no_acceptor_def serving_def unused_def counted_def

lemma demo_setup_ok:
  assumes "0 \<le> ds_fd y" and "calls_ok (ds_listen y) True"
    and "no_acceptor W y (de_world s)" and "unused y (de_world s)" and "counted [] (de_world s)"
  shows "\<exists>w. demo_setup y s = Inr (s\<lparr>de_world := w\<rparr>) \<and> serving W y w \<and> counted [] w \<and> aw_user w = aw_user (de_world s)"
proof -
  let ?addr = "InetAddress_port (ds_endian y) 8080 False AF_INET"
  let ?a = "\<lparr>ac_listen_addr = ?addr, ac_reuse_port = True, ac_listening = False, ac_fd = ds_fd y, ac_chan = Some (ds_chan y), ac_has_cb = True\<rparr>"
  have pre: "poller_inv (aw_poll (de_world s))" "chan_heap (aw_poll (de_world s)) (ds_chan y) = None"
    "m_channels (aw_poll (de_world s)) (ds_fd y) = None"
    using assms(3,4) by (auto simp: demo_world_defs)
  from Acceptor_ctor_ok [OF pre assms(1), of "()" ?addr True] obtain w1 where w1:
    "Acceptor_ctor (ds_chan y) () (ds_fd y) ?addr True (de_world s) = Inr w1" "acceptor_ok (ds_chan y) (ds_fd y) () w1"
    "aw_acceptor w1 = Some (?a\<lparr>ac_has_cb := False\<rparr>)" "watched (aw_poll w1) = watched (aw_poll (de_world s))"
    "aw_closed w1 = aw_closed (de_world s)" "aw_user w1 = aw_user (de_world s)" by auto
  let ?w2 = "w1\<lparr>aw_acceptor := Some ?a\<rparr>"
  have cb: "SetNewConnectionCallback True w1 = Inr ?w2" using w1(3) by (simp add: SetNewConnectionCallback_def with_acceptor_def)
  have ok: "acceptor_ok (ds_chan y) (ds_fd y) () ?w2" using w1(2,3) by (auto simp: acceptor_ok_def)
  from Listen_succeeds [OF ok, of ?a "ds_listen y" "ds_endian y"] assms(2) obtain w3 where
    "Acceptor_Listen (ds_endian y) (ds_listen y) ?w2 = Inr (True, w3)" "acceptor_ok (ds_chan y) (ds_fd y) () w3"
    "watched (aw_poll w3) = (watched (aw_poll ?w2))(ds_fd y \<mapsto> (kReadEvent, ds_chan y))"
    "aw_user w3 = aw_user w1" "aw_closed w3 = aw_closed w1" "\<exists>a. aw_acceptor w3 = Some a \<and> ac_has_cb a" by auto
  then show ?thesis
    using w1 cb assms(3,5) by (intro exI [of _ w3]) (simp add: demo_setup_def demo_world_defs)
qed

lemma new_conn_counted:
  assumes "serving W y w" and "counted [] w"
  shows "\<exists>w'. demo_new_conn y fd peer w = Inr w' \<and> serving W y w' \<and> counted [] w'
    \<and> length (du_lines (aw_user w')) = Suc (length (du_lines (aw_user w)))"
proof -
  obtain w' where w': "demo_new_conn y fd peer w = Inr w'" "aw_acceptor w' = aw_acceptor w" "aw_poll w' = aw_poll w"
    "du_count (aw_user w') = Suc (du_count (aw_user w))" "aw_closed w' = aw_closed w @ [fd]"
    "\<exists>t. du_lines (aw_user w') = du_lines (aw_user w) @ [(fd, t, Suc (du_count (aw_user w)))]"
    by (simp add: demo_new_conn_def Let_def close_sock_def)
  then have "counted [] w'" using assms(2) by (auto simp: counted_def)
  moreover have "serving W y w'" using assms(1) unfolding serving_def acceptor_ok_def w'(2,3) .
  ultimately show ?thesis using w'(1,6) by auto
qed

lemma hand_over_counted:
  assumes "serving W y w" and "counted [] w"
  shows "\<exists>w'. hand_over (demo_new_conn y) cs w = Inr w' \<and> serving W y w' \<and> counted [] w'
    \<and> length (du_lines (aw_user w')) = length (du_lines (aw_user w)) + length cs"
  using assms
proof (induction cs arbitrary: w)
  case (Cons x cs)
  obtain fd peer where x: "x = (fd, peer)" by fastforce
  from new_conn_counted [OF Cons.prems, of fd peer] obtain w1 where w1: "demo_new_conn y fd peer w = Inr w1" "serving W y w1"
    "counted [] w1" "length (du_lines (aw_user w1)) = Suc (length (du_lines (aw_user w)))" by blast
  from Cons.IH [OF w1(2,3)] show ?case using w1(1,4) by (auto simp: x)
qed simp

lemma demo_read_ok:
  assumes "serving W y w" and "counted [] w" and "\<forall>(c, bs) \<in> set accepts. 0 \<le> c"
  shows "\<exists>w'. Acceptor_HandleRead e (demo_new_conn y) accepts w = Inr w' \<and> serving W y w' \<and> counted [] w'
    \<and> length (du_lines (aw_user w')) = length (du_lines (aw_user w)) + length accepts"
proof -
  from assms(1) obtain a where a: "aw_acceptor w = Some a" "ac_has_cb a" "ac_fd a = ds_fd y" "0 \<le> ds_fd y"
    by (auto simp: serving_def acceptor_ok_def)
  have "Acceptor_HandleRead e (demo_new_conn y) accepts w =
      hand_over (demo_new_conn y) (map (\<lambda>(c, bs). (c, peer_of e bs)) accepts) w"
    using assms(3) by (intro HandleRead_hands_over [OF a(1) _ a(2)])
      (auto simp: a Socket_IsValid_def demo_new_conn_def Let_def close_sock_def)
  then show ?thesis
    using hand_over_counted [OF assms(1,2), of "map (\<lambda>(c, bs). (c, peer_of e bs)) accepts"] by simp
qed

lemma demo_cleanup_ok:
  assumes "serving W y (de_world s)" and "counted [] (de_world s)" and "W (ds_fd y) = None"
  shows "\<exists>w. demo_cleanup s = Inr (s\<lparr>de_world := w, de_done := True\<rparr>) \<and> no_acceptor W y w \<and> counted [ds_fd y] w
    \<and> aw_user w = aw_user (de_world s)"
proof -
  have ok: "acceptor_ok (ds_chan y) (ds_fd y) () (de_world s)" and "aw_acceptor (de_world s) \<noteq> None"
    and watch: "watched (aw_poll (de_world s)) = W(ds_fd y \<mapsto> (kReadEvent, ds_chan y))"
    using assms(1) by (auto simp: serving_def)
  from Acceptor_dtor_in_loop [OF ok] obtain w where w: "Acceptor_dtor True (de_world s) = Inr w" "aw_acceptor w = None"
    "aw_closed w = aw_closed (de_world s) @ [ds_fd y]" "poller_inv (aw_poll w)" "aw_user w = aw_user (de_world s)"
    "watched (aw_poll w) = (watched (aw_poll (de_world s)))(ds_fd y := None)" by blast
  have "watched (aw_poll w) = W" unfolding w(6) watch using assms(3) by (simp add: fun_upd_idem)
  moreover have "demo_cleanup s = Inr (s\<lparr>de_world := w, de_done := True\<rparr>)"
    using w(1) \<open>aw_acceptor (de_world s) \<noteq> None\<close> by (auto simp: demo_cleanup_def)
  moreover have "counted [ds_fd y] w" using assms(2) w(3,5) by (simp add: counted_def)
  ultimately show ?thesis using w(2,4,5) by (intro exI [of _ w]) (simp add: no_acceptor_def)
qed

text \<open>Running the next functor: the phase moves on.\<close>

lemma demo_run_phase:
  assumes "0 \<le> ds_fd y" and "calls_ok (ds_listen y) True" and "W (ds_fd y) = None"
    and "demo_phase W y rest s" and "de_loop s = LBatch (f # fs)" and "rest \<in> {[], [FnCleanup]}"
  shows "\<exists>s'. demo_run_fn y f (s\<lparr>de_loop := LBatch fs\<rparr>) = Inr s' \<and> (demo_phase W y rest s' \<or> rest = [FnCleanup] \<and> demo_over W y s')
    \<and> de_quit s' = de_quit s \<and> de_main s' = de_main s \<and> de_loop s' = LBatch fs"
proof -
  let ?s = "s\<lparr>de_loop := LBatch fs\<rparr>"
  have todo: "demo_todo s = f # demo_todo ?s" using assms(5) by (simp add: demo_todo_def)
  show ?thesis
  proof (cases "demo_todo s = FnSetup # rest \<and> no_acceptor W y (de_world s) \<and> unused y (de_world s) \<and> counted [] (de_world s) \<and> \<not> de_done s")
    case True
    then have f: "f = FnSetup" "demo_todo ?s = rest" using todo by simp_all
    from demo_setup_ok [OF assms(1,2), of W ?s] True obtain w where
      "demo_setup y ?s = Inr (?s\<lparr>de_world := w\<rparr>)" "serving W y w" "counted [] w" by auto
    then show ?thesis using f True by (simp add: demo_phase_def demo_todo_def)
  next
    case False
    with assms(4) have p: "demo_todo s = rest" "serving W y (de_world s)" "counted [] (de_world s)" "\<not> de_done s"
      by (auto simp: demo_phase_def)
    then have f: "f = FnCleanup" "rest = [FnCleanup]" "demo_todo ?s = []" using todo assms(6) by auto
    from demo_cleanup_ok [of W y ?s] p assms(3) obtain w where
      "demo_cleanup ?s = Inr (?s\<lparr>de_world := w, de_done := True\<rparr>)" "no_acceptor W y w" "counted [ds_fd y] w" by auto
    then show ?thesis using f by (simp add: demo_over_def demo_todo_def)
  qed
qed

lemma demo_run_ok:
  assumes "0 \<le> ds_fd y" and "calls_ok (ds_listen y) True" and "W (ds_fd y) = None"
    and "demo_inv W y s" and "de_loop s = LBatch (f # fs)"
  shows "\<exists>s'. demo_run_fn y f (s\<lparr>de_loop := LBatch fs\<rparr>) = Inr s' \<and> demo_inv W y s'"
proof -
  have todo: "demo_todo s \<noteq> []" using assms(5) by (simp add: demo_todo_def)
  consider "de_main s = MCleanup" "demo_phase W y [] s" | "de_main s = MWait" "demo_phase W y [FnCleanup] s"
    using assms(4) todo by (auto simp: demo_inv_def demo_over_def split: demo_main.splits)
  then show ?thesis
  proof cases
    case 1
    with demo_run_phase [OF assms(1-3) 1(2) assms(5)] assms(4) show ?thesis by (auto simp: demo_inv_def)
  next
    case 2
    with demo_run_phase [OF assms(1-3) 2(2) assms(5)] assms(4) show ?thesis by (auto simp: demo_inv_def)
  qed
qed

text \<open>The other steps leave the functors still to be run as they are, or add one.\<close>

lemma demo_phase_cong:
  "demo_todo s' = demo_todo s \<Longrightarrow> de_world s' = de_world s \<Longrightarrow> de_done s' = de_done s \<Longrightarrow> demo_phase W y rest s' = demo_phase W y rest s"
  "demo_todo s' = demo_todo s \<Longrightarrow> de_world s' = de_world s \<Longrightarrow> de_done s' = de_done s \<Longrightarrow> demo_over W y s' = demo_over W y s"
  by (simp_all add: demo_phase_def demo_over_def)

lemma demo_inv_loop:
  assumes "demo_inv W y s" and "demo_todo (s\<lparr>de_loop := l, de_queue := q\<rparr>) = demo_todo s" and "l = LGone \<longrightarrow> de_quit s \<and> q = []"
    and "de_loop s \<noteq> LGone"
  shows "demo_inv W y (s\<lparr>de_loop := l, de_queue := q\<rparr>)"
  using assms demo_phase_cong [OF assms(2)] by (auto simp: demo_inv_def split: demo_main.splits)

lemma demo_post_ok:
  assumes "de_loop s \<noteq> LGone"
  shows "\<exists>s'. demo_post f next s = Inr s' \<and> demo_todo s' = demo_todo s @ [f] \<and> de_main s' = next \<and> de_world s' = de_world s
    \<and> de_quit s' = de_quit s \<and> de_done s' = de_done s \<and> de_loop s' = de_loop s"
  using assms by (auto simp: demo_post_def demo_todo_def split: demo_loop.splits)

lemma demo_main_ok:
  assumes "demo_inv W y s" and "demo_enabled y EvMain s"
  shows "\<exists>s'. demo_main_step s = Inr s' \<and> demo_inv W y s'"
proof (cases "de_main s")
  case MSetup
  with assms(1) have "de_loop s \<noteq> LGone" by (auto simp: demo_inv_def)
  from demo_post_ok [OF this, of FnSetup MCleanup] MSetup assms(1) show ?thesis
    by (auto simp: demo_main_step_def demo_inv_def demo_phase_def)
next
  case MCleanup
  with assms(1) have "de_loop s \<noteq> LGone" by (auto simp: demo_inv_def)
  from demo_post_ok [OF this, of FnCleanup MWait] MCleanup assms(1) show ?thesis
    by (auto simp: demo_main_step_def demo_inv_def demo_phase_def)
next
  case MWait
  then have "demo_over W y s" using assms by (auto simp: demo_enabled_def demo_inv_def demo_phase_def)
  then show ?thesis using MWait assms(1) by (auto simp: demo_main_step_def demo_inv_def demo_over_def demo_todo_def)
next
  case MStop
  then show ?thesis using assms by (auto simp: demo_main_step_def demo_inv_def demo_over_def demo_todo_def)
next
  case MJoin
  then show ?thesis using assms by (auto simp: demo_enabled_def demo_main_step_def demo_inv_def demo_over_def demo_todo_def)
qed (use assms(2) in \<open>simp add: demo_enabled_def\<close>)

lemma demo_connections_ok:
  assumes "W (ds_fd y) = None" and "demo_inv W y s" and "demo_enabled y (EvConnections accepts) s"
  shows "\<exists>s'. demo_do y (EvConnections accepts) s = Inr s' \<and> demo_inv W y s'"
proof -
  have "\<not> no_acceptor W y (de_world s)" and a: "\<forall>(c, bs) \<in> set accepts. 0 \<le> c"
    using assms(1,3) by (auto simp: demo_enabled_def no_acceptor_def)
  then have s: "serving W y (de_world s)" "counted [] (de_world s)"
    and m: "de_main s = MCleanup \<or> de_main s = MWait"
    using assms(2) by (auto simp: demo_inv_def demo_phase_def demo_over_def split: demo_main.splits)
  from demo_read_ok [OF s a, of "ds_endian y"] obtain w where "demo_do y (EvConnections accepts) s = Inr (s\<lparr>de_world := w\<rparr>)" "serving W y w" "counted [] w"
    by (auto simp: demo_do_def)
  then show ?thesis
    using m assms(2) \<open>\<not> no_acceptor W y (de_world s)\<close>
    by (intro exI [of _ "s\<lparr>de_world := w\<rparr>"]) (auto simp: demo_inv_def demo_phase_def demo_over_def demo_todo_def)
qed

lemma demo_step_ok:
  assumes "0 \<le> ds_fd y" and "calls_ok (ds_listen y) True" and "W (ds_fd y) = None" and "demo_inv W y s" and "demo_enabled y ev s"
  shows "\<exists>s'. demo_do y ev s = Inr s' \<and> demo_inv W y s'"
proof (cases ev)
  case EvMain
  then show ?thesis using demo_main_ok assms(4,5) by (simp add: demo_do_def)
next
  case (EvConnections accepts)
  then show ?thesis using demo_connections_ok [OF assms(3,4)] assms(5) by simp
next
  case EvTake
  with assms(5) have "de_loop s = LPoll" by (simp add: demo_enabled_def)
  then show ?thesis
    using EvTake demo_inv_loop [OF assms(4), where l = "LBatch (de_queue s)" and q = "[]"] by (simp add: demo_do_def demo_todo_def)
next
  case EvRun
  with assms(5) obtain f fs where "de_loop s = LBatch (f # fs)" by (auto simp: demo_enabled_def split: demo_loop.splits list.splits)
  then show ?thesis using EvRun demo_run_ok [OF assms(1-4)] by (simp add: demo_do_def)
next
  case EvRoundEnd
  with assms(5) have l: "de_loop s = LBatch []" by (simp add: demo_enabled_def)
  have "de_queue s = []" if "de_quit s"
    using that assms(4) by (auto simp: demo_inv_def demo_over_def demo_todo_def split: demo_main.splits)
  then show ?thesis
    using EvRoundEnd l demo_inv_loop [OF assms(4), where l = "if de_quit s then LGone else LPoll" and q = "de_queue s"]
    by (simp add: demo_do_def demo_todo_def split: if_splits)
qed

lemma demo_init_inv:
  assumes "poller_inv ps" and "chan_heap ps (ds_chan y) = None" and "m_channels ps (ds_fd y) = None"
  shows "demo_inv (watched ps) y (demo_init ps)"
  using assms by (simp add: demo_inv_def demo_init_def demo_todo_def demo_world_defs)

lemma demo_path_inv:
  assumes "0 \<le> ds_fd y" and "calls_ok (ds_listen y) True"
    and "poller_inv ps" and "chan_heap ps (ds_chan y) = None" and "m_channels ps (ds_fd y) = None"
    and "ev_path (demo_step y) (demo_init ps) es s"
  shows "demo_inv (watched ps) y s"
proof -
  have "watched ps (ds_fd y) = None" using assms(5) by (simp add: watched_def)
  note ok = demo_step_ok [where W = "watched ps", OF assms(1,2) this]
  show ?thesis
    using assms(6) demo_init_inv [OF assms(3-5)]
    by (rule ev_path_invariant) (use ok in \<open>fastforce simp: demo_step_def\<close>)
qed

text \<open>While \<open>main\<close> is not at its end, it or the loop has something to do.\<close>

lemma demo_goes_on:
  assumes "demo_inv W y s" and "de_main s \<noteq> MDone"
  shows "\<exists>ev. demo_enabled y ev s \<and> (\<forall>accepts. ev \<noteq> EvConnections accepts) \<and> (ev = EvTake \<longrightarrow> de_queue s \<noteq> [] \<or> de_quit s)"
proof (cases "de_loop s")
  case LPoll
  then have "demo_enabled y EvMain s \<or> de_queue s \<noteq> [] \<or> de_quit s"
    using assms by (auto simp: demo_inv_def demo_enabled_def demo_phase_def demo_over_def demo_todo_def split: demo_main.splits)
  moreover have "demo_enabled y EvTake s" using LPoll by (simp add: demo_enabled_def)
  ultimately show ?thesis by blast
next
  case (LBatch fs)
  then have "demo_enabled y (if fs = [] then EvRoundEnd else EvRun) s"
    by (cases fs) (simp_all add: demo_enabled_def)
  then show ?thesis by (intro exI [of _ "if fs = [] then EvRoundEnd else EvRun"]) simp
next
  case LGone
  then have "demo_enabled y EvMain s"
    using assms by (auto simp: demo_inv_def demo_enabled_def split: demo_main.splits)
  then show ?thesis by (intro exI [of _ EvMain]) simp
qed

section \<open>Properties\<close>


text \<open>Runs of the program, for concrete ones.\<close>

fun demo_exec :: "demo_sys \<Rightarrow> demo_ev list \<Rightarrow> demo \<Rightarrow> demo option" where
  "demo_exec y [] s = Some s"
| "demo_exec y (ev # es) s =
     (if demo_enabled y ev s then (case demo_do y ev s of Inl _ \<Rightarrow> None | Inr s' \<Rightarrow> demo_exec y es s') else None)"

lemma demo_exec_path: "demo_exec y es s = Some s' \<Longrightarrow> ev_path (demo_step y) s es s'"
proof (induction es arbitrary: s)
  case (Cons ev es)
  then obtain s1 where "demo_enabled y ev s" "demo_do y ev s = Inr s1" "demo_exec y es s1 = Some s'"
    by (auto split: if_splits sum.splits)
  moreover from this have "demo_step y s ev s1" by (simp add: demo_step_def)
  ultimately show ?case using Cons.IH ev_path_Cons by metis
qed (simp add: ev_nil)

definition sample_demo :: demo_sys where
  "sample_demo = \<lparr>ds_endian = Little, ds_ntop = (\<lambda>_ _. ''1.2.3.4''), ds_fd = 5, ds_chan = 1,
     ds_listen = \<lparr>reuseaddr_ok = True, reuseport_ok = True, bind_ok = True, listen_ok = True, sockname = None\<rparr>\<rparr>"

definition sample_demo_run :: "demo_ev list" where
  "sample_demo_run = [EvMain, EvTake, EvRun, EvRoundEnd, EvConnections [(7, []), (8, [])], EvMain, EvTake, EvRun, EvRoundEnd,
     EvMain, EvMain, EvTake, EvRoundEnd, EvMain]"

lemma sample_demo_runs:
  "\<exists>s. demo_exec sample_demo sample_demo_run (demo_init EpollPoller_ctor) = Some s \<and> de_main s = MDone
     \<and> length (du_lines (aw_user (de_world s))) = 2"
proof -
  let ?y = sample_demo
  let ?s = "(demo_init EpollPoller_ctor)\<lparr>de_main := MCleanup, de_loop := LBatch []\<rparr>"
  have y: "0 \<le> ds_fd ?y" "calls_ok (ds_listen ?y) True" by (simp_all add: sample_demo_def calls_ok_def)
  have init: "no_acceptor Map.empty ?y (de_world ?s)" "unused ?y (de_world ?s)" "counted [] (de_world ?s)"
    using poller_inv_ctor
    by (auto simp: demo_init_def demo_world_defs EpollPoller_ctor_def watched_def fun_eq_iff)
  from demo_setup_ok [OF y init] obtain w1 where w1: "demo_setup ?y ?s = Inr (?s\<lparr>de_world := w1\<rparr>)"
    "serving Map.empty ?y w1" "counted [] w1" "aw_user w1 = aw_user (de_world ?s)" by blast
  from demo_read_ok [OF w1(2,3), of "[(7, []), (8, [])]" "ds_endian ?y"] obtain w2 where w2:
    "Acceptor_HandleRead (ds_endian ?y) (demo_new_conn ?y) [(7, []), (8, [])] w1 = Inr w2" "serving Map.empty ?y w2" "counted [] w2"
    "length (du_lines (aw_user w2)) = 2" using w1(4) by (auto simp: demo_init_def)
  let ?s2 = "?s\<lparr>de_world := w2, de_main := MWait\<rparr>"
  from demo_cleanup_ok [of Map.empty ?y ?s2] w2(2,3) obtain w3 where w3:
    "demo_cleanup ?s2 = Inr (?s2\<lparr>de_world := w3, de_done := True\<rparr>)" "aw_user w3 = aw_user w2" by auto
  have "watched (aw_poll w1) (ds_fd ?y) \<noteq> None" using w1(2) by (simp add: serving_def)
  then show ?thesis
    using w1(1) w2(1,4) w3
    by (simp add: sample_demo_run_def demo_enabled_def demo_do_def demo_main_step_def demo_post_def demo_init_def)
qed


lemma demo_setup_fails:
  assumes "ds_fd y < 0 \<or> \<not> calls_ok (ds_listen y) True"
    and "poller_inv (aw_poll (de_world s))" and "chan_heap (aw_poll (de_world s)) (ds_chan y) = None"
    and "m_channels (aw_poll (de_world s)) (ds_fd y) = None"
  shows "\<exists>w. demo_setup y s = Inr (s\<lparr>de_world := w, de_quit := True\<rparr>)"
proof (cases "ds_fd y < 0")
  case True
  then show ?thesis
    by (auto simp: demo_setup_def Acceptor_ctor_def SetNewConnectionCallback_def Acceptor_Listen_def with_acceptor_def Socket_IsValid_def)
next
  case False
  let ?addr = "InetAddress_port (ds_endian y) 8080 False AF_INET"
  from Acceptor_ctor_ok [OF assms(2-4), of "()" ?addr True] False obtain w1 a where w1:
    "Acceptor_ctor (ds_chan y) () (ds_fd y) ?addr True (de_world s) = Inr w1" "acceptor_ok (ds_chan y) (ds_fd y) () w1"
    "aw_acceptor w1 = Some a" "\<not> ac_listening a" "ac_reuse_port a" by auto
  let ?w2 = "w1\<lparr>aw_acceptor := Some (a\<lparr>ac_has_cb := True\<rparr>)\<rparr>"
  have "SetNewConnectionCallback True w1 = Inr ?w2" using w1(3) by (simp add: SetNewConnectionCallback_def with_acceptor_def)
  moreover have "acceptor_ok (ds_chan y) (ds_fd y) () ?w2" using w1(2,3) by (auto simp: acceptor_ok_def)
  with Listen_fails [of "ds_chan y" "ds_fd y" "()" ?w2 "a\<lparr>ac_has_cb := True\<rparr>" "ds_listen y" "ds_endian y"] w1(4,5) assms(1) False
  obtain opts where "Acceptor_Listen (ds_endian y) (ds_listen y) ?w2 = Inr (False, ?w2\<lparr>aw_opts := opts\<rparr>)" by auto
  ultimately show ?thesis using w1(1) by (auto simp: demo_setup_def)
qed



end
