(* ===== verification/Server_Example.thy ===== *)
theory Server_Example
  imports Tcp_Server
begin

text \<open>
  The program \<open>examples/example_tcp_server.cpp\<close> up to the point where it waits for a key: reading the command line, setting up the echo server and
  announcing its address. The event loop is made in the main thread, which therefore counts as its thread, so \<open>Start\<close> runs
  \<open>StartInLoop\<close> at once.
\<close>

section \<open>The command line\<close>

text \<open>\<open>std::stoi\<close>: white space and a sign are skipped, then come digits; what follows is ignored. Without digits, or for a number that is no
  \<open>int\<close>, it throws, and nothing in \<open>main\<close> catches.\<close>

definition is_space :: "char \<Rightarrow> bool" where
  "is_space c \<longleftrightarrow> (of_char c :: nat) = 32 \<or> 9 \<le> (of_char c :: nat) \<and> (of_char c :: nat) \<le> 13"

definition split_sign :: "string \<Rightarrow> bool \<times> string" where
  "split_sign s =
     (case s of
        [] \<Rightarrow> (False, [])
      | c # rest \<Rightarrow> if c = CHR ''-'' then (True, rest) else if c = CHR ''+'' then (False, rest) else (False, s))"

definition stoi :: "string \<Rightarrow> int res" where
  "stoi s =
     (case split_sign (dropWhile is_space s) of (neg, rest) \<Rightarrow>
        let ds = takeWhile is_digit rest;
            v = (if neg then - int (digits_val ds) else int (digits_val ds))
        in if ds = [] \<or> v < - (2 ^ 31) \<or> 2 ^ 31 \<le> v then Inl Terminated else Inr v)"

text \<open>\<open>static_cast\<close> from \<open>int\<close> to \<open>uint16_t\<close> and to \<open>size_t\<close> take the value modulo the size of the type.\<close>

definition to_uint16 :: "int \<Rightarrow> 16 word" where
  "to_uint16 i = word_of_int i"

definition to_size_t :: "int \<Rightarrow> nat" where
  "to_size_t i = nat (i mod 2 ^ 64)"

definition server_args :: "string list \<Rightarrow> (16 word \<times> nat) res" where
  "server_args argv =
     rbind (if length argv \<ge> 2 then rmap to_uint16 (stoi (argv ! 1)) else Inr 12345) (\<lambda>port.
     rbind (if length argv \<ge> 3 then rmap to_size_t (stoi (argv ! 2)) else Inr 0) (\<lambda>thread_num.
       Inr (port, thread_num)))"

section \<open>Setting up the server\<close>

text \<open>The largest number of pointers a \<open>std::vector\<close> can hold; \<open>reserve\<close> in \<open>EventLoopThreadPool::Start\<close> throws beyond it.\<close>

definition vector_max_size :: nat where
  "vector_max_size = (2 ^ 63 - 1) div 8"

text \<open>The three lambdas are the callbacks 1, 2 and 3. \<open>listened\<close> is the address the acceptor gets when \<open>Listen\<close> succeeds.\<close>

definition echo_server ::
  "endian \<Rightarrow> thread_starter \<Rightarrow> inet_address option \<Rightarrow> 16 word \<Rightarrow> nat \<Rightarrow> server res" where
  "echo_server e start_thread listened port thread_num =
     (let s = TcpServer_ctor ''echo'' (InetAddress_port e port False AF_INET);
          s = SetThreadNum thread_num s;
          s = Srv_SetConnectionCallback (Some 1) s;
          s = Srv_SetMessageCallback (Some 2) s;
          s = Srv_SetHighWaterMarkCallback (Some 3) (64 * 1024) s
      in if sv_thread_num s > vector_max_size then Inl LengthError else TcpServer_Start True start_thread listened s)"

text \<open>The loop that waits for a port. The server is started already and nothing else changes its address, so the loop ends at its
  first test or never; then comes the line with the address and the number of threads.\<close>

definition announce :: "endian \<Rightarrow> nat \<Rightarrow> server \<Rightarrow> (16 word \<times> nat) res" where
  "announce e thread_num s =
     (if Port e (sv_listen_addr s) = 0 then Inl NoReturn else Inr (Port e (sv_listen_addr s), thread_num))"

definition example_tcp_server ::
  "endian \<Rightarrow> thread_starter \<Rightarrow> inet_address option \<Rightarrow> string list \<Rightarrow> (16 word \<times> nat \<times> server) res" where
  "example_tcp_server e start_thread listened argv =
     rbind (server_args argv) (\<lambda>(port, thread_num).
     rbind (echo_server e start_thread listened port thread_num) (\<lambda>s.
     rbind (announce e thread_num s) (\<lambda>(p, n).
       Inr (p, n, s))))"

section \<open>Facts\<close>

lemma digit_no_space: "is_digit c \<Longrightarrow> \<not> is_space c"
  by (auto simp: is_digit_def is_space_def)

lemma digit_no_sign: "is_digit c \<Longrightarrow> c \<noteq> CHR ''-'' \<and> c \<noteq> CHR ''+''"
  by (auto simp: is_digit_def)

lemma nat_digits_Cons: obtains c cs where "nat_digits n = c # cs" and "is_digit c"
proof -
  have "nat_digits n \<noteq> []" by (subst nat_digits.simps) simp
  then obtain c cs where "nat_digits n = c # cs" by (cases "nat_digits n") auto
  with nat_digits_are_digits [of n] that show ?thesis by simp
qed

lemma takeWhile_digits: "takeWhile is_digit (nat_digits n) = nat_digits n"
  using nat_digits_are_digits [of n] by (simp add: takeWhile_eq_all_conv list_all_iff)

text \<open>\<open>stoi\<close> reads back what \<open>std::format\<close> prints.\<close>

lemma stoi_int_digits:
  assumes "- (2 ^ 31) \<le> v" and "v < 2 ^ 31"
  shows "stoi (int_digits v) = Inr v"
proof -
  obtain c cs where c: "nat_digits (nat \<bar>v\<bar>) = c # cs" "is_digit c" by (rule nat_digits_Cons)
  have "split_sign (dropWhile is_space (int_digits v)) = (v < 0, nat_digits (nat \<bar>v\<bar>))"
  proof (cases "v < 0")
    case True
    have "\<not> is_space (CHR ''-'')" by (simp add: is_space_def)
    then show ?thesis using True by (simp add: int_digits_def split_sign_def)
  next
    case False
    then show ?thesis using c digit_no_space [OF c(2)] digit_no_sign [OF c(2)] by (simp add: int_digits_def split_sign_def)
  qed
  then show ?thesis
    using assms c(1) takeWhile_digits [of "nat \<bar>v\<bar>"] nat_digits_val [of "nat \<bar>v\<bar>"] by (simp add: stoi_def Let_def)
qed

lemma negative_size_t:
  assumes "v < 0" and "- (2 ^ 31) \<le> v"
  shows "vector_max_size < to_size_t v"
proof -
  have "(v + 2 ^ 64) mod 2 ^ 64 = v + 2 ^ 64" using assms by (intro mod_pos_pos_trivial) simp_all
  then have "v mod 2 ^ 64 = v + 2 ^ 64" by simp
  then show ?thesis using assms by (simp add: to_size_t_def vector_max_size_def)
qed

lemma small_size_t: "0 \<le> v \<Longrightarrow> v < 2 ^ 31 \<Longrightarrow> to_size_t v = nat v \<and> \<not> vector_max_size < nat v"
  by (simp add: to_size_t_def vector_max_size_def)

lemma any_port: "Port e (InetAddress_port e port False AF_INET) = port"
  by (simp add: Port_def Family_def InetAddress_port_def Let_def set_bytes_def ss_family_later ResetToAny_facts port_bytes)

lemma echo_server_runs:
  assumes "\<not> vector_max_size < n"
  shows "\<exists>s. echo_server e start_thread listened port n = Inr s \<and> (sv_started s \<longleftrightarrow> listened \<noteq> None)
    \<and> sv_listen_addr s = (case listened of None \<Rightarrow> InetAddress_port e port False AF_INET | Some addr \<Rightarrow> addr)
    \<and> (sv_pool s = None \<longleftrightarrow> n = 0)"
  using assms
  by (cases listened)
    (simp_all add: echo_server_def Let_def TcpServer_Start_def StartInLoop_def start_pool_def TcpServer_ctor_def SetThreadNum_def
      Srv_SetConnectionCallback_def Srv_SetMessageCallback_def Srv_SetHighWaterMarkCallback_def)

lemma echo_server_started:
  assumes "\<not> vector_max_size < n"
  obtains s where "echo_server e start_thread listened port n = Inr s" and "sv_started s \<longleftrightarrow> listened \<noteq> None"
    and "sv_listen_addr s = (case listened of None \<Rightarrow> InetAddress_port e port False AF_INET | Some addr \<Rightarrow> addr)"
    and "sv_pool s = None \<longleftrightarrow> n = 0"
  using echo_server_runs [OF assms, of e start_thread listened port] that by (elim exE conjE) (rule that)

lemma echo_server_overflow:
  "vector_max_size < n \<Longrightarrow> echo_server e start_thread listened port n = Inl LengthError"
  by (simp add: echo_server_def Let_def TcpServer_ctor_def SetThreadNum_def Srv_SetConnectionCallback_def
      Srv_SetMessageCallback_def Srv_SetHighWaterMarkCallback_def)

lemma server_args_digits:
  assumes "0 \<le> p" and "p < 2 ^ 31" and "- (2 ^ 31) \<le> k" and "k < 2 ^ 31"
  shows "server_args [prog, int_digits p, int_digits k] = Inr (to_uint16 p, to_size_t k)"
  using assms stoi_int_digits [of p] stoi_int_digits [of k] by (simp add: server_args_def)

section \<open>Property\<close>



end
