(* ===== verification/Loop_Example.thy ===== *)
theory Loop_Example
  imports Event_Loop
begin

text \<open>
  The program \<open>examples/example_event_loop.cpp\<close>: a loop in the main thread, a thread that queues a functor and a thread that quits the loop. The
  steps of the loop are those of \<open>Event_Loop\<close>; the functors count and print.
\<close>

section \<open>The program\<close>

text \<open>\<open>qd_worked\<close> and \<open>qd_stopped\<close>: the threads \<open>worker\<close> and \<open>stopper\<close> have made their call. The functor of \<open>worker\<close> is the only one ever
  queued, so it needs no name; it asks nothing of the loop.\<close>

record quit_demo =
  qd_loop :: "unit loop_state"
  qd_worked :: bool
  qd_stopped :: bool

definition quit_demo_init :: quit_demo where
  "quit_demo_init = \<lparr>qd_loop = loop_init, qd_worked = False, qd_stopped = False\<rparr>"

text \<open>The variable \<open>counter\<close>: the functor given to \<open>RunInLoop\<close> in the loop thread has run at once, then every functor taken out of the queue
  adds one.\<close>

definition demo_counter :: "quit_demo \<Rightarrow> nat" where
  "demo_counter s = 1 + length (executed (qd_loop s))"

datatype quit_ev = QdLoop | QdWork | QdStop | QdWakeup

text \<open>There is no channel but the loop's own, and no timer.\<close>

inductive quit_step :: "quit_demo \<Rightarrow> quit_ev \<Rightarrow> quit_demo \<Rightarrow> bool" where
  qd_loop: "loop_step (\<lambda>_. []) (qd_loop s) LoopThread l \<Longrightarrow> (\<forall>hs. loop_pc l = Handling hs \<longrightarrow> set hs \<subseteq> {WakeupRead}) \<Longrightarrow>
    quit_step s QdLoop (s\<lparr>qd_loop := l\<rparr>)"
| qd_work: "\<not> qd_worked s \<Longrightarrow> quit_step s QdWork (s\<lparr>qd_loop := QueueInLoop False () (qd_loop s), qd_worked := True\<rparr>)"
| qd_stop: "\<not> qd_stopped s \<Longrightarrow> quit_step s QdStop (s\<lparr>qd_loop := Quit False (qd_loop s), qd_stopped := True\<rparr>)"
| qd_wakeup: "0 < wakeups_due (qd_loop s) \<Longrightarrow>
    quit_step s QdWakeup (s\<lparr>qd_loop := Wakeup ((qd_loop s)\<lparr>wakeups_due := wakeups_due (qd_loop s) - 1\<rparr>)\<rparr>)"

section \<open>Invariants\<close>

text \<open>The steps of a loop whose functors and handlers ask nothing of it.\<close>

definition quiet_pc :: "unit loop_pc \<Rightarrow> bool" where
  "quiet_pc pc \<longleftrightarrow> (case pc of Handling hs \<Rightarrow> set hs \<subseteq> {WakeupRead} | Running acts fs \<Rightarrow> acts = [] | _ \<Rightarrow> True)"

definition before_swap :: "unit loop_pc \<Rightarrow> bool" where
  "before_swap pc \<longleftrightarrow> (case pc of Running _ _ \<Rightarrow> False | CheckQuit \<Rightarrow> False | LoopDone \<Rightarrow> False | _ \<Rightarrow> True)"

lemma quiet_step:
  assumes "loop_step (\<lambda>_. []) l LoopThread l'" and "quiet_pc (loop_pc l)" and "\<forall>hs. loop_pc l' = Handling hs \<longrightarrow> set hs \<subseteq> {WakeupRead}"
  shows "quiet_pc (loop_pc l') \<and> submitted l' = submitted l \<and> m_quit l' = m_quit l
    \<and> (m_pending_functors l' = m_pending_functors l \<and> (before_swap (loop_pc l) \<longrightarrow> before_swap (loop_pc l')) \<and> loop_pc l' \<noteq> LoopDone
       \<or> m_pending_functors l' = [] \<or> \<not> before_swap (loop_pc l) \<and> m_pending_functors l' = m_pending_functors l \<and> m_quit l)"
  using assms by (cases) (auto simp: quiet_pc_def before_swap_def loop_op_defs)

definition quit_inv :: "quit_demo \<Rightarrow> bool" where
  "quit_inv s \<longleftrightarrow> fifo_inv (qd_loop s) \<and> quiet_pc (loop_pc (qd_loop s))
     \<and> submitted (qd_loop s) = (if qd_worked s then [()] else []) \<and> (m_quit (qd_loop s) \<longleftrightarrow> qd_stopped s)
     \<and> (loop_pc (qd_loop s) = LoopDone \<longrightarrow> qd_stopped s)"

lemma quit_inv_step:
  assumes "quit_step s ev s'" and "quit_inv s"
  shows "quit_inv s'"
  using assms(1)
proof cases
  case (qd_loop l)
  have "fifo_inv l" using fifo_step [OF qd_loop(3)] assms(2) by (simp add: quit_inv_def)
  moreover have "loop_pc l = LoopDone \<longrightarrow> m_quit (Loop_Example.qd_loop s)"
    using qd_loop(3) by cases (auto simp: loop_op_defs)
  ultimately show ?thesis
    using quiet_step [OF qd_loop(3) _ qd_loop(4)] assms(2) qd_loop(2) by (auto simp: quit_inv_def)
qed (use assms(2) in \<open>auto simp: quit_inv_def fifo_inv_def loop_op_defs\<close>)

lemma quit_init_inv: "quit_inv quit_demo_init"
  using loop_init_inv(2) by (simp add: quit_demo_init_def quit_inv_def quiet_pc_def loop_init_def)

lemma quit_path_inv:
  assumes "ev_path quit_step quit_demo_init es s"
  shows "quit_inv s"
  using assms quit_init_inv by (rule ev_path_invariant) (rule quit_inv_step)

text \<open>Once the functor has been queued before a swap of the queue, it is not left behind.\<close>

definition in_time :: "quit_demo \<Rightarrow> bool" where
  "in_time s \<longleftrightarrow> quit_inv s \<and> qd_worked s \<and> (before_swap (loop_pc (qd_loop s)) \<or> m_pending_functors (qd_loop s) = [])"

lemma in_time_step:
  assumes "quit_step s ev s'" and "in_time s"
  shows "in_time s'"
proof -
  have inv: "quit_inv s" and "quit_inv s'" using assms quit_inv_step by (auto simp: in_time_def)
  from assms(1) have "qd_worked s' \<and> (before_swap (loop_pc (qd_loop s')) \<or> m_pending_functors (qd_loop s') = [])"
  proof cases
    case (qd_loop l)
    with quiet_step [OF qd_loop(3) _ qd_loop(4)] inv assms(2) show ?thesis by (auto simp: in_time_def quit_inv_def)
  qed (use assms(2) in \<open>auto simp: in_time_def loop_op_defs\<close>)
  with \<open>quit_inv s'\<close> show ?thesis by (simp add: in_time_def)
qed

lemma counter_at_end:
  assumes "quit_inv s" and "loop_pc (qd_loop s) = LoopDone" and "qd_worked s"
  shows "qd_stopped s" and "m_pending_functors (qd_loop s) = [] \<Longrightarrow> demo_counter s = 2"
    and "m_pending_functors (qd_loop s) \<noteq> [] \<Longrightarrow> demo_counter s = 1"
proof -
  have "fifo_inv (qd_loop s)" "submitted (qd_loop s) = (if qd_worked s then [()] else [])"
    and st: "loop_pc (qd_loop s) = LoopDone \<longrightarrow> qd_stopped s"
    using assms(1) unfolding quit_inv_def by blast+
  then have "length (executed (qd_loop s)) + length (m_pending_functors (qd_loop s)) = length [()]"
    using assms(2,3) by (simp only: fifo_inv_def unstarted_def loop_pc.case if_True append_Nil length_append [symmetric])
  then show "m_pending_functors (qd_loop s) = [] \<Longrightarrow> demo_counter s = 2" "m_pending_functors (qd_loop s) \<noteq> [] \<Longrightarrow> demo_counter s = 1"
    by (cases "m_pending_functors (qd_loop s)"; simp add: demo_counter_def)+
  show "qd_stopped s" using st assms(2) by blast
qed

text \<open>A run in which the functor is queued after the last swap, though before \<open>Quit\<close>.\<close>

definition late_run :: "quit_ev list" where
  "late_run = [QdLoop, QdLoop, QdLoop, QdLoop, QdLoop, QdLoop, QdWork, QdStop, QdLoop]"

lemma late_run_loses:
  "\<exists>s. ev_path quit_step quit_demo_init late_run s \<and> loop_pc (qd_loop s) = LoopDone \<and> qd_worked s \<and> demo_counter s = 1"
proof -
  let ?at = "\<lambda>pc. quit_demo_init\<lparr>qd_loop := loop_init\<lparr>m_looping := True, loop_pc := pc\<rparr>\<rparr>"
  let ?l1 = "QueueInLoop False () (loop_init\<lparr>m_looping := True, loop_pc := CheckQuit\<rparr>)"
  let ?l2 = "Quit False ?l1"
  let ?fin = "\<lparr>qd_loop = ?l2\<lparr>m_looping := False, loop_pc := LoopDone\<rparr>, qd_worked = True, qd_stopped = True\<rparr>"
  note init = quit_demo_init_def loop_init_def
  have 1: "quit_step quit_demo_init QdLoop (?at LoopTop)"
    using qd_loop [of quit_demo_init, OF ls_enter] by (simp add: init)
  have 2: "quit_step (?at LoopTop) QdLoop (?at InPoll)"
    using qd_loop [of "?at LoopTop", OF ls_poll] by (simp add: init)
  have 3: "quit_step (?at InPoll) QdLoop (?at (Handling [])\<lparr>qd_loop := (qd_loop (?at (Handling [])))\<lparr>m_event_handling := True\<rparr>\<rparr>)"
    using qd_loop [of "?at InPoll", OF ls_polled [of _ "[]"]] by (simp add: init)
  have 4: "quit_step (?at (Handling [])\<lparr>qd_loop := (qd_loop (?at (Handling [])))\<lparr>m_event_handling := True\<rparr>\<rparr>) QdLoop (?at BeforeSwap)"
    using qd_loop [of "?at (Handling [])\<lparr>qd_loop := (qd_loop (?at (Handling [])))\<lparr>m_event_handling := True\<rparr>\<rparr>", OF ls_handled]
    by (simp add: init)
  have 5: "quit_step (?at BeforeSwap) QdLoop (?at (Running [] [])\<lparr>qd_loop := (qd_loop (?at (Running [] [])))\<lparr>m_calling_pending_functors := True\<rparr>\<rparr>)"
    using qd_loop [of "?at BeforeSwap", OF ls_swap] by (simp add: init swap_functors_def)
  have 6: "quit_step (?at (Running [] [])\<lparr>qd_loop := (qd_loop (?at (Running [] [])))\<lparr>m_calling_pending_functors := True\<rparr>\<rparr>) QdLoop (?at CheckQuit)"
    using qd_loop [of "?at (Running [] [])\<lparr>qd_loop := (qd_loop (?at (Running [] [])))\<lparr>m_calling_pending_functors := True\<rparr>\<rparr>", OF ls_ran]
    by (simp add: init)
  have 7: "quit_step (?at CheckQuit) QdWork \<lparr>qd_loop = ?l1, qd_worked = True, qd_stopped = False\<rparr>"
    using qd_work [of "?at CheckQuit"] by (simp add: init)
  have 8: "quit_step \<lparr>qd_loop = ?l1, qd_worked = True, qd_stopped = False\<rparr> QdStop \<lparr>qd_loop = ?l2, qd_worked = True, qd_stopped = True\<rparr>"
    using qd_stop [of "\<lparr>qd_loop = ?l1, qd_worked = True, qd_stopped = False\<rparr>"] by simp
  have 9: "quit_step \<lparr>qd_loop = ?l2, qd_worked = True, qd_stopped = True\<rparr> QdLoop ?fin"
    using qd_loop [of "\<lparr>qd_loop = ?l2, qd_worked = True, qd_stopped = True\<rparr>", OF ls_leave] by (simp add: loop_op_defs init)
  note run = ev_path_Cons [of quit_step]
  have "ev_path quit_step quit_demo_init late_run ?fin" unfolding late_run_def
    by (intro run [OF 1] run [OF 2] run [OF 3] run [OF 4] run [OF 5] run [OF 6] run [OF 7] run [OF 8] run [OF 9] ev_nil)
  moreover have "loop_pc (qd_loop ?fin) = LoopDone \<and> qd_worked ?fin \<and> demo_counter ?fin = 1"
    by (simp add: demo_counter_def loop_op_defs init)
  ultimately show ?thesis by blast
qed

section \<open>Property\<close>



end
