(* ===== verification/Tick_Example.thy ===== *)
theory Tick_Example
  imports Timer_Queue
begin

text \<open>
  The loop side of \<open>examples/example_event_loop_thread.cpp\<close> and \<open>examples/example_event_loop_thread_pool.cpp\<close>: a functor starts a timer that ticks every half
  second, at once or when a one-shot timer fires, and the ticks are counted. A round is one call of \<open>HandleRead\<close> of the timer queue; the clock readings
  are arguments.
\<close>

section \<open>The programs\<close>

text \<open>The lambda of \<open>RunEvery\<close> counts; that of \<open>RunAfter\<close>, in the pool example, calls \<open>RunEvery\<close>.\<close>

datatype tick_lambda = CountTick | StartTicks

text \<open>The clock in one round: as \<open>HandleRead\<close> and \<open>SetTimerFd\<close> read it, and as \<open>RunEvery\<close> and the \<open>SetTimerFd\<close> in it do.\<close>

record tick_round =
  tr_now :: int
  tr_rearm :: int
  tr_every :: int
  tr_every_rearm :: int

definition tick_call :: "tick_round \<Rightarrow> tick_lambda \<Rightarrow> nat \<Rightarrow> tick_lambda timer_queue \<Rightarrow> (nat \<times> tick_lambda timer_queue) res" where
  "tick_call r cb n q =
     (case cb of
        CountTick \<Rightarrow> Inr (n + 1, q)
      | StartTicks \<Rightarrow> rmap (\<lambda>(_, q'). (n, q')) (RunEvery (tr_every r) (tr_every_rearm r) 500 (Some CountTick) q))"

text \<open>\<open>None\<close> is a round that does not end.\<close>

fun tick_rounds :: "tick_round list \<Rightarrow> nat \<Rightarrow> tick_lambda timer_queue \<Rightarrow> (nat \<times> tick_lambda timer_queue) res option" where
  "tick_rounds [] n q = Some (Inr (n, q))"
| "tick_rounds (r # rs) n q =
     (case TimerQueue_HandleRead (tick_call r) (tr_now r) (tr_rearm r) n q of
        None \<Rightarrow> None
      | Some (Inl e) \<Rightarrow> Some (Inl e)
      | Some (Inr (n', q')) \<Rightarrow> tick_rounds rs n' q')"

text \<open>The functor of the first program, and that of loop \<open>i\<close> in the second one, on the timer queue of a new loop; then the rounds up to \<open>Stop\<close>.\<close>

definition thread_ticks :: "int \<Rightarrow> int \<Rightarrow> int \<Rightarrow> tick_round list \<Rightarrow> (nat \<times> tick_lambda timer_queue) res option" where
  "thread_ticks fd b b' rs =
     (case RunEvery b b' 500 (Some CountTick) (TimerQueue_init fd) of
        Inl e \<Rightarrow> Some (Inl e)
      | Inr (_, q) \<Rightarrow> tick_rounds rs 0 q)"

definition pool_loop_ticks :: "int \<Rightarrow> nat \<Rightarrow> int \<Rightarrow> int \<Rightarrow> tick_round list \<Rightarrow> (nat \<times> tick_lambda timer_queue) res option" where
  "pool_loop_ticks fd i a a' rs =
     (case RunAfter a a' (int i * 100) (Some StartTicks) (TimerQueue_init fd) of
        Inl e \<Rightarrow> Some (Inl e)
      | Inr (_, q) \<Rightarrow> tick_rounds rs 0 q)"

section \<open>A ticking queue\<close>

abbreviation half_second :: int where "half_second \<equiv> 500 * ns_per_ms"

text \<open>The only timer was started at \<open>b\<close> and has ticked \<open>c\<close> times.\<close>

definition ticking :: "int \<Rightarrow> int \<Rightarrow> int \<Rightarrow> nat \<Rightarrow> tick_lambda timer_queue \<Rightarrow> bool" where
  "ticking fd tid b c q \<longleftrightarrow> m_timer_fd q = fd
     \<and> m_timers q = [tid \<mapsto> \<lparr>entry_id = tid, expiration = b + (int c + 1) * half_second, interval = 500, callback = Some CountTick\<rparr>]
     \<and> m_active_timers q = [(b + (int c + 1) * half_second, tid)]"

definition in_range :: "int \<Rightarrow> bool" where
  "in_range t \<longleftrightarrow> 0 \<le> t \<and> t < 2 ^ 62"

lemma tick_once:
  assumes "ticking fd tid b c q" and "b + (int c + 1) * half_second \<le> now" and "0 \<le> b" and "in_range now"
  shows "\<exists>q'. process_loop (tick_call r) now n q = process_loop (tick_call r) now (n + 1) q' \<and> ticking fd tid b (Suc c) q'"
proof -
  let ?e = "\<lparr>entry_id = tid, expiration = b + (int c + 1) * half_second, interval = 500, callback = Some CountTick\<rparr>"
  let ?t = "b + (int (Suc c) + 1) * half_second"
  let ?q = "q\<lparr>m_timers := [tid \<mapsto> ?e\<lparr>expiration := ?t\<rparr>], m_active_timers := [(?t, tid)]\<rparr>"
  have "b + (int c + 1) * half_second + half_second = ?t" by (simp add: algebra_simps)
  moreover have "int64_ok ?t" using assms(2-4) by (simp add: int64_ok_def in_range_def algebra_simps)
  ultimately have "time_add_ms (b + (int c + 1) * half_second) 500 = Inr ?t"
    by (simp add: time_add_ms_def int64_ok_def)
  then have "fire_timer (tick_call r) tid ?e n (q\<lparr>m_active_timers := []\<rparr>) = Inr (n + 1, ?q)"
    using assms(1) by (simp add: fire_timer_def tick_call_def ticking_def set_emplace_def insort_insert_key_def)
  then have "process_loop (tick_call r) now n q = process_loop (tick_call r) now (n + 1) ?q"
    using assms(1,2) by (intro process_loop_step) (auto simp: ticking_def)
  moreover have "ticking fd tid b (Suc c) ?q" using assms(1) by (simp add: ticking_def)
  ultimately show ?thesis by blast
qed

text \<open>The number of whole half seconds from \<open>b\<close> to \<open>now\<close>.\<close>

definition halves :: "int \<Rightarrow> int \<Rightarrow> nat" where
  "halves b now = nat ((now - b) div half_second)"

lemma le_div_iff_mult:
  fixes x y d :: int
  assumes "0 < d"
  shows "x \<le> y div d \<longleftrightarrow> x * d \<le> y"
proof
  assume "x \<le> y div d"
  then have "x * d \<le> y div d * d" using assms by (intro mult_right_mono) simp_all
  also have "\<dots> \<le> y" using minus_mod_eq_div_mult [of y d, symmetric] pos_mod_sign [OF assms, of y] by linarith
  finally show "x * d \<le> y" .
next
  assume "x * d \<le> y"
  then have "x * d div d \<le> y div d" using assms by (rule zdiv_mono1)
  then show "x \<le> y div d" using assms by simp
qed

lemma halves_due: "b + (int c + 1) * half_second \<le> now \<longleftrightarrow> Suc c \<le> halves b now"
proof -
  have "b + (int c + 1) * half_second \<le> now \<longleftrightarrow> int c + 1 \<le> (now - b) div half_second"
    by (simp add: le_div_iff_mult algebra_simps)
  then show ?thesis by (auto simp: halves_def)
qed

lemma ticks_run:
  assumes "ticking fd tid b c q" and "0 \<le> b" and "in_range now"
  shows "\<exists>q'. process_loop (tick_call r) now n q = Some (Inr (n + (max c (halves b now) - c), q'))
    \<and> ticking fd tid b (max c (halves b now)) q'"
  using assms(1)
proof (induction "halves b now - c" arbitrary: c n q)
  case 0
  then have "\<not> b + (int c + 1) * half_second \<le> now" using halves_due [of b c now] by simp
  then have "process_loop (tick_call r) now n q = Some (Inr (n, q))"
    using 0(2) by (intro process_loop_done) (simp add: ticking_def)
  moreover have "max c (halves b now) = c" using 0(1) by simp
  ultimately show ?case using 0(2) by simp
next
  case (Suc d)
  then have "Suc c \<le> halves b now" by simp
  with halves_due have due: "b + (int c + 1) * half_second \<le> now" by blast
  from tick_once [OF Suc.prems due assms(2,3), of r n] obtain q1 where
    q1: "process_loop (tick_call r) now n q = process_loop (tick_call r) now (n + 1) q1" "ticking fd tid b (Suc c) q1" by blast
  have m: "max (Suc c) (halves b now) = halves b now" "max c (halves b now) = halves b now" using \<open>Suc c \<le> halves b now\<close> by simp_all
  have "d = halves b now - Suc c" using Suc.hyps(2) by simp
  moreover have "n + 1 + (halves b now - Suc c) = n + (halves b now - c)" using \<open>Suc c \<le> halves b now\<close> by simp
  ultimately show ?case unfolding q1(1) m using Suc.hyps(1) [OF _ q1(2), of "n + 1"] unfolding m by metis
qed

lemma ticking_rearmed:
  assumes "ticking fd tid b c q" and "int64_ok (b + (int c + 1) * half_second - now')"
  shows "\<exists>q'. rearm_or_disarm now' q = Inr q' \<and> ticking fd tid b c q'"
proof -
  have "\<exists>q'. rearm_or_disarm now' q = Inr q'" using assms by (intro rearm_total) (auto simp: ticking_def)
  then obtain q' where q': "rearm_or_disarm now' q = Inr q'" by blast
  then obtain s where "q' = q\<lparr>timer_spec := s\<rparr>" by (rule rearm_armed)
  then show ?thesis using q' assms(1) by (simp add: ticking_def)
qed

lemma next_tick_in_range:
  assumes "in_range b" and "in_range M" and "c \<le> halves b M" and "in_range now'"
  shows "int64_ok (b + (int c + 1) * half_second - now')"
proof -
  have "b + int c * half_second \<le> b \<or> b + int c * half_second \<le> M"
    using assms(3) halves_due [of b "c - 1" M] by (cases c) (simp_all add: algebra_simps)
  then have "b + int c * half_second < 2 ^ 62" using assms(1,2) by (auto simp: in_range_def)
  moreover have "0 \<le> b + int c * half_second" using assms(1) by (simp add: in_range_def)
  ultimately show ?thesis using assms(4) by (simp add: int64_ok_def in_range_def algebra_simps)
qed

lemma halves_mono: "M \<le> now \<Longrightarrow> halves b M \<le> halves b now"
  unfolding halves_def by (intro nat_mono zdiv_mono1) simp_all

lemma halves_max: "max (halves b M) (halves b now) = halves b (max M now)"
  using halves_mono [of M now b] halves_mono [of now M b] by (cases "M \<le> now") (simp_all add: max_def)

definition round_in_range :: "tick_round \<Rightarrow> bool" where
  "round_in_range r \<longleftrightarrow> in_range (tr_now r) \<and> in_range (tr_rearm r) \<and> in_range (tr_every r) \<and> in_range (tr_every_rearm r)"

lemma tick_round_run:
  assumes "ticking fd tid b (halves b M) q" and "0 \<le> fd" and "in_range b" and "in_range M" and "round_in_range r"
  shows "\<exists>q'. TimerQueue_HandleRead (tick_call r) (tr_now r) (tr_rearm r) (halves b M) q = Some (Inr (halves b (max M (tr_now r)), q'))
    \<and> ticking fd tid b (halves b (max M (tr_now r))) q'"
proof -
  have b: "0 \<le> b" "in_range (tr_now r)" "in_range (tr_rearm r)" using assms(3,5) by (auto simp: in_range_def round_in_range_def)
  from ticks_run [OF assms(1) b(1,2), of r "halves b M"] obtain q1 where
    q1: "process_loop (tick_call r) (tr_now r) (halves b M) q = Some (Inr (halves b (max M (tr_now r)), q1))"
    "ticking fd tid b (halves b (max M (tr_now r))) q1"
    using halves_mono [of M "max M (tr_now r)" b] by (auto simp: halves_max)
  have "in_range (max M (tr_now r))" using assms(4) b(2) by (simp add: max_def)
  from ticking_rearmed [OF q1(2) next_tick_in_range [OF assms(3) this le_refl b(3)]] obtain q' where
    "rearm_or_disarm (tr_rearm r) q1 = Inr q'" "ticking fd tid b (halves b (max M (tr_now r))) q'" by blast
  moreover have "0 \<le> m_timer_fd q" using assms(1,2) by (simp add: ticking_def)
  ultimately show ?thesis using HandleRead_process [OF _ q1(1)] by blast
qed

lemma tick_rounds_run:
  assumes "ticking fd tid b (halves b M) q" and "0 \<le> fd" and "in_range b" and "in_range M" and "list_all round_in_range rs"
  shows "\<exists>q'. tick_rounds rs (halves b M) q = Some (Inr (halves b (fold max (map tr_now rs) M), q'))"
  using assms(1,4,5)
proof (induction rs arbitrary: M q)
  case (Cons r rs)
  from tick_round_run [OF Cons.prems(1) assms(2,3) Cons.prems(2), of r] Cons.prems(3) obtain q1 where
    q1: "TimerQueue_HandleRead (tick_call r) (tr_now r) (tr_rearm r) (halves b M) q = Some (Inr (halves b (max M (tr_now r)), q1))"
    "ticking fd tid b (halves b (max M (tr_now r))) q1" by auto
  have "in_range (max M (tr_now r))" using Cons.prems(2,3) by (simp add: max_def round_in_range_def)
  from Cons.IH [OF q1(2) this] Cons.prems(3) show ?case using q1(1) by (simp add: max.commute)
qed simp

section \<open>The counts\<close>

lemma halves_start: "halves b b = 0"
  by (simp add: halves_def)

lemma start_ticking:
  assumes "timers_inv X q" and "m_active_timers q = []" and "in_range b" and "in_range b'" and "int64_ok (m_next_id q + 1)"
  shows "\<exists>q'. RunEvery b b' 500 (Some CountTick) q = Inr (m_next_id q, q')
    \<and> filed X b' \<lparr>entry_id = m_next_id q, expiration = b + half_second, interval = 500, callback = Some CountTick\<rparr> q (m_next_id q) q'"
  using RunEvery_ok [OF assms(1), of 500 b b' "Some CountTick"] assms(2-5) by (simp add: int64_ok_def in_range_def)

text \<open>The first program counts the half seconds that are over when the timer queue last looked at the clock: one tick for each, however late the
  rounds come and however many ticks one round has to catch up on.\<close>

theorem thread_ticks_count:
  assumes "0 \<le> fd" and "in_range b" and "in_range b'" and "list_all round_in_range rs"
  shows "\<exists>q. thread_ticks fd b b' rs = Some (Inr (halves b (fold max (map tr_now rs) b), q))"
proof -
  let ?q0 = "TimerQueue_init fd :: tick_lambda timer_queue"
  have q0: "timers_inv {} ?q0" "m_active_timers ?q0 = []" "m_next_id ?q0 = 1" "m_timer_fd ?q0 = fd" "m_timers ?q0 = Map.empty"
    by (simp_all add: TimerQueue_init_def timers_inv_def)
  from start_ticking [OF q0(1,2) assms(2,3)] q0(3) obtain q where
    q: "RunEvery b b' 500 (Some CountTick) ?q0 = Inr (1, q)"
    "filed {} b' \<lparr>entry_id = 1, expiration = b + half_second, interval = 500, callback = Some CountTick\<rparr> ?q0 1 q"
    by (auto simp: int64_ok_def)
  have "ticking fd 1 b (halves b b) q" using q(2) q0 by (simp add: filed_def ticking_def halves_start set_emplace_def insort_insert_key_def)
  from tick_rounds_run [OF this assms(1,2,2,4)] show ?thesis using q(1) by (simp add: thread_ticks_def halves_start)
qed

text \<open>In the second program the queue first holds the one-shot timer, due at \<open>d\<close>.\<close>

definition waiting :: "int \<Rightarrow> int \<Rightarrow> tick_lambda timer_queue \<Rightarrow> bool" where
  "waiting fd d q \<longleftrightarrow> m_timer_fd q = fd \<and> m_next_id q = 2
     \<and> m_timers q = [1 \<mapsto> \<lparr>entry_id = 1, expiration = d, interval = 0, callback = Some StartTicks\<rparr>] \<and> m_active_timers q = [(d, 1)]"

lemma early_round:
  assumes "waiting fd d q" and "0 \<le> fd" and "in_range d" and "round_in_range r" and "tr_now r < d"
  shows "\<exists>q'. TimerQueue_HandleRead (tick_call r) (tr_now r) (tr_rearm r) n q = Some (Inr (n, q')) \<and> waiting fd d q'"
proof -
  have "process_loop (tick_call r) (tr_now r) n q = Some (Inr (n, q))"
    using assms(1,5) by (intro process_loop_done) (simp add: waiting_def)
  moreover have "\<exists>q'. rearm_or_disarm (tr_rearm r) q = Inr q'"
    using assms(1,3,4) by (intro rearm_total) (simp add: waiting_def in_range_def round_in_range_def int64_ok_def)
  then obtain q' where "rearm_or_disarm (tr_rearm r) q = Inr q'" by blast
  moreover from this obtain s where "q' = q\<lparr>timer_spec := s\<rparr>" by (rule rearm_armed)
  ultimately show ?thesis using HandleRead_process assms(1,2) by (fastforce simp: waiting_def)
qed

lemma early_rounds:
  assumes "waiting fd d q" and "0 \<le> fd" and "in_range d" and "\<forall>r \<in> set early. round_in_range r \<and> tr_now r < d"
  shows "\<exists>q'. waiting fd d q' \<and> (\<forall>rs. tick_rounds (early @ rs) n q = tick_rounds rs n q')"
  using assms(1,4)
proof (induction early arbitrary: q)
  case (Cons r early)
  then obtain q1 where q1: "TimerQueue_HandleRead (tick_call r) (tr_now r) (tr_rearm r) n q = Some (Inr (n, q1))" "waiting fd d q1"
    using early_round [OF Cons.prems(1) assms(2,3), of r n] by auto
  from Cons.IH [OF q1(2)] Cons.prems(2) show ?case using q1(1) by simp
qed auto

text \<open>When the one-shot timer fires, its lambda files the periodic timer before its own entry is erased.\<close>

lemma start_fires:
  assumes "waiting fd d q" and "d \<le> tr_now r" and "round_in_range r"
  shows "\<exists>q'. process_loop (tick_call r) (tr_now r) n q = process_loop (tick_call r) (tr_now r) n q' \<and> ticking fd 2 (tr_every r) 0 q'"
proof -
  let ?e = "\<lparr>entry_id = 1, expiration = d, interval = 0, callback = Some StartTicks\<rparr>"
  let ?q = "q\<lparr>m_active_timers := []\<rparr>"
  have "timers_inv {1} ?q" using assms(1) by (simp add: timers_inv_def waiting_def)
  from start_ticking [OF this] assms(1,3) obtain q1 where
    q1: "RunEvery (tr_every r) (tr_every_rearm r) 500 (Some CountTick) ?q = Inr (2, q1)"
    "filed {1} (tr_every_rearm r) \<lparr>entry_id = 2, expiration = tr_every r + half_second, interval = 500, callback = Some CountTick\<rparr> ?q 2 q1"
    by (auto simp: waiting_def round_in_range_def int64_ok_def)
  let ?q' = "q1\<lparr>m_timers := (m_timers q1)(1 := None)\<rparr>"
  have "m_timers q1 1 = Some ?e" using q1(2) assms(1) by (simp add: filed_def waiting_def)
  then have "fire_timer (tick_call r) 1 ?e n ?q = Inr (n, ?q')" using q1(1) by (simp add: fire_timer_def tick_call_def rmap_def)
  then have "process_loop (tick_call r) (tr_now r) n q = process_loop (tick_call r) (tr_now r) n ?q'"
    using assms(1,2) by (intro process_loop_step) (auto simp: waiting_def)
  moreover have "ticking fd 2 (tr_every r) 0 ?q'"
    using q1(2) assms(1) by (auto simp: filed_def waiting_def ticking_def set_emplace_def insort_insert_key_def)
  ultimately show ?thesis by blast
qed

lemma process_start:
  assumes "waiting fd d q" and "process_loop call now n q = process_loop call now n q'" and "ticking fd t b c q'" and "0 \<le> fd"
  shows "TimerQueue_HandleRead call now now' n q = TimerQueue_HandleRead call now now' n q'"
  using assms by (simp add: TimerQueue_HandleRead_def ProcessExpiredTimers_def waiting_def ticking_def)

lemma waiting_started:
  assumes "in_range (a + int i * 100 * ns_per_ms)" and "in_range a" and "in_range a'"
  shows "\<exists>q. pool_loop_ticks fd i a a' rs = tick_rounds rs 0 q \<and> waiting fd (a + int i * 100 * ns_per_ms) q"
proof -
  let ?q0 = "TimerQueue_init fd :: tick_lambda timer_queue"
  have q0: "timers_inv {} ?q0" "m_active_timers ?q0 = []" "m_next_id ?q0 = 1" "m_timer_fd ?q0 = fd" "m_timers ?q0 = Map.empty"
    by (simp_all add: TimerQueue_init_def timers_inv_def)
  from RunAfter_ok [OF q0(1), of "int i * 100" a a' "Some StartTicks"] q0(2,3) assms obtain q where
    q: "RunAfter a a' (int i * 100) (Some StartTicks) ?q0 = Inr (1, q)"
    "filed {} a' \<lparr>entry_id = 1, expiration = a + int i * 100 * ns_per_ms, interval = 0, callback = Some StartTicks\<rparr> ?q0 1 q"
    by (auto simp: int64_ok_def in_range_def)
  have "waiting fd (a + int i * 100 * ns_per_ms) q" using q(2) q0 by (simp add: filed_def waiting_def set_emplace_def insort_insert_key_def)
  then show ?thesis using q(1) by (auto simp: pool_loop_ticks_def)
qed

text \<open>Loop \<open>i\<close> of the second program counts nothing until its one-shot timer, \<open>i\<close> tenths of a second, is over; from the round in which it fires
  the ticks are those of the first program, counted from the time at which the lambda read the clock.\<close>

theorem pool_loop_ticks_count:
  assumes "0 \<le> fd" and "in_range a" and "in_range a'" and "in_range d" and "d = a + int i * 100 * ns_per_ms"
    and "\<forall>r \<in> set early. round_in_range r \<and> tr_now r < d"
    and "d \<le> tr_now r" and "list_all round_in_range (r # late)"
  shows "\<exists>q. pool_loop_ticks fd i a a' early = Some (Inr (0, q))"
    and "\<exists>q. pool_loop_ticks fd i a a' (early @ r # late)
      = Some (Inr (halves (tr_every r) (fold max (map tr_now (r # late)) (tr_every r)), q))"
proof -
  have b: "in_range (tr_every r)" "round_in_range r" using assms(8) by (simp_all add: round_in_range_def)
  have run: "\<exists>q. waiting fd d q \<and> pool_loop_ticks fd i a a' (early @ rs) = tick_rounds rs 0 q" for rs
    using waiting_started [of a i a' fd "early @ rs"] early_rounds [OF _ assms(1,4,6)] assms(2-5) by metis
  from run [of "[]"] show "\<exists>q. pool_loop_ticks fd i a a' early = Some (Inr (0, q))" by auto
  from run [of "r # late"] obtain q where
    q: "waiting fd d q" "pool_loop_ticks fd i a a' (early @ r # late) = tick_rounds (r # late) 0 q" by blast
  from start_fires [OF q(1) assms(7) b(2), of 0] obtain q' where
    q': "process_loop (tick_call r) (tr_now r) 0 q = process_loop (tick_call r) (tr_now r) 0 q'" "ticking fd 2 (tr_every r) 0 q'" by blast
  have "tick_rounds (r # late) 0 q = tick_rounds (r # late) 0 q'" by (simp add: process_start [OF q(1) q' assms(1)])
  moreover have "ticking fd 2 (tr_every r) (halves (tr_every r) (tr_every r)) q'" using q'(2) by (simp add: halves_start)
  from tick_rounds_run [OF this assms(1) b(1,1) assms(8)] have
    "\<exists>q. tick_rounds (r # late) 0 q' = Some (Inr (halves (tr_every r) (fold max (map tr_now (r # late)) (tr_every r)), q))"
    by (simp add: halves_start)
  ultimately show "\<exists>q. pool_loop_ticks fd i a a' (early @ r # late)
      = Some (Inr (halves (tr_every r) (fold max (map tr_now (r # late)) (tr_every r)), q))" using q(2) by simp
qed

end
