(* ===== verification/Spec2Isabelle.thy ===== *)
theory Spec2Isabelle
  imports Buffer Timer_Queue Epoll_Poller Tcp_Connection Event_Loop Thread_Pool Loop_Object Acceptor Loop_Thread Loop_Thread_Pool
    Server_Termination Logger Conn_Stream Conn_Context Loop_Affinity Poller_Object Example_Programs Timer_Example
    Acceptor_Example Server_Example Loop_Example Tick_Example
begin

text \<open>
  SolarNet is a network library in C++ in the reactor style. This development models its library
  code under \<open>src/solar_net/\<close>, and some of the programs under \<open>src/examples/\<close> that use it, and proves what makes it correct; where the code fails, the failure is a theorem too.

  \<^bold>\<open>The program.\<close> An \<open>EventLoop\<close> belongs to one thread. It waits in a \<open>Poller\<close> (epoll) for descriptors wrapped in
  \<open>Channel\<close> objects, runs their callbacks, then runs the functors that other threads have queued, woken up
  through an eventfd; its \<open>TimerQueue\<close> is one more channel on a timerfd. A \<open>TcpConnection\<close> owns a socket, a channel and two
  \<open>Buffer\<close>s; an \<open>Acceptor\<close> makes connections; a \<open>TcpServer\<close> keeps the table of connections in its main loop and spreads them over
  the loops of an \<open>EventLoopThreadPool\<close>. \<open>Thread\<close>, \<open>ThreadPool\<close>, \<open>Time\<close> and \<open>Logger\<close> are the base.

  \<^bold>\<open>Theories and sources.\<close>
  \<^item> \<open>Net_Prelude\<close>: results with errors (\<open>res\<close>: a failed assertion, undefined behaviour or an exception is a value), memory
    ranges, \<open>size_t\<close>, paths of labelled steps (\<open>ev_path\<close>).
  \<^item> \<open>Byte_Order\<close>, \<open>Byte_Queue\<close>, \<open>Buffer\<close>: \<open>base/buffer.{h,cpp}\<close>. The storage is a byte list with two indices in \<open>size_t\<close>; the locale
    \<open>byte_queue\<close> is the contract, interpreted on the buffer. Lemmas: invariant of every operation, refinement to a
    queue of bytes, integer round trips, scatter reads, and the overflow cases.
  \<^item> \<open>Net_Time\<close>, \<open>Timer_Queue\<close>: \<open>base/time.{h,cpp}\<close>, \<open>net/timer_queue.{h,cpp}\<close>. Clock readings are arguments. Lemmas: the
    index and the map of timers agree, exactly the due timers fire and in order, the loop over
    expired timers ends, the timerfd is armed for the earliest timer, time-outs keep their bounds, and the use after free when a callback
    cancels its own timer.
  \<^item> \<open>Channel\<close>, \<open>Channel_Owner\<close>, \<open>Epoll_Poller\<close>: \<open>net/channel.{h,cpp}\<close>, \<open>net/poller.{h,cpp}\<close>, \<open>net/epoll_poller.{h,cpp}\<close>. Channels live in a
    store of pointers; the kernel's interest list is recomputed from the history of \<open>epoll_ctl\<close> calls and
    proved to be what the channels ask for. \<open>Channel_Owner\<close> has the steps of all objects that own a channel, \<open>Poller_Object\<close> the epoll
    descriptor and what is left of a poller that could not open it.
  \<^item> \<open>Event_Loop\<close>, \<open>Loop_Object\<close>, \<open>Loop_Affinity\<close>: \<open>net/event_loop.{h,cpp}\<close>. The first has one step per access to shared state (no wakeup is lost,
    functors run once and in order), the second construction, destruction and one whole round with
    poller, channels and timers, the third the check of the loop thread, which logs and goes on.
  \<^item> \<open>Inet_Address\<close>, \<open>Socket_Fd\<close>, \<open>Acceptor\<close>: \<open>net/transport/{inet_address,socket,acceptor}.{h,cpp}\<close>. Addresses are the bytes of the socket structures;
    sockets own descriptors; the acceptor is modelled with its socket and its channel.
  \<^item> \<open>Tcp_Connection\<close>, \<open>Conn_Stream\<close>, \<open>Conn_Context\<close>: \<open>net/transport/tcp_connection.{h,cpp}\<close>. A connection is modelled with its channel, its buffers and its
    queue of functors. \<open>Conn_Stream\<close> proves end to end, through the locale \<open>byte_stream\<close>, that what leaves is what was sent: for the
    echo callback of the example and for sends from other threads. \<open>Conn_Context\<close> has the accesses to the context, one step each.
  \<^item> \<open>Tcp_Server\<close>, \<open>Server_Lifecycle\<close>, \<open>Server_Stop\<close>, \<open>Server_Termination\<close>: \<open>net/transport/tcp_server.{h,cpp}\<close>, the server with the queues of all loops. \<open>Tcp_Server\<close>
    has the definitions and the refinement of a connection's life cycle, \<open>Server_Lifecycle\<close> the invariant of the server, \<open>Server_Stop\<close> what
    holds in every interleaving and where Stop ends, \<open>Server_Termination\<close> that it ends: a bound on the steps after Stop.
  \<^item> \<open>Loop_Thread\<close>, \<open>Loop_Thread_Pool\<close>: \<open>net/event_loop_thread{,_pool}.{h,cpp}\<close>; the locale \<open>round_robin\<close> is the contract of choosing loops.
  \<^item> \<open>Thread_Object\<close>, \<open>Thread_Pool\<close>: \<open>base/thread.{h,cpp}\<close>, \<open>base/thread_pool.{h,cpp}\<close>, one step per critical section.
  \<^item> \<open>Logger\<close>: \<open>base/logger.{h,cpp}\<close>; the locale \<open>appender\<close> is the interface of appenders, interpreted on both.
  \<^item> \<open>Example_Programs\<close>, \<open>Timer_Example\<close>: the \<open>main\<close> functions of examples (channel, poller, buffer, socket, logger, thread pool,
    addresses, timers), run on the definitions of the components they use. The timer example goes through constructor, timers, rounds
    of the loop and destructor, and prints the same lines whenever its rounds come.
  \<^item> \<open>Acceptor_Example\<close>, \<open>Loop_Example\<close>, \<open>Server_Example\<close>: programs with several threads. The acceptor example works in every interleaving if
    its acceptor can listen, and hangs or uses a destroyed loop if not; the event loop example shows which functors a loop that is told to quit
    still runs; the server example shows what becomes of the command line.
  \<^item> \<open>Tick_Example\<close>: what the two examples of loop threads run in a loop. Both count one tick for each half second that is over when the timer queue
    last looks at the clock, in the pool from the round in which the one-shot timer has fired.

  \<^bold>\<open>Concurrency.\<close> Code under a lock, or one access to an atomic, is one step; theorems quantify over all sequences of
  steps. Sequential consistency is assumed, which the acquire and release orderings used give for
  these accesses.

  \<^bold>\<open>The outside.\<close> System calls, the clock, \<open>inet_ntop\<close>, \<open>inet_pton\<close>, \<open>localtime_r\<close> and user callbacks are arguments of the definitions. What
  is assumed of them is named (\<open>write_contract\<close>, \<open>readv_contract\<close>, \<open>user_ok\<close>, \<open>steady\<close>, \<open>new_loops\<close>) and instantiated in the witnesses.

  \<^bold>\<open>Bounds and fuel.\<close> \<open>size_t\<close> and \<open>int64_t\<close> keep their width. Loops are structural recursions; the loop over
  expired timers, which callbacks can keep busy for ever, is a partial function whose value \<open>None\<close> is not
  returning, and it is proved to return for well-behaved callbacks. The theorems on the server
  hold as long as fewer connections have been accepted than the counter, an \<open>int\<close>, can count.

  \<^bold>\<open>Not modelled.\<close> In a connection and in the server, the names and addresses that are only stored and logged; callbacks of the
  application that call back into the server; that the atomics could be weaker than sequentially consistent; the contents of log
  messages of the other components; the two seconds that examples sleep, and all of \<open>benchmarks\<close> and \<open>tests\<close>, which drive the library from
  terminals, signals and timing; \<open>NonCopyable\<close> and the version string, which have no behaviour.
\<close>

end
